(* ===== verification/Udsp_Prelude.thy ===== *)
theory Udsp_Prelude
  imports Main "HOL-Library.Word" "HOL-Library.AList" "HOL-Library.Monad_Syntax"
begin

text \<open>
  Shared vocabulary of the development: the machine types of the C++ sources, little-endian
  byte lists, the vector operations the sources use, consecutive packet identifiers and the
  lemma collections that carry the component proofs.

  Conventions. A fixed-width unsigned integer is a word. A tick (\<open>int64_t\<close> microseconds)
  is an \<open>int\<close>: signed overflow is undefined in C++ and the sources never rely on it; the
  sentinel \<open>INT64_MAX\<close> keeps its value. A read outside an object is \<open>None\<close>.
\<close>

unbundle bit_operations_syntax

type_synonym u8 = "8 word"
type_synonym u16 = "16 word"
type_synonym u32 = "32 word"
type_synonym u64 = "64 word"
type_synonym bytes = "u8 list"
type_synonym tick = int

abbreviation UINT16_MAX :: u16 where "UINT16_MAX \<equiv> 0xFFFF"
abbreviation UINT32_MAX :: u32 where "UINT32_MAX \<equiv> 0xFFFFFFFF"
abbreviation UINT64_MAX :: u64 where "UINT64_MAX \<equiv> 0xFFFFFFFFFFFFFFFF"
abbreviation INT64_MAX :: tick where "INT64_MAX \<equiv> 9223372036854775807"

named_theorems wire_defs "definitions of the encoders and decoders"
named_theorems wire_simps "rewriting of encoded lengths and decoded values"
named_theorems tx_inv_intros "operations that keep the transmit invariant"
named_theorems rx_inv_intros "operations that keep the receive invariant"

subsection \<open>Words and natural numbers\<close>

lemma unat_of_nat_small: "n < 2 ^ LENGTH('a::len) \<Longrightarrow> unat (of_nat n :: 'a word) = n"
  by (simp add: unat_of_nat take_bit_nat_eq_self)

lemma unat_u8_less [simp]: "unat (x :: u8) < 256"
  using unsigned_less [of x] by simp

lemma unat_u16_less [simp]: "unat (x :: u16) < 65536"
  using unsigned_less [of x] by simp

lemma unat_u32_less [simp]: "unat (x :: u32) < 4294967296"
  using unsigned_less [of x] by simp

lemma unat_u32_le [simp]: "unat (x :: u32) \<le> 4294967295"
  using unat_u32_less [of x] by linarith

lemma unat_u64_less [simp]: "unat (x :: u64) < 18446744073709551616"
  using unsigned_less [of x] by simp

lemma unat_ucast_mod: "unat (ucast (x :: 'a::len word) :: 'b::len word) = unat x mod 2 ^ LENGTH('b)"
  by (simp add: unsigned_ucast_eq take_bit_eq_mod)

lemma unat_ucast_small:
  "unat (x :: 'a::len word) < 2 ^ LENGTH('b) \<Longrightarrow> unat (ucast x :: 'b::len word) = unat x"
  by (simp add: unat_ucast_mod)

lemma unat_plus_1: "(a :: 'a::len word) < b \<Longrightarrow> unat (a + 1) = Suc (unat a)"
proof -
  assume "a < b"
  moreover have "unat b < 2 ^ LENGTH('a)"
    by (rule unsigned_less)
  ultimately have "Suc (unat a) < 2 ^ LENGTH('a)"
    unfolding word_less_nat_alt by linarith
  then show ?thesis by (simp add: unat_word_ariths)
qed

subsection \<open>Little-endian byte lists\<close>

text \<open>The bytes of a value of \<open>n\<close> bytes, least significant first, and their value.\<close>

fun le_encode :: "nat \<Rightarrow> nat \<Rightarrow> bytes" where
  "le_encode 0 v = []"
| "le_encode (Suc n) v = of_nat v # le_encode n (v div 256)"

fun le_decode :: "bytes \<Rightarrow> nat" where
  "le_decode [] = 0"
| "le_decode (b # bs) = unat b + 256 * le_decode bs"

lemma length_le_encode [simp]: "length (le_encode n v) = n"
  by (induction n arbitrary: v) auto

lemma le_decode_encode: "le_decode (le_encode n v) = v mod 256 ^ n"
proof (induction n arbitrary: v)
  case 0
  then show ?case by simp
next
  case (Suc n)
  have "v mod 256 ^ Suc n = v mod 256 + 256 * (v div 256 mod 256 ^ n)"
    by (simp add: mod_mult2_eq)
  then show ?case
    by (simp add: Suc.IH unat_of_nat take_bit_eq_mod)
qed

lemma le_decode_less: "le_decode bs < 256 ^ length bs"
proof (induction bs)
  case Nil
  then show ?case by simp
next
  case (Cons b bs)
  have "unat b + 256 * le_decode bs < 256 * Suc (le_decode bs)"
    by simp
  also have "\<dots> \<le> 256 * 256 ^ length bs"
    using Cons.IH by (intro mult_le_mono) auto
  finally show ?case by simp
qed

text \<open>The first \<open>n\<close> bytes as a value, and the bytes behind them; \<open>None\<close> when there are
  fewer than \<open>n\<close> bytes in the object the pointer points into.\<close>

definition take_bytes :: "nat \<Rightarrow> bytes \<Rightarrow> (bytes \<times> bytes) option" where
  "take_bytes n bs = (if n \<le> length bs then Some (take n bs, drop n bs) else None)"

lemma take_bytes_append [simp]: "length xs = n \<Longrightarrow> take_bytes n (xs @ ys) = Some (xs, ys)"
  by (simp add: take_bytes_def)

lemma take_bytes_short: "length bs < n \<Longrightarrow> take_bytes n bs = None"
  by (simp add: take_bytes_def)

lemma take_bytes_Some:
  "take_bytes n bs = Some (xs, ys) \<longleftrightarrow> length xs = n \<and> bs = xs @ ys"
  by (auto simp: take_bytes_def)

text \<open>\<open>n\<close> bytes at \<open>off\<close> behind a pointer.\<close>

definition mem_read :: "bytes \<Rightarrow> nat \<Rightarrow> nat \<Rightarrow> bytes option" where
  "mem_read p off n = (if off + n \<le> length p then Some (take n (drop off p)) else None)"

lemma mem_read_length: "mem_read p off n = Some bs \<Longrightarrow> length bs = n"
  by (auto simp: mem_read_def split: if_splits)

text \<open>\<open>std::vector<uint8_t>::resize\<close>.\<close>

definition vec_resize :: "nat \<Rightarrow> bytes \<Rightarrow> bytes" where
  "vec_resize n xs = take n xs @ replicate (n - length xs) 0"

lemma length_vec_resize [simp]: "length (vec_resize n xs) = n"
  by (simp add: vec_resize_def)

text \<open>\<open>std::copy\<close> of \<open>src\<close> to position \<open>off\<close> of a buffer that is large enough.\<close>

definition overwrite :: "nat \<Rightarrow> bytes \<Rightarrow> bytes \<Rightarrow> bytes" where
  "overwrite off src dst = take off dst @ src @ drop (off + length src) dst"

lemma length_overwrite:
  "off + length src \<le> length dst \<Longrightarrow> length (overwrite off src dst) = length dst"
  by (simp add: overwrite_def)

lemma overwrite_append:
  "length pre = off \<Longrightarrow> length old = length src \<Longrightarrow>
   overwrite off src (pre @ old @ post) = pre @ src @ post"
  by (simp add: overwrite_def)

subsection \<open>Consecutive packet identifiers\<close>

text \<open>Packet identifiers are \<open>uint32_t\<close> counters that wrap around.\<close>

fun consecutive :: "u32 list \<Rightarrow> bool" where
  "consecutive [] = True"
| "consecutive [x] = True"
| "consecutive (x # y # ys) = (y = x + 1 \<and> consecutive (y # ys))"

lemma consecutive_tl: "consecutive (x # xs) \<Longrightarrow> consecutive xs"
  by (cases xs) auto

lemma consecutive_nth:
  "consecutive (x # xs) \<Longrightarrow> i < length (x # xs) \<Longrightarrow> (x # xs) ! i = x + of_nat i"
proof (induction xs arbitrary: x i)
  case Nil
  then show ?case by simp
next
  case (Cons y ys)
  show ?case
  proof (cases i)
    case 0
    then show ?thesis by simp
  next
    case (Suc j)
    with Cons.prems have "(y # ys) ! j = y + of_nat j" by (intro Cons.IH) auto
    with Cons.prems(1) Suc show ?thesis by simp
  qed
qed

lemma consecutive_append1:
  "consecutive xs \<Longrightarrow> (xs \<noteq> [] \<Longrightarrow> y = last xs + 1) \<Longrightarrow> consecutive (xs @ [y])"
  by (induction xs rule: consecutive.induct) auto

lemma consecutive_last: "consecutive (x # xs) \<Longrightarrow> last (x # xs) = x + of_nat (length xs)"
  using consecutive_nth [of x xs "length xs"] last_conv_nth [of "x # xs"]
  by (simp del: last.simps)

end
