(* ===== verification/Udsp_Wire.thy ===== *)
theory Udsp_Wire
  imports Udsp_Prelude
begin

text \<open>
  The wire format: the integer readers and writers of \<open>Stream.cpp\<close>, the one-byte chunk
  identifier \<open>ChunkId\<close> with its four bit-field layouts and the packed packet header
  \<open>PacketHeader\<close> of \<open>Impl.hpp\<close>. Integers are stored in the byte order of the machine;
  the model fixes little endian, and allocates bit-fields from the least significant bit,
  as the supported compilers do on such machines and as the diagrams of the README show.
\<close>

subsection \<open>Integer readers and writers\<close>

text \<open>A writer casts its argument to the width it writes; a reader returns the value and
  the advanced pointer.\<close>

definition write_u8 :: "'a::len word \<Rightarrow> bytes" where
  "write_u8 value = le_encode 1 (unat (ucast value :: u8))"

definition write_u16 :: "'a::len word \<Rightarrow> bytes" where
  "write_u16 value = le_encode 2 (unat (ucast value :: u16))"

definition write_u32 :: "'a::len word \<Rightarrow> bytes" where
  "write_u32 value = le_encode 4 (unat (ucast value :: u32))"

definition write_u64 :: "'a::len word \<Rightarrow> bytes" where
  "write_u64 value = le_encode 8 (unat (ucast value :: u64))"

definition write_data :: "bytes \<Rightarrow> nat \<Rightarrow> bytes option" where
  "write_data data n = mem_read data 0 n"

definition read_u8 :: "bytes \<Rightarrow> (u8 \<times> bytes) option" where
  "read_u8 buffer = map_option (\<lambda>(v, rest). (of_nat (le_decode v), rest)) (take_bytes 1 buffer)"

definition read_u16 :: "bytes \<Rightarrow> (u16 \<times> bytes) option" where
  "read_u16 buffer = map_option (\<lambda>(v, rest). (of_nat (le_decode v), rest)) (take_bytes 2 buffer)"

definition read_u32 :: "bytes \<Rightarrow> (u32 \<times> bytes) option" where
  "read_u32 buffer = map_option (\<lambda>(v, rest). (of_nat (le_decode v), rest)) (take_bytes 4 buffer)"

definition read_u64 :: "bytes \<Rightarrow> (u64 \<times> bytes) option" where
  "read_u64 buffer = map_option (\<lambda>(v, rest). (of_nat (le_decode v), rest)) (take_bytes 8 buffer)"

lemmas write_defs = write_u8_def write_u16_def write_u32_def write_u64_def
lemmas read_defs = read_u8_def read_u16_def read_u32_def read_u64_def

lemma length_write [simp, wire_simps]:
  "length (write_u8 v) = 1" "length (write_u16 v) = 2"
  "length (write_u32 v) = 4" "length (write_u64 v) = 8"
  by (simp_all add: write_defs)

subsection \<open>The contract of a codec\<close>

text \<open>A reader undoes its writer and leaves what follows untouched. Two encodings are then
  never a prefix of one another, so a concatenation of encodings has one reading only.\<close>

locale wire_codec =
  fixes enc :: "'v \<Rightarrow> bytes"
    and dec :: "bytes \<Rightarrow> ('v \<times> bytes) option"
  assumes dec_enc: "dec (enc v @ rest) = Some (v, rest)"
begin

lemma enc_prefix_free:
  assumes "enc v @ rest = enc v' @ rest'"
  shows "v = v' \<and> rest = rest'"
proof -
  have "Some (v, rest) = Some (v', rest')"
    by (simp only: dec_enc [symmetric] assms)
  then show ?thesis by simp
qed

lemma enc_inject: "enc v = enc v' \<longleftrightarrow> v = v'"
proof
  assume "enc v = enc v'"
  then have "enc v @ [] = enc v' @ []" by simp
  from enc_prefix_free [OF this] show "v = v'" ..
qed simp

end

text \<open>A codec of fixed width also refuses a shorter input.\<close>

locale fixed_codec = wire_codec +
  fixes width :: nat
  assumes length_enc: "length (enc v) = width"
    and dec_short: "length bs < width \<Longrightarrow> dec bs = None"
begin

lemma enc_split: "bs = enc v @ rest \<Longrightarrow> take width bs = enc v \<and> drop width bs = rest"
  by (simp add: length_enc)

lemma dec_Some_width: "dec bs = Some (v, rest) \<Longrightarrow> width \<le> length bs"
  using dec_short [of bs] by (cases "length bs < width") auto

end

lemma le_decode_write [wire_simps]:
  "le_decode (write_u8 (v8 :: u8)) = unat v8"
  "le_decode (write_u16 (v16 :: u16)) = unat v16"
  "le_decode (write_u32 (v32 :: u32)) = unat v32"
  "le_decode (write_u64 (v64 :: u64)) = unat v64"
  by (simp_all only: write_defs le_decode_encode) simp_all

lemma read_write [wire_simps]:
  "read_u8 (write_u8 (v8 :: u8) @ rest) = Some (v8, rest)"
  "read_u16 (write_u16 (v16 :: u16) @ rest) = Some (v16, rest)"
  "read_u32 (write_u32 (v32 :: u32) @ rest) = Some (v32, rest)"
  "read_u64 (write_u64 (v64 :: u64) @ rest) = Some (v64, rest)"
  by (simp_all add: read_defs le_decode_write del: One_nat_def)

interpretation codec_u8: fixed_codec write_u8 read_u8 1
  by unfold_locales (simp_all only: wire_simps, simp add: read_defs take_bytes_def)

interpretation codec_u16: fixed_codec write_u16 read_u16 2
  by unfold_locales (simp_all only: wire_simps, simp add: read_defs take_bytes_def)

interpretation codec_u32: fixed_codec write_u32 read_u32 4
  by unfold_locales (simp_all only: wire_simps, simp add: read_defs take_bytes_def)

interpretation codec_u64: fixed_codec write_u64 read_u64 8
  by unfold_locales (simp_all only: wire_simps, simp add: read_defs take_bytes_def)


subsection \<open>ChunkId: number of bits, number of bytes\<close>

datatype ChunkType = SmallPacket | BeginOfPacket | PieceOfPacket | RepeatInfo

datatype Bits = B8 | B16 | B32 | B64

text \<open>The enumerators as the two-bit values a bit-field holds.\<close>

definition type_code :: "ChunkType \<Rightarrow> u8" where
  "type_code t = (case t of SmallPacket \<Rightarrow> 0 | BeginOfPacket \<Rightarrow> 1 | PieceOfPacket \<Rightarrow> 2
                   | RepeatInfo \<Rightarrow> 3)"

definition code_type :: "u8 \<Rightarrow> ChunkType" where
  "code_type c = (if c = 0 then SmallPacket else if c = 1 then BeginOfPacket
                  else if c = 2 then PieceOfPacket else RepeatInfo)"

definition bits_code :: "Bits \<Rightarrow> u8" where
  "bits_code b = (case b of B8 \<Rightarrow> 0 | B16 \<Rightarrow> 1 | B32 \<Rightarrow> 2 | B64 \<Rightarrow> 3)"

definition code_bits :: "u8 \<Rightarrow> Bits" where
  "code_bits c = (if c = 0 then B8 else if c = 1 then B16 else if c = 2 then B32 else B64)"

text \<open>\<open>!!(value & mask)\<close> as a \<open>uint8_t\<close>.\<close>

definition masked :: "u64 \<Rightarrow> u64 \<Rightarrow> u8" where
  "masked value msk = (if value AND msk = 0 then 0 else 1)"

definition getNumberOfBits :: "u64 \<Rightarrow> Bits" where
  "getNumberOfBits value =
     (let b63_32 = masked value 0xFFFFFFFF00000000;
          b31_16 = masked value 0xFFFF0000;
          b15_8 = masked value 0xFF00
      in code_bits (push_bit 1 (b63_32 OR b31_16) OR drop_bit (unat b31_16) b15_8 OR b63_32))"

definition getNumberOfBytes :: "Bits \<Rightarrow> nat" where
  "getNumberOfBytes bits = 2 ^ unat (bits_code bits)"

lemma getNumberOfBytes_simps [simp]:
  "getNumberOfBytes B8 = 1" "getNumberOfBytes B16 = 2"
  "getNumberOfBytes B32 = 4" "getNumberOfBytes B64 = 8"
  by (simp_all add: getNumberOfBytes_def bits_code_def)

lemma getNumberOfBytes_bounds: "1 \<le> getNumberOfBytes b" "getNumberOfBytes b \<le> 8"
  by (cases b; simp)+

lemma and_shifted_mask_eq_0:
  "(v :: 'a::len word) AND push_bit lo (mask w) = 0 \<longleftrightarrow> take_bit w (drop_bit lo v) = 0"
proof -
  have "v AND push_bit lo (mask w) = push_bit lo (take_bit w (drop_bit lo v))"
    by (rule bit_eqI) (auto simp: bit_simps)
  moreover have "take_bit w (drop_bit lo v) = 0 \<longleftrightarrow> push_bit lo (take_bit w (drop_bit lo v)) = 0"
  proof
    assume *: "push_bit lo (take_bit w (drop_bit lo v)) = 0"
    show "take_bit w (drop_bit lo v) = 0"
    proof (rule bit_eqI)
      fix n
      have "bit (push_bit lo (take_bit w (drop_bit lo v))) (lo + n) = False"
        using * by simp
      then show "bit (take_bit w (drop_bit lo v)) n = bit 0 n"
        by (auto simp: bit_simps dest: bit_imp_le_length)
    qed
  qed simp
  ultimately show ?thesis by simp
qed

lemma unat_drop_bit_div: "unat (drop_bit n (v :: 'a::len word)) = unat v div 2 ^ n"
  by (subst unat_drop_bit_eq) (simp add: drop_bit_eq_div)

lemma drop_bit_eq_0_iff: "drop_bit n (v :: 'a::len word) = 0 \<longleftrightarrow> unat v < 2 ^ n"
proof -
  have "drop_bit n v = 0 \<longleftrightarrow> unat (drop_bit n v) = 0"
    by (simp add: unat_eq_0)
  also have "\<dots> \<longleftrightarrow> unat v div 2 ^ n = 0"
    by (simp add: unat_drop_bit_div)
  finally show ?thesis by (simp add: div_eq_0_iff)
qed

lemma masked_below:
  assumes "unat v < 2 ^ (lo + w)" and "msk = push_bit lo (mask w)"
  shows "masked v msk = (if unat v < 2 ^ lo then 0 else 1)"
proof -
  have "unat (drop_bit lo v) < 2 ^ w"
    using assms(1) by (simp add: unat_drop_bit_div less_mult_imp_div_less power_add mult.commute)
  then have "take_bit w (drop_bit lo v) = drop_bit lo v"
    by (intro word_unat_eq_iff [THEN iffD2]) (simp add: unsigned_take_bit_eq take_bit_nat_eq_self)
  then show ?thesis
    by (simp add: masked_def assms(2) and_shifted_mask_eq_0 drop_bit_eq_0_iff)
qed

text \<open>What the bit tricks compute.\<close>

lemma getNumberOfBits_eq:
  "getNumberOfBits v =
     (if unat v < 2 ^ 8 then B8 else if unat v < 2 ^ 16 then B16
      else if unat v < 2 ^ 32 then B32 else B64)"
proof -
  have hi: "masked v 0xFFFFFFFF00000000 = (if unat v < 2 ^ 32 then 0 else 1)"
    by (rule masked_below [where w = 32]) (simp_all add: mask_eq_exp_minus_1)
  have mid: "unat v < 2 ^ 32 \<Longrightarrow> masked v 0xFFFF0000 = (if unat v < 2 ^ 16 then 0 else 1)"
    by (rule masked_below [where w = 16]) (simp_all add: mask_eq_exp_minus_1)
  have lo: "unat v < 2 ^ 16 \<Longrightarrow> masked v 0xFF00 = (if unat v < 2 ^ 8 then 0 else 1)"
    by (rule masked_below [where w = 8]) (simp_all add: mask_eq_exp_minus_1)
  have any: "\<And>m. masked v m = 0 \<or> masked v m = 1"
    by (simp add: masked_def)
  consider "unat v < 2 ^ 8" | "2 ^ 8 \<le> unat v" "unat v < 2 ^ 16"
    | "2 ^ 16 \<le> unat v" "unat v < 2 ^ 32" | "2 ^ 32 \<le> unat v"
    by linarith
  then show ?thesis
  proof cases
    case 4
    then show ?thesis
      using any [of "0xFFFF0000"] any [of "0xFF00"] hi
      by (auto simp: getNumberOfBits_def Let_def code_bits_def)
  next
    case 3
    then show ?thesis
      using any [of "0xFF00"] hi mid by (auto simp: getNumberOfBits_def Let_def code_bits_def)
  next
    case 2
    then show ?thesis
      using hi mid lo by (simp add: getNumberOfBits_def Let_def code_bits_def)
  next
    case 1
    then show ?thesis
      using hi mid lo by (simp add: getNumberOfBits_def Let_def code_bits_def)
  qed
qed

text \<open>The number of bytes chosen for a value is the least of 1, 2, 4 and 8 that holds it.\<close>

lemma getNumberOfBits_fits: "unat v < 256 ^ getNumberOfBytes (getNumberOfBits v)"
  using unat_u64_less [of v] by (simp add: getNumberOfBits_eq)

lemma getNumberOfBits_small:
  "unat v < 65536 \<Longrightarrow> getNumberOfBits v = B8 \<or> getNumberOfBits v = B16"
  by (simp add: getNumberOfBits_eq)

subsection \<open>ChunkId: the bit-field layouts\<close>

text \<open>Assigning \<open>v\<close> to, and reading, the bit-field of width \<open>w\<close> at bit \<open>lo\<close> of the
  byte \<open>raw\<close>.\<close>

definition set_bits :: "nat \<Rightarrow> nat \<Rightarrow> u8 \<Rightarrow> u8 \<Rightarrow> u8" where
  "set_bits lo w v raw = (raw AND NOT (push_bit lo (mask w))) OR push_bit lo (take_bit w v)"

definition get_bits :: "nat \<Rightarrow> nat \<Rightarrow> u8 \<Rightarrow> u8" where
  "get_bits lo w raw = take_bit w (drop_bit lo raw)"

lemma get_set_same: "lo + w \<le> 8 \<Longrightarrow> get_bits lo w (set_bits lo w v raw) = take_bit w v"
  unfolding get_bits_def set_bits_def by (rule bit_eqI) (auto simp: bit_simps)

lemma get_set_other:
  "lo + w \<le> lo' \<or> lo' + w' \<le> lo \<Longrightarrow> get_bits lo w (set_bits lo' w' v raw) = get_bits lo w raw"
  unfolding get_bits_def set_bits_def by (rule bit_eqI) (auto simp: bit_simps dest: bit_imp_le_length)

lemma get_bits_0 [simp]: "get_bits lo w 0 = 0"
  by (simp add: get_bits_def)

definition flag :: "bool \<Rightarrow> u8" where
  "flag b = (if b then 1 else 0)"

text \<open>\<open>chunkId.type.chunkType\<close>, at the same place in every layout.\<close>

definition chunkType :: "u8 \<Rightarrow> ChunkType" where
  "chunkType raw = code_type (get_bits 0 2 raw)"

text \<open>\<open>chunkId.smallPacket\<close>: one unused bit, then the flags and the width of the size.\<close>

definition mk_smallPacket :: "bool \<Rightarrow> bool \<Rightarrow> bool \<Rightarrow> Bits \<Rightarrow> u8" where
  "mk_smallPacket isAcknowledge isReliable isFront packetSizeBits =
     set_bits 6 2 (bits_code packetSizeBits) (set_bits 5 1 (flag isFront)
       (set_bits 4 1 (flag isReliable) (set_bits 3 1 (flag isAcknowledge)
         (set_bits 0 2 (type_code SmallPacket) 0))))"

definition sp_isAcknowledge :: "u8 \<Rightarrow> bool" where
  "sp_isAcknowledge raw \<longleftrightarrow> get_bits 3 1 raw \<noteq> 0"

definition sp_isReliable :: "u8 \<Rightarrow> bool" where
  "sp_isReliable raw \<longleftrightarrow> get_bits 4 1 raw \<noteq> 0"

definition sp_isFront :: "u8 \<Rightarrow> bool" where
  "sp_isFront raw \<longleftrightarrow> get_bits 5 1 raw \<noteq> 0"

definition sp_packetSizeBits :: "u8 \<Rightarrow> Bits" where
  "sp_packetSizeBits raw = code_bits (get_bits 6 2 raw)"

text \<open>\<open>chunkId.beginOfPacket\<close>: the flags sit where those of \<open>smallPacket\<close> do.\<close>

definition mk_beginOfPacket :: "bool \<Rightarrow> bool \<Rightarrow> Bits \<Rightarrow> u8" where
  "mk_beginOfPacket isReliable isFront packetSizeBits =
     set_bits 6 2 (bits_code packetSizeBits) (set_bits 5 1 (flag isFront)
       (set_bits 4 1 (flag isReliable) (set_bits 0 2 (type_code BeginOfPacket) 0)))"

definition bp_isReliable :: "u8 \<Rightarrow> bool" where
  "bp_isReliable raw \<longleftrightarrow> get_bits 4 1 raw \<noteq> 0"

definition bp_isFront :: "u8 \<Rightarrow> bool" where
  "bp_isFront raw \<longleftrightarrow> get_bits 5 1 raw \<noteq> 0"

definition bp_packetSizeBits :: "u8 \<Rightarrow> Bits" where
  "bp_packetSizeBits raw = code_bits (get_bits 6 2 raw)"

text \<open>\<open>chunkId.pieceOfPacket\<close>: two widths, so the flags move down.\<close>

definition mk_pieceOfPacket :: "bool \<Rightarrow> bool \<Rightarrow> Bits \<Rightarrow> Bits \<Rightarrow> u8" where
  "mk_pieceOfPacket isReliable isFront offsetBits pieceSizeBits =
     set_bits 6 2 (bits_code pieceSizeBits) (set_bits 4 2 (bits_code offsetBits)
       (set_bits 3 1 (flag isFront) (set_bits 2 1 (flag isReliable)
         (set_bits 0 2 (type_code PieceOfPacket) 0))))"

definition pp_isReliable :: "u8 \<Rightarrow> bool" where
  "pp_isReliable raw \<longleftrightarrow> get_bits 2 1 raw \<noteq> 0"

definition pp_isFront :: "u8 \<Rightarrow> bool" where
  "pp_isFront raw \<longleftrightarrow> get_bits 3 1 raw \<noteq> 0"

definition pp_offsetBits :: "u8 \<Rightarrow> Bits" where
  "pp_offsetBits raw = code_bits (get_bits 4 2 raw)"

definition pp_pieceSizeBits :: "u8 \<Rightarrow> Bits" where
  "pp_pieceSizeBits raw = code_bits (get_bits 6 2 raw)"

text \<open>\<open>chunkId.repeatInfo\<close>.\<close>

definition mk_repeatInfo :: "Bits \<Rightarrow> Bits \<Rightarrow> u8" where
  "mk_repeatInfo repeatOffsetBits repeatSizeBits =
     set_bits 6 2 (bits_code repeatSizeBits) (set_bits 4 2 (bits_code repeatOffsetBits)
       (set_bits 0 2 (type_code RepeatInfo) 0))"

definition ri_repeatOffsetBits :: "u8 \<Rightarrow> Bits" where
  "ri_repeatOffsetBits raw = code_bits (get_bits 4 2 raw)"

definition ri_repeatSizeBits :: "u8 \<Rightarrow> Bits" where
  "ri_repeatSizeBits raw = code_bits (get_bits 6 2 raw)"

lemma take_bit_codes [simp]:
  "take_bit (Suc 0) (flag b) = flag b" "take_bit 2 (bits_code x) = bits_code x"
  "take_bit 2 (type_code t) = type_code t"
  by (simp_all add: flag_def bits_code_def type_code_def split: Bits.split ChunkType.split)

lemma decode_codes [simp]:
  "flag b mod 2 = 1 \<longleftrightarrow> b" "flag b = 0 \<longleftrightarrow> \<not> b" "code_bits (bits_code x) = x" "code_type (type_code t) = t"
  by (simp_all add: flag_def bits_code_def code_bits_def type_code_def code_type_def
      split: Bits.split ChunkType.split)

lemmas chunk_getters = chunkType_def sp_isAcknowledge_def sp_isReliable_def sp_isFront_def
  sp_packetSizeBits_def bp_isReliable_def bp_isFront_def bp_packetSizeBits_def pp_isReliable_def
  pp_isFront_def pp_offsetBits_def pp_pieceSizeBits_def ri_repeatOffsetBits_def
  ri_repeatSizeBits_def

text \<open>Reading a layout back returns the fields it was built from.\<close>

lemma smallPacket_fields [simp]:
  "chunkType (mk_smallPacket a r f b) = SmallPacket"
  "sp_isAcknowledge (mk_smallPacket a r f b) = a"
  "sp_isReliable (mk_smallPacket a r f b) = r"
  "sp_isFront (mk_smallPacket a r f b) = f"
  "sp_packetSizeBits (mk_smallPacket a r f b) = b"
  by (simp_all add: chunk_getters mk_smallPacket_def get_set_same get_set_other)

lemma beginOfPacket_fields [simp]:
  "chunkType (mk_beginOfPacket r f b) = BeginOfPacket"
  "bp_isReliable (mk_beginOfPacket r f b) = r"
  "bp_isFront (mk_beginOfPacket r f b) = f"
  "bp_packetSizeBits (mk_beginOfPacket r f b) = b"
  by (simp_all add: chunk_getters mk_beginOfPacket_def get_set_same get_set_other)

lemma pieceOfPacket_fields [simp]:
  "chunkType (mk_pieceOfPacket r f ob pb) = PieceOfPacket"
  "pp_isReliable (mk_pieceOfPacket r f ob pb) = r"
  "pp_isFront (mk_pieceOfPacket r f ob pb) = f"
  "pp_offsetBits (mk_pieceOfPacket r f ob pb) = ob"
  "pp_pieceSizeBits (mk_pieceOfPacket r f ob pb) = pb"
  by (simp_all add: chunk_getters mk_pieceOfPacket_def get_set_same get_set_other)

lemma repeatInfo_fields [simp]:
  "chunkType (mk_repeatInfo ob sb) = RepeatInfo"
  "ri_repeatOffsetBits (mk_repeatInfo ob sb) = ob"
  "ri_repeatSizeBits (mk_repeatInfo ob sb) = sb"
  by (simp_all add: chunk_getters mk_repeatInfo_def get_set_same get_set_other)

subsection \<open>Fields of a variable width\<close>

text \<open>The \<open>switch\<close> statements over a \<open>Bits\<close> value that write or read an integer of the
  chosen width.\<close>

definition write_by_bits :: "Bits \<Rightarrow> u64 \<Rightarrow> bytes" where
  "write_by_bits bits value =
     (case bits of B8 \<Rightarrow> write_u8 value | B16 \<Rightarrow> write_u16 value
      | B32 \<Rightarrow> write_u32 value | B64 \<Rightarrow> write_u64 value)"

definition read_by_bits :: "Bits \<Rightarrow> bytes \<Rightarrow> (u64 \<times> bytes) option" where
  "read_by_bits bits buffer =
     (case bits of
        B8 \<Rightarrow> map_option (\<lambda>(v, rest). (ucast v, rest)) (read_u8 buffer)
      | B16 \<Rightarrow> map_option (\<lambda>(v, rest). (ucast v, rest)) (read_u16 buffer)
      | B32 \<Rightarrow> map_option (\<lambda>(v, rest). (ucast v, rest)) (read_u32 buffer)
      | B64 \<Rightarrow> read_u64 buffer)"

lemma length_write_by_bits [simp, wire_simps]:
  "length (write_by_bits bits v) = getNumberOfBytes bits"
  by (cases bits) (simp_all add: write_by_bits_def)

lemma write_ucast:
  "write_u8 (ucast (v :: u64) :: u8) = write_u8 v"
  "write_u16 (ucast (v :: u64) :: u16) = write_u16 v"
  "write_u32 (ucast (v :: u64) :: u32) = write_u32 v"
  by (simp_all add: write_defs)

lemma ucast_ucast_u64:
  "unat (v :: u64) < 256 \<Longrightarrow> ucast (ucast v :: u8) = v"
  "unat (v :: u64) < 65536 \<Longrightarrow> ucast (ucast v :: u16) = v"
  "unat (v :: u64) < 4294967296 \<Longrightarrow> ucast (ucast v :: u32) = v"
  by (simp_all add: word_unat_eq_iff unat_ucast_mod)

lemma read_write_by_bits [wire_simps]:
  assumes "unat v < 256 ^ getNumberOfBytes bits"
  shows "read_by_bits bits (write_by_bits bits v @ rest) = Some (v, rest)"
  using assms read_write(1) [of "ucast v" rest] read_write(2) [of "ucast v" rest]
    read_write(3) [of "ucast v" rest] read_write(4) [of v rest]
  by (cases bits) (simp_all add: read_by_bits_def write_by_bits_def write_ucast ucast_ucast_u64)

lemma read_by_bits_None [simp]:
  "length buffer < getNumberOfBytes bits \<Longrightarrow> read_by_bits bits buffer = None"
  by (cases bits) (simp_all add: read_by_bits_def read_defs take_bytes_def)

text \<open>A value written in the width \<open>getNumberOfBits\<close> picks for it is read back.\<close>

lemma read_write_sized [wire_simps]:
  "read_by_bits (getNumberOfBits v) (write_by_bits (getNumberOfBits v) v @ rest) = Some (v, rest)"
  by (rule read_write_by_bits) (rule getNumberOfBits_fits)

subsection \<open>PacketHeader\<close>

text \<open>\<open>enum class PacketId\<close>; a received header may hold any other value.\<close>

abbreviation PacketId_TypeA :: u32 where "PacketId_TypeA \<equiv> 0x51302201"
abbreviation PacketId_Disconnect :: u32 where "PacketId_Disconnect \<equiv> 0x51302203"
abbreviation PacketId_PMTUProbe :: u32 where "PacketId_PMTUProbe \<equiv> 0x51302204"

record PacketHeader =
  h_packetId :: u32
  h_packetNumber :: u32
  h_connectionId :: u64
  h_PMTUProbeSize_B :: u16
  h_packetsLoss_prc100 :: u16
  h_RTTDelay_us :: u32
  h_RTTRequest :: u8
  h_RTTResponse :: u8

abbreviation sizeof_PacketHeader :: nat where "sizeof_PacketHeader \<equiv> 26"

text \<open>The packed struct stored at, or read from, the start of a buffer.\<close>

definition header_bytes :: "PacketHeader \<Rightarrow> bytes" where
  "header_bytes h = write_u32 (h_packetId h) @ write_u32 (h_packetNumber h)
     @ write_u64 (h_connectionId h) @ write_u16 (h_PMTUProbeSize_B h)
     @ write_u16 (h_packetsLoss_prc100 h) @ write_u32 (h_RTTDelay_us h)
     @ write_u8 (h_RTTRequest h) @ write_u8 (h_RTTResponse h)"

definition read_header :: "bytes \<Rightarrow> (PacketHeader \<times> bytes) option" where
  "read_header b = do {
     (packetId, b) \<leftarrow> read_u32 b;
     (packetNumber, b) \<leftarrow> read_u32 b;
     (connectionId, b) \<leftarrow> read_u64 b;
     (PMTUProbeSize_B, b) \<leftarrow> read_u16 b;
     (packetsLoss_prc100, b) \<leftarrow> read_u16 b;
     (RTTDelay_us, b) \<leftarrow> read_u32 b;
     (RTTRequest, b) \<leftarrow> read_u8 b;
     (RTTResponse, b) \<leftarrow> read_u8 b;
     Some (\<lparr>h_packetId = packetId, h_packetNumber = packetNumber,
            h_connectionId = connectionId, h_PMTUProbeSize_B = PMTUProbeSize_B,
            h_packetsLoss_prc100 = packetsLoss_prc100, h_RTTDelay_us = RTTDelay_us,
            h_RTTRequest = RTTRequest, h_RTTResponse = RTTResponse\<rparr>, b)
   }"

lemma length_header_bytes [simp, wire_simps]: "length (header_bytes h) = sizeof_PacketHeader"
  by (simp add: header_bytes_def)

lemma read_header_bytes [wire_simps]: "read_header (header_bytes h @ rest) = Some (h, rest)"
  by (simp add: header_bytes_def read_header_def read_write)

lemma read_header_short: "length bs < sizeof_PacketHeader \<Longrightarrow> read_header bs = None"
  by (auto simp: read_header_def read_defs take_bytes_def Option.bind_eq_None_conv
      split: if_splits)

interpretation codec_header: fixed_codec header_bytes read_header sizeof_PacketHeader
  by unfold_locales (simp_all only: wire_simps read_header_short)

text \<open>
  C29. The width chosen for an integer field holds the value, and no smaller width of the format does:
  the branch-free arithmetic of \<open>getNumberOfBits\<close> picks the least of 1, 2, 4 and 8
  bytes that is enough, for every 64-bit value.
\<close>

theorem getNumberOfBits_least:
  "unat v < 256 ^ getNumberOfBytes (getNumberOfBits v)
   \<and> (\<forall>b. unat v < 256 ^ getNumberOfBytes b
          \<longrightarrow> getNumberOfBytes (getNumberOfBits v) \<le> getNumberOfBytes b)"
proof (intro conjI allI impI)
  show "unat v < 256 ^ getNumberOfBytes (getNumberOfBits v)"
    by (rule getNumberOfBits_fits)
  fix b
  assume "unat v < 256 ^ getNumberOfBytes b"
  then show "getNumberOfBytes (getNumberOfBits v) \<le> getNumberOfBytes b"
    by (cases b) (simp_all add: getNumberOfBits_eq)
qed

theorem getNumberOfBits_least_witness:
  "getNumberOfBytes (getNumberOfBits 300) \<le> getNumberOfBytes B16"
  using getNumberOfBits_least [of 300, THEN conjunct2, THEN spec, of B16] by simp

end
