(* ===== verification/Udsp_Fifo.thy ===== *)
theory Udsp_Fifo
  imports Udsp_Prelude
begin

text \<open>
  The contract that the packet queues of both directions share. A stream keeps its packets in
  a queue and their identifiers in a shadow queue; \<open>processTxFifo\<close> and
  \<open>processRxFifo\<close> are the same loop over it: while the packet at the front is not to be
  kept, report it to the application and remove it from both queues. What follows from that
  alone is proved here once, for any such loop.
\<close>

locale fifo_drain =
  fixes fifo :: "'s \<Rightarrow> 'p list"
    and shadow :: "'s \<Rightarrow> u32 list"
    and keep :: "'s \<Rightarrow> bool"
    and pop1 :: "'s \<Rightarrow> 's"
    and report :: "'s \<Rightarrow> 'e list"
    and drain :: "'s \<Rightarrow> 's \<times> 'e list"
  assumes drain_keep: "fifo s = [] \<or> keep s \<Longrightarrow> drain s = (s, [])"
    and drain_pop: "fifo s \<noteq> [] \<Longrightarrow> \<not> keep s \<Longrightarrow>
      drain s = (fst (drain (pop1 s)), report s @ snd (drain (pop1 s)))"
    and fifo_pop: "fifo (pop1 s) = tl (fifo s)"
    and shadow_pop: "shadow (pop1 s) = tl (shadow s)"
begin

lemma fifo_pops: "fifo ((pop1 ^^ k) s) = drop k (fifo s)"
  by (induction k) (simp_all add: fifo_pop drop_Suc tl_drop)

lemma shadow_pops: "shadow ((pop1 ^^ k) s) = drop k (shadow s)"
  by (induction k) (simp_all add: shadow_pop drop_Suc tl_drop)

text \<open>Draining removes a prefix, one report per removed packet in queue order, and stops at
  the first packet to keep.\<close>

lemma drain_steps:
  "\<exists>k \<le> length (fifo s). fst (drain s) = (pop1 ^^ k) s
     \<and> snd (drain s) = concat (map (\<lambda>i. report ((pop1 ^^ i) s)) [0 ..< k])
     \<and> (\<forall>i < k. \<not> keep ((pop1 ^^ i) s))
     \<and> (fifo (fst (drain s)) = [] \<or> keep (fst (drain s)))"
proof (induction "length (fifo s)" arbitrary: s)
  case 0
  then show ?case by (intro exI [of _ 0]) (simp add: drain_keep)
next
  case (Suc n)
  show ?case
  proof (cases "keep s")
    case True
    then show ?thesis by (intro exI [of _ 0]) (simp add: drain_keep)
  next
    case False
    have ne: "fifo s \<noteq> []" using Suc.hyps(2) by auto
    have n: "n = length (fifo (pop1 s))" using Suc.hyps(2) by (simp add: fifo_pop)
    obtain k where k: "k \<le> length (fifo (pop1 s))" "fst (drain (pop1 s)) = (pop1 ^^ k) (pop1 s)"
      "snd (drain (pop1 s)) = concat (map (\<lambda>i. report ((pop1 ^^ i) (pop1 s))) [0 ..< k])"
      "\<forall>i < k. \<not> keep ((pop1 ^^ i) (pop1 s))"
      "fifo (fst (drain (pop1 s))) = [] \<or> keep (fst (drain (pop1 s)))"
      using Suc.hyps(1) [OF n] by blast
    have shift: "(pop1 ^^ i) (pop1 s) = (pop1 ^^ Suc i) s" for i
      by (simp add: funpow_swap1)
    have "[0 ..< Suc k] = 0 # map Suc [0 ..< k]"
      by (simp add: map_Suc_upt upt_conv_Cons del: upt_Suc)
    then have "snd (drain s) = concat (map (\<lambda>i. report ((pop1 ^^ i) s)) [0 ..< Suc k])"
      using k(3) by (simp add: drain_pop [OF ne False] comp_def shift del: upt_Suc funpow.simps)
    moreover have "\<forall>i < Suc k. \<not> keep ((pop1 ^^ i) s)"
      using k(4) False by (simp add: All_less_Suc2 shift del: funpow.simps)
    moreover have "Suc k \<le> length (fifo s)" using k(1) n Suc.hyps(2) by simp
    ultimately show ?thesis
      using k(2,5) by (intro exI [of _ "Suc k"])
        (simp add: drain_pop [OF ne False] shift del: funpow.simps upt_Suc)
  qed
qed

lemma drain_drop:
  "\<exists>k \<le> length (fifo s). fifo (fst (drain s)) = drop k (fifo s)
     \<and> shadow (fst (drain s)) = drop k (shadow s)"
  using drain_steps [of s] fifo_pops shadow_pops by metis

lemma drain_done: "fifo (fst (drain s)) = [] \<or> keep (fst (drain s))"
  using drain_steps [of s] by blast

lemma drain_idem: "drain (fst (drain s)) = (fst (drain s), [])"
  using drain_done by (rule drain_keep)

lemma drain_invariant:
  assumes "P s" and "\<And>s. P s \<Longrightarrow> fifo s \<noteq> [] \<Longrightarrow> \<not> keep s \<Longrightarrow> P (pop1 s)"
  shows "P (fst (drain s))"
  using assms(1)
proof (induction "length (fifo s)" arbitrary: s)
  case 0
  then show ?case by (simp add: drain_keep)
next
  case (Suc n)
  show ?case
  proof (cases "keep s")
    case True
    with Suc.prems show ?thesis by (simp add: drain_keep)
  next
    case False
    moreover have "fifo s \<noteq> []" using Suc.hyps(2) by auto
    moreover have "n = length (fifo (pop1 s))" using Suc.hyps(2) by (simp add: fifo_pop)
    ultimately show ?thesis using Suc assms(2) by (simp add: drain_pop)
  qed
qed

text \<open>One report per removed packet, each related to its packet: the form the clients use.\<close>

lemma drain_relates:
  assumes "I s" and inv: "\<And>s. I s \<Longrightarrow> fifo s \<noteq> [] \<Longrightarrow> \<not> keep s \<Longrightarrow> I (pop1 s)"
    and rep: "\<And>s. I s \<Longrightarrow> fifo s \<noteq> [] \<Longrightarrow> \<not> keep s \<Longrightarrow> \<exists>e. report s = [e] \<and> R (hd (fifo s)) e"
  shows "\<exists>k \<le> length (fifo s). fifo (fst (drain s)) = drop k (fifo s)
     \<and> shadow (fst (drain s)) = drop k (shadow s)
     \<and> list_all2 R (take k (fifo s)) (snd (drain s))"
  using \<open>I s\<close>
proof (induction "length (fifo s)" arbitrary: s)
  case 0
  then show ?case by (intro exI [of _ 0]) (simp add: drain_keep)
next
  case (Suc n)
  show ?case
  proof (cases "keep s")
    case True
    then show ?thesis by (intro exI [of _ 0]) (simp add: drain_keep)
  next
    case False
    have ne: "fifo s \<noteq> []" using Suc.hyps(2) by auto
    have n: "n = length (fifo (pop1 s))" using Suc.hyps(2) by (simp add: fifo_pop)
    obtain k where "k \<le> length (fifo (pop1 s))"
      "fifo (fst (drain (pop1 s))) = drop k (fifo (pop1 s))"
      "shadow (fst (drain (pop1 s))) = drop k (shadow (pop1 s))"
      "list_all2 R (take k (fifo (pop1 s))) (snd (drain (pop1 s)))"
      using Suc.hyps(1) [OF n inv [OF Suc.prems ne False]] by blast
    moreover obtain e where "report s = [e]" "R (hd (fifo s)) e"
      using rep [OF Suc.prems ne False] by blast
    ultimately show ?thesis
      using ne by (intro exI [of _ "Suc k"])
        (cases "fifo s"; simp add: drain_pop [OF ne False] fifo_pop shadow_pop drop_Suc)
  qed
qed

lemma drain_mirror: "shadow s = map pid (fifo s) \<Longrightarrow> shadow (fst (drain s)) = map pid (fifo (fst (drain s)))"
  by (rule drain_invariant [where P = "\<lambda>s. shadow s = map pid (fifo s)"])
    (simp_all add: fifo_pop shadow_pop map_tl)

end

end
