(* ===== verification/Udsp_Rx_Stream.thy ===== *)
theory Udsp_Rx_Stream
  imports Udsp_Wire Udsp_Fifo
begin

text \<open>
  The receive side of one stream: \<open>RxPacket\<close> and \<open>RxStream\<close> of \<open>Impl.hpp\<close> with all
  their operations, and \<open>Connection::processRxFifo\<close> of \<open>Stream.cpp\<close>, which drains the
  reorder queue and calls the application back. A \<open>std::deque\<close> is a list, a reference to
  an element is its index, a null pointer is \<open>None\<close>. The application's callbacks are events
  in the order in which they are made; asserts are those of a release build.
\<close>

subsection \<open>Callbacks into the application\<close>

text \<open>The arguments of \<open>onDelivered\<close> and \<open>onReceived\<close> (the connection apart).\<close>

datatype event =
    Delivered (ev_context: u64) (ev_bytes: bytes) (ev_size: u64) (ev_stream: u8) (ev_status: char)
  | Received (ev_context: u64) (ev_data: "bytes option") (ev_size: u64) (ev_offset: u64)
      (ev_stream: u8) (ev_status: char)

text \<open>\<open>onReceived\<close> returns the packet's next context; an empty \<open>std::function\<close> is
  \<open>None\<close>.\<close>

type_synonym on_received = "u64 \<Rightarrow> bytes option \<Rightarrow> u64 \<Rightarrow> u64 \<Rightarrow> u8 \<Rightarrow> char \<Rightarrow> u64"

definition notify_received :: "on_received option \<Rightarrow> event \<Rightarrow> event list" where
  "notify_received onReceived e = (if onReceived = None then [] else [e])"

subsection \<open>RxPacket and RxStream\<close>

record RxPacket =
  rp_copy :: bytes
  rp_size_B :: u64
  rp_offset_B :: u64
  rp_sizeRepeat_B :: u64
  rp_offsetRepeat_B :: u64
  rp_timeout_us :: tick
  rp_datagramId :: u64
  rp_context :: u64
  rp_crc32 :: u32
  rp_id :: u32
  rp_isReliable :: bool
  rp_isReceived :: bool

definition RxPacket_init :: RxPacket where
  "RxPacket_init = \<lparr>rp_copy = [], rp_size_B = 0, rp_offset_B = 0, rp_sizeRepeat_B = 0,
     rp_offsetRepeat_B = UINT64_MAX, rp_timeout_us = 0, rp_datagramId = UINT64_MAX,
     rp_context = 0, rp_crc32 = 0, rp_id = 0, rp_isReliable = False, rp_isReceived = False\<rparr>"

definition needToSendRepeatInfo :: "RxPacket \<Rightarrow> bool" where
  "needToSendRepeatInfo p \<longleftrightarrow> rp_isReliable p \<and> rp_offsetRepeat_B p \<noteq> UINT64_MAX"

record RxStream =
  rs_fifo :: "RxPacket list"
  rs_fifoShadow :: "u32 list"
  rs_timeout_us :: tick
  rs_packetIdx :: u64
  rs_frontPacketId :: u32
  rs_debugPacketId :: u32
  rs_id :: u8
  rs_isNew :: bool
  rs_isReliable :: bool

definition RxStream_init :: RxStream where
  "RxStream_init = \<lparr>rs_fifo = [], rs_fifoShadow = [], rs_timeout_us = 0,
     rs_packetIdx = UINT64_MAX, rs_frontPacketId = 0, rs_debugPacketId = UINT32_MAX, rs_id = 0,
     rs_isNew = True, rs_isReliable = False\<rparr>"

text \<open>\<open>UINT32_MAX / 4\<close> and \<open>UINT32_MAX / 4 * 3\<close>.\<close>

abbreviation quarter :: u32 where "quarter \<equiv> 0x3FFFFFFF"
abbreviation quarter3 :: u32 where "quarter3 \<equiv> 0xBFFFFFFD"

lemma quarter_values: "UINT32_MAX div 4 = quarter" "UINT32_MAX div 4 * 3 = quarter3"
  by simp_all

text \<open>Both halves of \<open>updateFrontPacketId\<close> move the front to a candidate that is larger, or
  that lies in the first quarter while the front is in the last one.\<close>

definition advance_front :: "u32 \<Rightarrow> RxStream \<Rightarrow> RxStream" where
  "advance_front cand s =
     (if rs_frontPacketId s < cand then s\<lparr>rs_frontPacketId := cand\<rparr>
      else if cand < quarter \<and> quarter3 < rs_frontPacketId s then s\<lparr>rs_frontPacketId := cand\<rparr>
      else s)"

definition updateFrontPacketId :: "bool \<Rightarrow> u32 \<Rightarrow> RxStream \<Rightarrow> RxStream" where
  "updateFrontPacketId isFront packetId s =
     (let s = (if rs_fifoShadow s \<noteq> [] then advance_front (hd (rs_fifoShadow s)) s else s)
      in if \<not> isFront then s else advance_front packetId s)"

definition isReceivedBefore :: "u32 \<Rightarrow> RxStream \<Rightarrow> bool" where
  "isReceivedBefore packetId s =
     (if packetId < rs_frontPacketId s then rs_frontPacketId s - packetId \<le> quarter
      else quarter3 \<le> packetId - rs_frontPacketId s)"

text \<open>The block that \<open>emplace\<close> repeats: a default packet appended and filled in.\<close>

definition new_packet :: "tick \<Rightarrow> bool \<Rightarrow> u32 \<Rightarrow> RxPacket" where
  "new_packet now_us isReliable i = RxPacket_init\<lparr>rp_id := i, rp_isReliable := isReliable,
     rp_timeout_us := now_us + 50 * 1000\<rparr>"

definition push_packet :: "tick \<Rightarrow> u32 \<Rightarrow> RxStream \<Rightarrow> RxStream" where
  "push_packet now_us i s = s\<lparr>rs_fifo := rs_fifo s @ [new_packet now_us (rs_isReliable s) i],
     rs_fifoShadow := rs_fifoShadow s @ [i]\<rparr>"

text \<open>The \<open>while\<close> loop of \<open>emplace\<close>; \<open>True\<close> when it returns from inside the loop.\<close>

function emplace_up :: "tick \<Rightarrow> u32 \<Rightarrow> RxStream \<Rightarrow> bool \<times> RxStream" where
  "emplace_up now_us packetId s =
     (if last (rs_fifoShadow s) < packetId
      then let idNew = last (rs_fifoShadow s); s = push_packet now_us (idNew + 1) s
           in if last (rs_fifoShadow s) = packetId then (True, s) else emplace_up now_us packetId s
      else (False, s))"
  by pat_completeness auto
termination
proof (relation "measure (\<lambda>(now_us, packetId, s). unat packetId - unat (last (rs_fifoShadow s)))",
    goal_cases)
  case 1
  then show ?case by simp
next
  case (2 now_us packetId s idNew s')
  then have "unat (last (rs_fifoShadow s)) < unat packetId" "last (rs_fifoShadow s') = idNew + 1"
    by (simp_all add: word_less_nat_alt push_packet_def)
  moreover have "unat (last (rs_fifoShadow s) + 1) = Suc (unat (last (rs_fifoShadow s)))"
    using 2 by (intro unat_plus_1)
  ultimately show ?case using 2 by simp
qed

declare emplace_up.simps [simp del]

text \<open>\<open>emplace\<close> returns a pointer to the packet it appends last, or null when it appends
  none. A \<open>for\<close> loop over identifiers is a fold over its range.\<close>

definition emplace :: "tick \<Rightarrow> u32 \<Rightarrow> RxStream \<Rightarrow> nat option \<times> RxStream" where
  "emplace now_us packetId s =
     (if rs_fifoShadow s = [] then
        (let s = push_packet now_us packetId s in (Some (length (rs_fifo s) - 1), s))
      else let (returned, s) = emplace_up now_us packetId s in
        if returned then (Some (length (rs_fifo s) - 1), s)
        else let back = last (rs_fifoShadow s) in
          if quarter3 \<le> back \<and> packetId < quarter \<and> quarter < back - packetId then
            (let s = fold (push_packet now_us) (map of_nat [unat back ..< 2 ^ 32]) s;
                 s = fold (push_packet now_us) (map of_nat [0 ..< Suc (unat packetId)]) s
             in (Some (length (rs_fifo s) - 1), s))
          else (None, s))"

text \<open>\<open>get\<close> returns a reference into the queue: its index.\<close>

definition get_packet :: "tick \<Rightarrow> u32 \<Rightarrow> RxStream \<Rightarrow> nat \<times> RxStream" where
  "get_packet now_us packetId s =
     (let s = (if rs_frontPacketId s < packetId then snd (emplace now_us (rs_frontPacketId s) s)
               else if packetId < quarter \<and> quarter3 < rs_frontPacketId s
                 then snd (emplace now_us (rs_frontPacketId s) s)
               else s);
          (packet, s) = emplace now_us packetId s
      in case packet of
           Some i \<Rightarrow> (i, s)
         | None \<Rightarrow>
             if last (rs_fifoShadow s) = packetId then (length (rs_fifo s) - 1, s)
             else case find (\<lambda>i. rs_fifoShadow s ! i = packetId)
                         (rev [0 ..< length (rs_fifoShadow s)]) of
                    Some i \<Rightarrow> (i, s)
                  | None \<Rightarrow> (0, s))"

text \<open>\<open>RxStream::next\<close>; it must not be called on an empty queue.\<close>

definition rx_next :: "RxStream \<Rightarrow> (nat \<times> RxStream) option" where
  "rx_next s =
     (if rs_fifo s = [] then None
      else let i = rs_packetIdx s + 1; i = (if length (rs_fifo s) \<le> unat i then 0 else i)
           in Some (unat i, s\<lparr>rs_packetIdx := i\<rparr>))"

definition pop_front_rx :: "RxStream \<Rightarrow> RxStream" where
  "pop_front_rx s = s\<lparr>rs_fifo := tl (rs_fifo s), rs_fifoShadow := tl (rs_fifoShadow s),
     rs_packetIdx := (if 0 < rs_packetIdx s then rs_packetIdx s - 1 else rs_packetIdx s)\<rparr>"

subsection \<open>processRxFifo\<close>

text \<open>What the loop of \<open>processRxFifo\<close> does with the packet at the front: nothing, or report
  it and remove it.\<close>

datatype rx_verdict = Keep | Deliver | Behind | Expired

definition rx_verdict :: "tick \<Rightarrow> u32 \<Rightarrow> RxPacket \<Rightarrow> rx_verdict" where
  "rx_verdict now_us frontPacketId p =
     (if rp_isReceived p then Deliver
      else if rp_id p < frontPacketId then
        (if rp_id p < quarter \<and> quarter3 < frontPacketId then Keep else Behind)
      else if rp_timeout_us p \<le> now_us then Expired
      else Keep)"

definition rx_report :: "u8 \<Rightarrow> RxPacket \<Rightarrow> rx_verdict \<Rightarrow> event" where
  "rx_report streamId p v =
     (case v of
        Deliver \<Rightarrow> Received (rp_context p) (if rp_copy p = [] then None else Some (rp_copy p))
                     (rp_size_B p) 0 streamId CHR ''s''
      | Expired \<Rightarrow> Received (rp_context p) None (rp_size_B p) (rp_offset_B p) streamId CHR ''t''
      | _ \<Rightarrow> Received (rp_context p) None (rp_size_B p) 0 streamId CHR ''t'')"

text \<open>The tail of the loop body: the front moves past the packet, which is removed.\<close>

definition rx_remove :: "tick \<Rightarrow> RxPacket \<Rightarrow> RxStream \<Rightarrow> RxStream" where
  "rx_remove now_us p s =
     pop_front_rx (updateFrontPacketId True (rp_id p + 1)
       (if rx_verdict now_us (rs_frontPacketId s) p = Deliver
        then s\<lparr>rs_debugPacketId := rp_id p\<rparr> else s))"

function processRxFifo :: "on_received option \<Rightarrow> tick \<Rightarrow> RxStream \<Rightarrow> RxStream \<times> event list" where
  "processRxFifo onReceived now_us s =
     (case rs_fifo s of
        [] \<Rightarrow> (s, [])
      | p # _ \<Rightarrow>
          (let v = rx_verdict now_us (rs_frontPacketId s) p in
           if v = Keep then (s, [])
           else let (s', evs) = processRxFifo onReceived now_us (rx_remove now_us p s)
                in (s', notify_received onReceived (rx_report (rs_id s) p v) @ evs)))"
  by pat_completeness auto
termination
  by (relation "measure (\<lambda>(onReceived, now_us, s). length (rs_fifo s))")
    (auto simp: rx_remove_def pop_front_rx_def updateFrontPacketId_def advance_front_def Let_def)

declare processRxFifo.simps [simp del]

subsection \<open>Frame facts\<close>

lemma new_packet_simps [simp]:
  "rp_id (new_packet now r i) = i" "rp_isReceived (new_packet now r i) = False"
  "rp_size_B (new_packet now r i) = 0" "rp_copy (new_packet now r i) = []"
  "rp_offset_B (new_packet now r i) = 0" "rp_context (new_packet now r i) = 0"
  "rp_isReliable (new_packet now r i) = r" "rp_timeout_us (new_packet now r i) = now + 50000"
  by (simp_all add: new_packet_def RxPacket_init_def)

lemma push_packet_simps [simp]:
  "rs_fifoShadow (push_packet now i s) = rs_fifoShadow s @ [i]"
  "rs_fifo (push_packet now i s) = rs_fifo s @ [new_packet now (rs_isReliable s) i]"
  "rs_frontPacketId (push_packet now i s) = rs_frontPacketId s"
  "rs_isReliable (push_packet now i s) = rs_isReliable s"
  "rs_id (push_packet now i s) = rs_id s"
  "rs_isNew (push_packet now i s) = rs_isNew s"
  by (simp_all add: push_packet_def)

lemma fold_push_simps [simp]:
  "rs_fifoShadow (fold (push_packet now) is s) = rs_fifoShadow s @ is"
  "rs_fifo (fold (push_packet now) is s) = rs_fifo s @ map (new_packet now (rs_isReliable s)) is"
  "rs_frontPacketId (fold (push_packet now) is s) = rs_frontPacketId s"
  "rs_isReliable (fold (push_packet now) is s) = rs_isReliable s"
  "rs_id (fold (push_packet now) is s) = rs_id s"
  "rs_isNew (fold (push_packet now) is s) = rs_isNew s"
  by (induction "is" arbitrary: s) simp_all

lemma advance_front_frame [simp]:
  "rs_fifo (advance_front c s) = rs_fifo s" "rs_fifoShadow (advance_front c s) = rs_fifoShadow s"
  "rs_id (advance_front c s) = rs_id s" "rs_packetIdx (advance_front c s) = rs_packetIdx s"
  "rs_isNew (advance_front c s) = rs_isNew s" "rs_isReliable (advance_front c s) = rs_isReliable s"
  by (simp_all add: advance_front_def)

lemma updateFront_frame [simp]:
  "rs_fifo (updateFrontPacketId f i s) = rs_fifo s"
  "rs_fifoShadow (updateFrontPacketId f i s) = rs_fifoShadow s"
  "rs_id (updateFrontPacketId f i s) = rs_id s"
  "rs_packetIdx (updateFrontPacketId f i s) = rs_packetIdx s"
  "rs_isNew (updateFrontPacketId f i s) = rs_isNew s"
  "rs_isReliable (updateFrontPacketId f i s) = rs_isReliable s"
  by (simp_all add: updateFrontPacketId_def Let_def)

lemma pop_front_rx_simps [simp]:
  "rs_fifo (pop_front_rx s) = tl (rs_fifo s)"
  "rs_fifoShadow (pop_front_rx s) = tl (rs_fifoShadow s)"
  "rs_frontPacketId (pop_front_rx s) = rs_frontPacketId s"
  "rs_id (pop_front_rx s) = rs_id s" "rs_isNew (pop_front_rx s) = rs_isNew s"
  "rs_isReliable (pop_front_rx s) = rs_isReliable s"
  by (simp_all add: pop_front_rx_def)

subsection \<open>emplace and get\<close>

lemma emplace_up_eq:
  "emplace_up now packetId s =
     (if last (rs_fifoShadow s) < packetId
      then (True, fold (push_packet now)
              (map of_nat [Suc (unat (last (rs_fifoShadow s))) ..< Suc (unat packetId)]) s)
      else (False, s))"
proof (induction now packetId s rule: emplace_up.induct)
  case (1 now packetId s)
  let ?bk = "last (rs_fifoShadow s)"
  let ?s' = "push_packet now (?bk + 1) s"
  show ?case
  proof (cases "?bk < packetId")
    case False
    then show ?thesis by (simp add: emplace_up.simps)
  next
    case True
    then have suc: "unat (?bk + 1) = Suc (unat ?bk)" by (rule unat_plus_1)
    have range: "[Suc (unat ?bk) ..< Suc (unat packetId)]
        = unat (?bk + 1) # [Suc (unat (?bk + 1)) ..< Suc (unat packetId)]"
      using True suc by (simp add: upt_conv_Cons word_less_nat_alt)
    have step: "emplace_up now packetId s =
        (if ?bk + 1 = packetId then (True, ?s') else emplace_up now packetId ?s')"
      using True by (subst emplace_up.simps) (simp add: Let_def)
    show ?thesis
    proof (cases "?bk + 1 = packetId")
      case eq: True
      then show ?thesis
        using True by (simp add: step range del: upt_Suc)
    next
      case False
      with True suc have "?bk + 1 < packetId"
        by (simp add: word_less_nat_alt word_unat_eq_iff)
      with "1" [OF True refl refl] True False show ?thesis
        by (simp add: step range del: upt_Suc)
    qed
  qed
qed


text \<open>The queue holds the identifiers \<open>a, \<dots>, b - 1\<close> and the shadow queue mirrors it.\<close>

definition rx_range :: "RxStream \<Rightarrow> nat \<Rightarrow> nat \<Rightarrow> bool" where
  "rx_range s a b \<longleftrightarrow> a \<le> b \<and> b \<le> 2 ^ 32 \<and> rs_fifoShadow s = map of_nat [a ..< b]
     \<and> map rp_id (rs_fifo s) = rs_fifoShadow s"

lemma rx_range_length: "rx_range s a b \<Longrightarrow> length (rs_fifo s) = b - a"
  unfolding rx_range_def by (metis length_map length_upt)

lemma rx_range_empty: "rx_range s a b \<Longrightarrow> rs_fifoShadow s = [] \<longleftrightarrow> a = b"
  by (auto simp: rx_range_def)

lemma unat_of_nat_u32: "n < 2 ^ 32 \<Longrightarrow> unat (of_nat n :: u32) = n"
  by (simp add: unat_of_nat_small)

lemma rx_range_last:
  "rx_range s a b \<Longrightarrow> a < b \<Longrightarrow> unat (last (rs_fifoShadow s)) = b - 1"
  using unat_of_nat_u32 [of "b - 1"] by (auto simp: rx_range_def last_map simp del: of_nat_diff)

lemma rx_range_shadow:
  "rx_range s a b \<Longrightarrow> j < b - a \<Longrightarrow> unat (rs_fifoShadow s ! j) = a + j"
  using unat_of_nat_u32 [of "a + j"] by (auto simp: rx_range_def simp del: of_nat_add)

lemma rx_range_nth:
  "rx_range s a b \<Longrightarrow> i < b - a \<Longrightarrow> rp_id (rs_fifo s ! i) = of_nat (a + i)"
  by (metis rx_range_def rx_range_length nth_map nth_upt length_upt less_diff_conv add.commute)

lemma rx_range_push:
  assumes "rx_range s a b" "b \<le> n" "n \<le> 2 ^ 32"
  shows "rx_range (fold (push_packet now) (map of_nat [b ..< n]) s) a n"
proof -
  have "[a ..< n] = [a ..< b] @ [b ..< n]"
    using assms by (metis le_add_diff_inverse rx_range_def upt_add_eq_append)
  with assms show ?thesis by (simp add: rx_range_def comp_def)
qed

lemma quarter_disjoint [simp]: "(p < quarter \<and> quarter3 < p) = False"
  by (simp add: word_less_nat_alt)

lemma emplace_extend:
  assumes "rx_range s a b" "a < b" "b \<le> unat packetId"
  shows "emplace now packetId s = (Some (unat packetId - a),
     fold (push_packet now) (map of_nat [b ..< Suc (unat packetId)]) s)"
proof -
  have last: "unat (last (rs_fifoShadow s)) = b - 1" using assms by (intro rx_range_last)
  then have "last (rs_fifoShadow s) < packetId" using assms by (simp add: word_less_nat_alt)
  moreover have "rs_fifoShadow s \<noteq> []" using assms by (simp add: rx_range_empty)
  ultimately show ?thesis
    using assms rx_range_length [OF assms(1)]
    by (simp add: emplace_def emplace_up_eq last del: upt_Suc)
qed

lemma emplace_present:
  assumes "rx_range s a b" "a \<le> unat packetId" "unat packetId < b" "b - a \<le> 2 ^ 30"
  shows "emplace now packetId s = (None, s)"
proof -
  let ?bk = "last (rs_fifoShadow s)"
  have last: "unat ?bk = b - 1" using rx_range_last [OF assms(1)] assms by simp
  then have "packetId \<le> ?bk" using assms by (simp add: word_le_nat_alt)
  then have "unat (?bk - packetId) = b - 1 - unat packetId"
    by (simp add: unat_sub last)
  then have "\<not> quarter < ?bk - packetId" using assms by (simp add: word_less_nat_alt)
  moreover have "rs_fifoShadow s \<noteq> []" using assms by (simp add: rx_range_empty)
  ultimately show ?thesis
    using \<open>packetId \<le> ?bk\<close> by (simp add: emplace_def emplace_up_eq)
qed

lemma emplace_empty:
  "rs_fifoShadow s = [] \<Longrightarrow> rs_fifo s = [] \<Longrightarrow>
   emplace now packetId s = (Some 0, push_packet now packetId s)"
  by (simp add: emplace_def)

lemma find_rev_unique:
  assumes "i < n" "\<And>j. j < n \<Longrightarrow> P j \<longleftrightarrow> j = i"
  shows "find P (rev [0 ..< n]) = Some i"
proof -
  have "find P (rev [0 ..< n]) \<noteq> None"
    using assms by (auto simp: find_None_iff)
  then obtain j where j: "find P (rev [0 ..< n]) = Some j" by blast
  then have "P j" "j < n" by (auto simp: find_Some_iff rev_nth)
  with assms j show ?thesis by simp
qed

lemma get_packet_present:
  assumes "rx_range s a b" "a \<le> unat packetId" "unat packetId < b" "b - a \<le> 2 ^ 30"
    "a \<le> unat (rs_frontPacketId s)" "rs_frontPacketId s \<le> packetId"
  shows "get_packet now packetId s = (unat packetId - a, s)"
proof -
  let ?F = "rs_frontPacketId s"
  have F: "unat ?F \<le> unat packetId" using assms by (simp add: word_le_nat_alt)
  have "emplace now ?F s = (None, s)"
    using assms F by (intro emplace_present) auto
  moreover have "emplace now packetId s = (None, s)"
    using assms by (intro emplace_present)
  moreover have "last (rs_fifoShadow s) = packetId \<longleftrightarrow> unat packetId = b - 1"
    using rx_range_last [OF assms(1)] assms by (auto simp: word_unat_eq_iff)
  moreover have "find (\<lambda>i. rs_fifoShadow s ! i = packetId) (rev [0 ..< b - a])
      = Some (unat packetId - a)"
    using assms by (intro find_rev_unique) (auto simp: word_unat_eq_iff rx_range_shadow)
  moreover have "length (rs_fifoShadow s) = b - a"
    using assms(1) by (simp add: rx_range_def)
  ultimately show ?thesis
    using assms rx_range_length [OF assms(1)] by (auto simp: get_packet_def Let_def)
qed

lemma get_packet_extend:
  assumes "rx_range s a b" "a < b" "b - a \<le> 2 ^ 30" "a \<le> unat (rs_frontPacketId s)"
    "rs_frontPacketId s \<le> packetId" "b \<le> unat packetId"
  shows "get_packet now packetId s = (unat packetId - a,
     fold (push_packet now) (map of_nat [b ..< Suc (unat packetId)]) s)"
proof -
  let ?F = "rs_frontPacketId s"
  have F: "unat ?F \<le> unat packetId" using assms by (simp add: word_le_nat_alt)
  have last: "emplace now packetId s = (Some (unat packetId - a),
     fold (push_packet now) (map of_nat [b ..< Suc (unat packetId)]) s)"
    using assms by (intro emplace_extend)
  consider "?F = packetId" | "?F < packetId" "unat ?F < b" | "?F < packetId" "b \<le> unat ?F"
    using assms(5) by fastforce
  then show ?thesis
  proof cases
    case 1
    then show ?thesis using last by (simp add: get_packet_def)
  next
    case 2
    then have "emplace now ?F s = (None, s)" using assms by (intro emplace_present) auto
    with 2 last show ?thesis by (simp add: get_packet_def)
  next
    case 3
    define s1 where "s1 = fold (push_packet now) (map of_nat [b ..< Suc (unat ?F)]) s"
    have e1: "emplace now ?F s = (Some (unat ?F - a), s1)"
      unfolding s1_def using assms 3 by (intro emplace_extend)
    have "unat ?F < unat packetId" using 3 by (simp add: word_less_nat_alt)
    moreover have "rx_range s1 a (Suc (unat ?F))"
      unfolding s1_def using assms 3 by (intro rx_range_push) auto
    ultimately have e2: "emplace now packetId s1 = (Some (unat packetId - a),
       fold (push_packet now) (map of_nat [Suc (unat ?F) ..< Suc (unat packetId)]) s1)"
      using assms 3 by (intro emplace_extend) auto
    have "[b ..< Suc (unat packetId)] = [b ..< Suc (unat ?F)] @ [Suc (unat ?F) ..< Suc (unat packetId)]"
      using 3 F by (metis Suc_le_mono le_SucI le_add_diff_inverse upt_add_eq_append)
    then have "fold (push_packet now) (map of_nat [Suc (unat ?F) ..< Suc (unat packetId)]) s1
      = fold (push_packet now) (map of_nat [b ..< Suc (unat packetId)]) s"
      by (simp add: s1_def del: upt_Suc)
    with 3 e1 e2 show ?thesis by (simp add: get_packet_def)
  qed
qed

lemma get_packet_empty:
  assumes "rs_fifoShadow s = []" "rs_fifo s = []" "rs_frontPacketId s \<le> packetId"
  shows "get_packet now packetId s = (unat packetId - unat (rs_frontPacketId s),
     fold (push_packet now) (map of_nat [unat (rs_frontPacketId s) ..< Suc (unat packetId)]) s)"
proof (cases "rs_frontPacketId s = packetId")
  case True
  then show ?thesis using assms by (simp add: get_packet_def emplace_empty)
next
  case False
  let ?F = "rs_frontPacketId s"
  define s1 where "s1 = push_packet now ?F s"
  have lt: "?F < packetId" using False assms(3) by simp
  then have nlt: "unat ?F < unat packetId" by (simp add: word_less_nat_alt)
  have r: "rx_range s1 (unat ?F) (Suc (unat ?F))"
    using assms by (simp add: rx_range_def s1_def)
  have e: "emplace now packetId s1 = (Some (unat packetId - unat ?F),
     fold (push_packet now) (map of_nat [Suc (unat ?F) ..< Suc (unat packetId)]) s1)"
    using r nlt by (intro emplace_extend) auto
  have "[unat ?F ..< Suc (unat packetId)] = unat ?F # [Suc (unat ?F) ..< Suc (unat packetId)]"
    using nlt by (simp add: upt_conv_Cons)
  with lt e show ?thesis
    using assms by (simp add: get_packet_def emplace_empty s1_def del: upt_Suc)
qed

text \<open>\<open>get\<close> on a queue that has not wrapped around: it fills the gap up to the requested
  identifier with fresh packets and returns that packet.\<close>

lemma get_packet_eq:
  assumes "rx_range s a b" "b - a \<le> 2 ^ 30" "rs_frontPacketId s \<le> packetId"
    and "a < b \<Longrightarrow> a \<le> unat (rs_frontPacketId s)"
    and "\<not> a < b \<Longrightarrow> a = unat (rs_frontPacketId s)"
  shows "get_packet now packetId s =
     (unat packetId - a, fold (push_packet now) (map of_nat [b ..< Suc (unat packetId)]) s)"
proof (cases "a < b")
  case True
  then show ?thesis
    using assms get_packet_present [OF assms(1) _ _ assms(2), of packetId now]
      get_packet_extend [OF assms(1) True assms(2), of packetId now]
    by (cases "unat packetId < b") (auto simp: word_le_nat_alt simp del: upt_Suc)
next
  case False
  with assms have "a = b" "rs_fifoShadow s = []" "rs_fifo s = []"
    using rx_range_length [OF assms(1)] by (auto simp: rx_range_def)
  then show ?thesis
    using assms(3,5) get_packet_empty [of s packetId now] by (simp del: upt_Suc)
qed


subsection \<open>Draining the receive queue\<close>

definition rx_keep :: "tick \<Rightarrow> RxStream \<Rightarrow> bool" where
  "rx_keep now_us s \<longleftrightarrow> rx_verdict now_us (rs_frontPacketId s) (hd (rs_fifo s)) = Keep"

definition rx_event :: "RxStream \<Rightarrow> tick \<Rightarrow> event" where
  "rx_event s now_us = rx_report (rs_id s) (hd (rs_fifo s))
     (rx_verdict now_us (rs_frontPacketId s) (hd (rs_fifo s)))"

lemma rx_remove_simps [simp]:
  "rs_fifo (rx_remove now p s) = tl (rs_fifo s)"
  "rs_fifoShadow (rx_remove now p s) = tl (rs_fifoShadow s)"
  "rs_id (rx_remove now p s) = rs_id s" "rs_isNew (rx_remove now p s) = rs_isNew s"
  "rs_isReliable (rx_remove now p s) = rs_isReliable s"
  by (simp_all add: rx_remove_def)

interpretation rx_drain: fifo_drain rs_fifo rs_fifoShadow "rx_keep now_us"
  "\<lambda>s. rx_remove now_us (hd (rs_fifo s)) s"
  "\<lambda>s. notify_received onReceived (rx_event s now_us)"
  "processRxFifo onReceived now_us" for onReceived now_us
proof unfold_locales
  fix s
  show "rs_fifo s = [] \<or> rx_keep now_us s \<Longrightarrow> processRxFifo onReceived now_us s = (s, [])"
    by (subst processRxFifo.simps) (auto simp: rx_keep_def split: list.split)
  show "rs_fifo s \<noteq> [] \<Longrightarrow> \<not> rx_keep now_us s \<Longrightarrow>
    processRxFifo onReceived now_us s =
      (fst (processRxFifo onReceived now_us (rx_remove now_us (hd (rs_fifo s)) s)),
       notify_received onReceived (rx_event s now_us)
       @ snd (processRxFifo onReceived now_us (rx_remove now_us (hd (rs_fifo s)) s)))"
    by (subst processRxFifo.simps)
      (auto simp: rx_keep_def rx_event_def Let_def split: list.split prod.split)
qed simp_all

text \<open>What the application is told about a packet that leaves the queue.\<close>

definition rx_reported :: "u8 \<Rightarrow> RxPacket \<Rightarrow> event \<Rightarrow> bool" where
  "rx_reported streamId p e \<longleftrightarrow>
     (if rp_isReceived p
      then e = Received (rp_context p) (if rp_copy p = [] then None else Some (rp_copy p))
                 (rp_size_B p) 0 streamId CHR ''s''
      else e \<in> {Received (rp_context p) None (rp_size_B p) off streamId CHR ''t'' | off.
                  off = 0 \<or> off = rp_offset_B p})"

lemma rx_event_reported:
  "\<not> rx_keep now_us s \<Longrightarrow> rs_id s = i \<Longrightarrow> rx_reported i (hd (rs_fifo s)) (rx_event s now_us)"
  by (auto simp: rx_keep_def rx_reported_def rx_event_def rx_report_def rx_verdict_def)

text \<open>
  C17. \<open>processRxFifo\<close> removes a prefix of the queue and calls the application once
  per removed packet, in queue order: a received packet is reported with status \<open>s\<close>, its
  size and its stored bytes, any other one with status \<open>t\<close> and no data.
\<close>

theorem processRxFifo_in_order:
  "\<exists>k \<le> length (rs_fifo s).
     rs_fifo (fst (processRxFifo (Some f) now_us s)) = drop k (rs_fifo s)
     \<and> rs_fifoShadow (fst (processRxFifo (Some f) now_us s)) = drop k (rs_fifoShadow s)
     \<and> list_all2 (rx_reported (rs_id s)) (take k (rs_fifo s)) (snd (processRxFifo (Some f) now_us s))"
  by (rule rx_drain.drain_relates [where I = "\<lambda>t. rs_id t = rs_id s"])
    (simp_all add: notify_received_def rx_event_reported)

text \<open>A removed packet was the first of the queue: the front moves just past it.\<close>

lemma front_past:
  assumes "unat (rs_frontPacketId s) \<le> a" "a < 2 ^ 32" "rs_fifoShadow s \<noteq> []" "hd (rs_fifoShadow s) = of_nat a"
  shows "rs_frontPacketId (updateFrontPacketId True (of_nat a + 1) s) = of_nat (Suc a)"
proof -
  have a: "unat (of_nat a :: u32) = a" using assms(2) by (rule unat_of_nat_u32)
  have "rs_frontPacketId s < of_nat a \<or> rs_frontPacketId s = of_nat a"
    using assms(1) a by (auto simp: word_less_nat_alt word_unat_eq_iff)
  then have t: "rs_frontPacketId (advance_front (of_nat a) s) = of_nat a" by (auto simp: advance_front_def)
  have "(of_nat a :: u32) < of_nat a + 1 \<or> (of_nat a + 1 :: u32) = 0 \<and> quarter3 < (of_nat a :: u32)"
  proof (cases "a = 2 ^ 32 - 1")
    case True
    then show ?thesis by simp
  next
    case False
    then have "unat (of_nat (Suc a) :: u32) = Suc a" using assms(2) by (intro unat_of_nat_u32) simp
    then show ?thesis using a by (simp add: word_less_nat_alt add.commute)
  qed
  then have "rs_frontPacketId (advance_front (of_nat a + 1) (advance_front (of_nat a) s)) = of_nat a + 1"
    by (auto simp: advance_front_def [of "of_nat a + 1"] t)
  then show ?thesis using assms(3,4) by (simp add: updateFrontPacketId_def add.commute)
qed

lemma processRxFifo_Nil: "rs_fifo s = [] \<Longrightarrow> processRxFifo onReceived now s = (s, [])"
  by (subst processRxFifo.simps) simp

lemma processRxFifo_Cons:
  "rs_fifo s = p # ps \<Longrightarrow> processRxFifo onReceived now s =
     (let v = rx_verdict now (rs_frontPacketId s) p in
      if v = Keep then (s, [])
      else let (s', evs) = processRxFifo onReceived now (rx_remove now p s)
           in (s', notify_received onReceived (rx_report (rs_id s) p v) @ evs))"
  by (subst processRxFifo.simps) simp

text \<open>
  C27. On a queue whose identifiers \<open>a, \<dots>, b - 1\<close> have not wrapped around and are not behind the front,
  \<open>processRxFifo\<close> removes exactly the longest prefix of packets that are received or have timed out. It reports
  each of them, in order: a received one with its bytes, any other one as timed out with its size and
  offset. The front moves just past the last one removed, and the rest of the queue is unchanged.
\<close>

theorem processRxFifo_longest_prefix:
  assumes "rx_range s a b" "unat (rs_frontPacketId s) \<le> a"
  shows "let gone = takeWhile (\<lambda>p. rp_isReceived p \<or> rp_timeout_us p \<le> now_us) (rs_fifo s);
       (s', evs) = processRxFifo (Some f) now_us s in
     rs_fifo s' = drop (length gone) (rs_fifo s) \<and> rs_fifoShadow s' = drop (length gone) (rs_fifoShadow s)
     \<and> rs_frontPacketId s' = (if gone = [] then rs_frontPacketId s else of_nat (a + length gone))
     \<and> evs = map (\<lambda>p. if rp_isReceived p
         then Received (rp_context p) (if rp_copy p = [] then None else Some (rp_copy p)) (rp_size_B p) 0 (rs_id s) CHR ''s''
         else Received (rp_context p) None (rp_size_B p) (rp_offset_B p) (rs_id s) CHR ''t'') gone"
  using assms
proof (induction "rs_fifo s" arbitrary: s a)
  case Nil
  then show ?case by (simp add: processRxFifo_Nil)
next
  case (Cons p ps)
  have ab: "a < b" "b \<le> 2 ^ 32"
    using arg_cong [OF Cons.hyps(2), of length] rx_range_length [OF Cons.prems(1)] Cons.prems(1) by (simp_all add: rx_range_def)
  have shadow: "rs_fifoShadow s = of_nat a # map of_nat [Suc a ..< b]" and id: "rp_id p = of_nat a"
    using Cons.prems(1) Cons.hyps(2) ab by (auto simp: rx_range_def upt_conv_Cons)
  have near: "\<not> rp_id p < rs_frontPacketId s"
    using Cons.prems(2) ab unat_of_nat_u32 [of a] by (simp add: id word_less_nat_alt)
  show ?case
  proof (cases "rp_isReceived p \<or> rp_timeout_us p \<le> now_us")
    case False
    then show ?thesis
      using Cons.hyps(2) near by (simp add: processRxFifo_Cons [OF Cons.hyps(2) [symmetric]] rx_verdict_def Cons.hyps(2) [symmetric])
  next
    case True
    define t where "t = rx_remove now_us p s"
    have t: "rs_fifo t = ps" "rs_fifoShadow t = map of_nat [Suc a ..< b]" "rs_id t = rs_id s"
      using Cons.hyps(2) [symmetric] shadow by (simp_all add: t_def)
    have front: "rs_frontPacketId t = of_nat (Suc a)"
      using front_past [of s a] front_past [of "s\<lparr>rs_debugPacketId := rp_id p\<rparr>" a] Cons.prems(2) ab shadow
      by (simp add: t_def rx_remove_def id)
    have r: "rx_range t (Suc a) b" using Cons.prems(1) Cons.hyps(2) t ab by (auto simp: rx_range_def upt_conv_Cons)
    have "unat (of_nat (Suc a) :: u32) \<le> Suc a" by (simp only: unat_of_nat take_bit_eq_mod mod_less_eq_dividend)
    note IH = Cons.hyps(1) [OF t(1) [symmetric] r, unfolded front, OF this]
    have v: "rx_verdict now_us (rs_frontPacketId s) p = (if rp_isReceived p then Deliver else Expired)"
      using True near by (auto simp: rx_verdict_def)
    show ?thesis
      using IH True Cons.hyps(2) [symmetric] shadow t
      by (auto simp: processRxFifo_Cons [OF Cons.hyps(2) [symmetric]] v t_def [symmetric] notify_received_def rx_report_def Let_def
          split: prod.splits if_splits)
  qed
qed

theorem processRxFifo_longest_prefix_witness:
  "let s = RxStream_init\<lparr>rs_fifo := [(new_packet 0 False 5)\<lparr>rp_isReceived := True, rp_copy := [7], rp_size_B := 1\<rparr>,
         new_packet 0 False 6, new_packet 30 False 7], rs_fifoShadow := [5, 6, 7], rs_frontPacketId := 5, rs_id := 4\<rparr>;
       (s', evs) = processRxFifo (Some (\<lambda>_ _ _ _ _ _. 0)) 50010 s
   in rs_fifo s' = [new_packet 30 False 7] \<and> rs_frontPacketId s' = 7
      \<and> evs = [Received 0 (Some [7]) 1 0 4 CHR ''s'', Received 0 None 0 0 4 CHR ''t'']"
proof -
  let ?s = "RxStream_init\<lparr>rs_fifo := [(new_packet 0 False 5)\<lparr>rp_isReceived := True, rp_copy := [7], rp_size_B := 1\<rparr>,
         new_packet 0 False 6, new_packet 30 False 7], rs_fifoShadow := [5, 6, 7], rs_frontPacketId := 5, rs_id := 4\<rparr>"
  have "rx_range ?s 5 8" by (simp add: rx_range_def upt_rec)
  from processRxFifo_longest_prefix [OF this, of 50010 "\<lambda>_ _ _ _ _ _. 0"] show ?thesis
    by (simp add: Let_def case_prod_unfold)
qed

subsection \<open>Received before\<close>

text \<open>
  C24. A packet counts as received before exactly when it is at most a quarter of the identifier
  space behind the front, in the circular order of 32-bit identifiers (across the wrap-around the
  window is four identifiers longer). The comment in \<open>isReceivedBefore\<close> lists the identifier at 75 per cent of
  the space with the front at 1 per cent as received before; it is 26 per cent behind, and the code says no.
\<close>

theorem isReceivedBefore_window:
  "(isReceivedBefore packetId s \<longleftrightarrow>
     (let d = unat (rs_frontPacketId s - packetId)
      in 0 < d \<and> d < 2 ^ 30 \<or> rs_frontPacketId s < packetId \<and> 2 ^ 30 \<le> d \<and> d \<le> 2 ^ 30 + 3))
   \<and> \<not> isReceivedBefore (of_nat (2 ^ 32 * 75 div 100)) (s\<lparr>rs_frontPacketId := of_nat (2 ^ 32 div 100)\<rparr>)"
proof (intro conjI)
  show "\<not> isReceivedBefore (of_nat (2 ^ 32 * 75 div 100)) (s\<lparr>rs_frontPacketId := of_nat (2 ^ 32 div 100)\<rparr>)"
    by (simp add: isReceivedBefore_def)
next
  let ?F = "rs_frontPacketId s"
  show "isReceivedBefore packetId s \<longleftrightarrow> (let d = unat (?F - packetId)
      in 0 < d \<and> d < 2 ^ 30 \<or> ?F < packetId \<and> 2 ^ 30 \<le> d \<and> d \<le> 2 ^ 30 + 3)"
  proof (cases "packetId < ?F")
    case True
    then have "unat (?F - packetId) = unat ?F - unat packetId" 
      by (simp add: unat_sub word_le_nat_alt word_less_nat_alt)
    with True show ?thesis
      by (auto simp: isReceivedBefore_def word_le_nat_alt word_less_nat_alt Let_def)
  next
    case False
    then have d1: "unat (packetId - ?F) = unat packetId - unat ?F"
      by (simp add: unat_sub word_le_nat_alt word_less_nat_alt)
    have d2: "unat (?F - packetId) = (if packetId = ?F then 0 else 2 ^ 32 - (unat packetId - unat ?F))"
      using False d1 unat_sub_if' [of ?F packetId]
      by (auto simp: word_le_nat_alt word_less_nat_alt word_unat_eq_iff)
    show ?thesis
      using False unat_u32_less [of packetId] unat_u32_less [of ?F]
      by (simp add: isReceivedBefore_def word_le_nat_alt word_less_nat_alt Let_def d1 d2
          del: unat_u32_less) arith
  qed
qed

text \<open>Identifiers counted on past \<open>2 ^ 32\<close>, where \<open>updateFrontPacketId\<close> compares them as meant: the candidate is
  less than a quarter of the identifier space ahead, or behind in the same lap.\<close>

definition comparable :: "nat \<Rightarrow> nat \<Rightarrow> bool" where
  "comparable F X \<longleftrightarrow> X < F + (2 ^ 30 - 1) \<and> F < X + 2 ^ 30 \<and> (X < F \<longrightarrow> X div 2 ^ 32 = F div 2 ^ 32)"

lemma advance_front_comparable:
  assumes "rs_frontPacketId s = of_nat F" "comparable F X"
  shows "rs_frontPacketId (advance_front (of_nat X) s) = of_nat (max F X)"
proof -
  define f q x r where fq: "f = F mod 2 ^ 32" "q = F div 2 ^ 32" "x = X mod 2 ^ 32" "r = X div 2 ^ 32"
  have F: "F = q * 2 ^ 32 + f" "f < 2 ^ 32" and X: "X = r * 2 ^ 32 + x" "x < 2 ^ 32" by (simp_all add: fq)
  have u: "unat (of_nat F :: u32) = f" "unat (of_nat X :: u32) = x" by (simp_all add: fq unat_of_nat take_bit_eq_mod)
  have "X < F \<Longrightarrow> r = q" using assms(2) by (simp add: comparable_def fq)
  moreover have "F \<le> X \<Longrightarrow> r = q \<or> r = Suc q" using assms(2) F X by (auto simp: comparable_def)
  ultimately consider "X < F" "r = q" | "F \<le> X" "r = q" | "F \<le> X" "r = Suc q" by linarith
  then show ?thesis
  proof cases
    case 1
    then have "x < f" "\<not> (x < 2 ^ 30 - 1 \<and> 3 * 2 ^ 30 - 3 < f)" using assms(2) F X by (auto simp: comparable_def)
    then show ?thesis using 1 u assms(1) by (auto simp: advance_front_def word_less_nat_alt)
  next
    case 2
    then have "f < x \<or> F = X" using F X by auto
    then show ?thesis using 2 u assms(1) by (auto simp: advance_front_def word_less_nat_alt max_def)
  next
    case 3
    then have "x < 2 ^ 30 - 1" "3 * 2 ^ 30 - 3 < f" using assms(2) F X by (auto simp: comparable_def)
    then show ?thesis using 3 u assms(1) by (simp add: advance_front_def word_less_nat_alt)
  qed
qed



subsection \<open>The queue invariant\<close>

definition rx_mirrored :: "RxStream \<Rightarrow> bool" where
  "rx_mirrored s \<longleftrightarrow> rs_fifoShadow s = map rp_id (rs_fifo s)"

lemma rx_mirrored_push [rx_inv_intros]: "rx_mirrored s \<Longrightarrow> rx_mirrored (push_packet now i s)"
  by (simp add: rx_mirrored_def)

lemma rx_mirrored_fold_push [rx_inv_intros]:
  "rx_mirrored s \<Longrightarrow> rx_mirrored (fold (push_packet now) is s)"
  by (simp add: rx_mirrored_def comp_def)

lemma emplace_cases:
  obtains "emplace now packetId s = (None, s)" "rs_fifoShadow s \<noteq> []"
  | new where "emplace now packetId s =
      (Some (length (rs_fifo s) + length new), fold (push_packet now) (new @ [packetId]) s)"
proof -
  let ?bk = "last (rs_fifoShadow s)"
  let ?up = "map of_nat [Suc (unat ?bk) ..< unat packetId]"
  let ?wrap = "map of_nat [unat ?bk ..< 2 ^ 32] @ map of_nat [0 ..< unat packetId]"
  consider "rs_fifoShadow s = []" | "rs_fifoShadow s \<noteq> []" "?bk < packetId"
    | "rs_fifoShadow s \<noteq> []" "\<not> ?bk < packetId"
      "quarter3 \<le> ?bk \<and> packetId < quarter \<and> quarter < ?bk - packetId"
    | "rs_fifoShadow s \<noteq> []" "\<not> ?bk < packetId"
      "\<not> (quarter3 \<le> ?bk \<and> packetId < quarter \<and> quarter < ?bk - packetId)"
    by blast
  then show thesis
  proof cases
    case 1
    then show thesis by (intro that(2) [of "[]"]) (simp_all add: emplace_def)
  next
    case 2
    then show thesis
      by (intro that(2) [of ?up]) (simp_all add: emplace_def emplace_up_eq word_less_nat_alt)
  next
    case 3
    then show thesis
      by (intro that(2) [of ?wrap])
        (simp_all add: emplace_def emplace_up_eq Let_def)
  next
    case 4
    then show thesis by (intro that(1)) (simp_all add: emplace_def emplace_up_eq Let_def)
  qed
qed

lemma rx_mirrored_emplace [rx_inv_intros]:
  "rx_mirrored s \<Longrightarrow> rx_mirrored (snd (emplace now packetId s))"
  by (cases rule: emplace_cases [of now packetId s]) (simp_all add: rx_inv_intros)

lemma emplace_index:
  assumes "rx_mirrored s" "emplace now packetId s = (Some i, s')"
  shows "i < length (rs_fifo s') \<and> rp_id (rs_fifo s' ! i) = packetId"
  using assms
  by (cases rule: emplace_cases [of now packetId s])
    (auto simp: nth_append)


lemma emplace_extends:
  "\<exists>new. rs_fifo (snd (emplace now packetId s)) = rs_fifo s @ new"
  by (cases rule: emplace_cases [of now packetId s]) simp_all

lemma emplace_nonempty: "rs_fifoShadow (snd (emplace now packetId s)) \<noteq> []"
  by (cases rule: emplace_cases [of now packetId s]) simp_all

lemma emplace_front [simp]:
  "rs_frontPacketId (snd (emplace now packetId s)) = rs_frontPacketId s"
  by (cases rule: emplace_cases [of now packetId s]) simp_all

lemma emplace_frame [simp]:
  "rs_id (snd (emplace now packetId s)) = rs_id s"
  "rs_isNew (snd (emplace now packetId s)) = rs_isNew s"
  by (cases rule: emplace_cases [of now packetId s]; simp)+

text \<open>\<open>get\<close> calls \<open>emplace\<close> once or twice and then searches.\<close>

lemma get_packet_split:
  obtains s1 where "s1 = s \<or> s1 = snd (emplace now (rs_frontPacketId s) s)"
    "snd (get_packet now packetId s) = snd (emplace now packetId s1)"
    "\<And>i. fst (emplace now packetId s1) = Some i \<Longrightarrow> fst (get_packet now packetId s) = i"
    "fst (emplace now packetId s1) = None \<Longrightarrow>
       (let sh = rs_fifoShadow (snd (emplace now packetId s1)); i = fst (get_packet now packetId s)
        in (last sh = packetId \<and> i = length (rs_fifo (snd (emplace now packetId s1))) - 1)
           \<or> (i < length sh \<and> sh ! i = packetId)
           \<or> (packetId \<notin> set sh \<and> i = 0))"
proof -
  define s1 where "s1 = (if rs_frontPacketId s < packetId then snd (emplace now (rs_frontPacketId s) s)
     else if packetId < quarter \<and> quarter3 < rs_frontPacketId s
       then snd (emplace now (rs_frontPacketId s) s) else s)"
  have get: "get_packet now packetId s =
    (let (packet, s2) = emplace now packetId s1 in
     case packet of
           Some i \<Rightarrow> (i, s2)
         | None \<Rightarrow>
             if last (rs_fifoShadow s2) = packetId then (length (rs_fifo s2) - 1, s2)
             else case find (\<lambda>i. rs_fifoShadow s2 ! i = packetId)
                         (rev [0 ..< length (rs_fifoShadow s2)]) of
                    Some i \<Rightarrow> (i, s2)
                  | None \<Rightarrow> (0, s2))"
    by (simp only: get_packet_def s1_def Let_def)
  show thesis
  proof (rule that [of s1])
    show "s1 = s \<or> s1 = snd (emplace now (rs_frontPacketId s) s)" by (simp add: s1_def)
  next
    show "snd (get_packet now packetId s) = snd (emplace now packetId s1)"
      by (auto simp: get split: prod.split option.split)
  next
    fix i
    show "fst (emplace now packetId s1) = Some i \<Longrightarrow> fst (get_packet now packetId s) = i"
      by (auto simp: get split: prod.split)
  next
    obtain r s2 where e: "emplace now packetId s1 = (r, s2)" by fastforce
    assume "fst (emplace now packetId s1) = None"
    then show "let sh = rs_fifoShadow (snd (emplace now packetId s1)); i = fst (get_packet now packetId s)
        in (last sh = packetId \<and> i = length (rs_fifo (snd (emplace now packetId s1))) - 1)
           \<or> (i < length sh \<and> sh ! i = packetId)
           \<or> (packetId \<notin> set sh \<and> i = 0)"
      by (auto simp: get e Let_def find_Some_iff find_None_iff rev_nth in_set_conv_nth
          split: option.split)
  qed
qed

lemma get_packet_valid:
  assumes "rx_mirrored s" "get_packet now packetId s = (i, s')"
  shows "i < length (rs_fifo s') \<and> rx_mirrored s' \<and> (\<exists>new. rs_fifo s' = rs_fifo s @ new)
    \<and> (rp_id (rs_fifo s' ! i) = packetId \<or> packetId \<notin> set (map rp_id (rs_fifo s')))"
proof -
  have fs: "fst (get_packet now packetId s) = i" "snd (get_packet now packetId s) = s'"
    using assms(2) by simp_all
  obtain s1 where s1: "s1 = s \<or> s1 = snd (emplace now (rs_frontPacketId s) s)"
    and s': "s' = snd (emplace now packetId s1)"
    and some: "\<And>j. fst (emplace now packetId s1) = Some j \<Longrightarrow> i = j"
    and none: "fst (emplace now packetId s1) = None \<Longrightarrow>
        (last (rs_fifoShadow s') = packetId \<and> i = length (rs_fifo s') - 1)
           \<or> (i < length (rs_fifoShadow s') \<and> rs_fifoShadow s' ! i = packetId)
           \<or> (packetId \<notin> set (rs_fifoShadow s') \<and> i = 0)"
    by (rule get_packet_split [of s now packetId, unfolded fs Let_def]) (rule that; simp only:)
  have m1: "rx_mirrored s1" using s1 assms(1) rx_inv_intros by auto
  then have m: "rx_mirrored s'" unfolding s' by (rule rx_mirrored_emplace)
  have ne: "rs_fifo s' \<noteq> []" using m emplace_nonempty [of now packetId s1] by (auto simp: s' rx_mirrored_def)
  have ext: "\<exists>new. rs_fifo s' = rs_fifo s @ new"
    using s1 emplace_extends [of now packetId s1] emplace_extends [of now "rs_frontPacketId s" s]
    unfolding s' by (metis append.assoc)
  show ?thesis
  proof (cases "fst (emplace now packetId s1)")
    case (Some j)
    then show ?thesis
      using emplace_index [OF m1, of now packetId j s'] some m ext by (simp add: s' prod_eq_iff)
  next
    case None
    have sh: "rs_fifoShadow s' = map rp_id (rs_fifo s')" using m by (simp add: rx_mirrored_def)
    have "i < length (rs_fifo s')
      \<and> (rp_id (rs_fifo s' ! i) = packetId \<or> packetId \<notin> set (map rp_id (rs_fifo s')))"
      using none [OF None] ne unfolding sh by (auto simp: last_map last_conv_nth)
    with m ext show ?thesis by blast
  qed
qed

text \<open>
  C26. For every stream whose shadow queue mirrors its queue and every identifier, \<open>get\<close> returns a valid
  reference, only appends packets, keeps the shadow queue in step, and the packet it returns is the
  requested one unless the queue does not hold it.
\<close>

theorem get_packet_sound:
  assumes "rx_mirrored s" "get_packet now packetId s = (i, s')"
  shows "i < length (rs_fifo s') \<and> rx_mirrored s' \<and> (\<exists>new. rs_fifo s' = rs_fifo s @ new)
    \<and> (rp_id (rs_fifo s' ! i) = packetId \<or> packetId \<notin> set (map rp_id (rs_fifo s')))"
  using assms by (rule get_packet_valid)

theorem get_packet_sound_witness:
  "rx_mirrored RxStream_init
   \<and> fst (get_packet 0 2 RxStream_init) < length (rs_fifo (snd (get_packet 0 2 RxStream_init)))"
proof -
  have m: "rx_mirrored RxStream_init" by (simp add: rx_mirrored_def RxStream_init_def)
  from get_packet_sound [OF m, of 0 2 "fst (get_packet 0 2 RxStream_init)" "snd (get_packet 0 2 RxStream_init)"] m
  show ?thesis by simp
qed

text \<open>
  C39. When \<open>emplace\<close> fills the queue across the wrap-around of the identifiers, it
  appends the identifier at the back of the queue a second time before it goes on.
\<close>

theorem emplace_wrap_duplicates:
  assumes "rs_fifoShadow s \<noteq> []" "back = last (rs_fifoShadow s)"
    and "quarter3 \<le> back" "packetId < quarter" "quarter < back - packetId"
  shows "\<exists>later. rs_fifoShadow (snd (emplace now packetId s)) = rs_fifoShadow s @ back # later"
proof -
  have "\<not> back < packetId" using assms(3,4) by (auto simp: word_less_nat_alt word_le_nat_alt)
  moreover have "[unat back ..< 2 ^ 32] = unat back # [Suc (unat back) ..< 2 ^ 32]"
    by (rule upt_conv_Cons) simp
  ultimately show ?thesis
    using assms by (simp add: emplace_def emplace_up_eq Let_def)
qed

theorem emplace_wrap_duplicates_witness:
  "\<exists>later. rs_fifoShadow (snd (emplace 0 1 (RxStream_init\<lparr>rs_fifoShadow := [UINT32_MAX]\<rparr>)))
     = [UINT32_MAX, UINT32_MAX] @ later"
  using emplace_wrap_duplicates [of "RxStream_init\<lparr>rs_fifoShadow := [UINT32_MAX]\<rparr>" UINT32_MAX 1 0]
  by simp

text \<open>
  C40. On an empty queue a late front chunk from before the wrap-around, which is recognised as received before,
  moves the front back to its identifier and is then no longer recognised.
\<close>

theorem front_moves_back:
  assumes "rs_fifoShadow s = []" "rs_frontPacketId s \<le> packetId" "isReceivedBefore packetId s"
  shows "rs_frontPacketId (updateFrontPacketId True packetId s) = packetId
    \<and> \<not> isReceivedBefore packetId (updateFrontPacketId True packetId s)"
  using assms by (auto simp: updateFrontPacketId_def advance_front_def isReceivedBefore_def not_less)

theorem front_moves_back_witness:
  "isReceivedBefore 0xFFFFFFFE (RxStream_init\<lparr>rs_frontPacketId := 3\<rparr>)
   \<and> rs_frontPacketId (updateFrontPacketId True 0xFFFFFFFE (RxStream_init\<lparr>rs_frontPacketId := 3\<rparr>)) = 0xFFFFFFFE"
proof -
  have r: "isReceivedBefore 0xFFFFFFFE (RxStream_init\<lparr>rs_frontPacketId := 3\<rparr>)"
    by (simp add: isReceivedBefore_def)
  from front_moves_back [OF _ _ r] r show ?thesis by (simp add: RxStream_init_def)
qed

text \<open>
  C25. On a queue that holds the identifiers \<open>a, \<dots>, b - 1\<close>, at most \<open>2 ^ 30\<close>, and has not wrapped around, \<open>get\<close>
  for an identifier at or past the front returns exactly that packet, after appending a fresh
  packet for every identifier that was missing in between, however many; the packets already there keep
  their place and their contents.
\<close>

theorem get_packet_in_window:
  assumes "rx_range s a b" "b - a \<le> 2 ^ 30" "rs_frontPacketId s \<le> packetId"
    and "if a < b then a \<le> unat (rs_frontPacketId s) else a = unat (rs_frontPacketId s)"
  shows "\<exists>s'. get_packet now packetId s = (unat packetId - a, s')
    \<and> rx_range s' a (max b (Suc (unat packetId)))
    \<and> rs_fifo s' = rs_fifo s @ map (new_packet now (rs_isReliable s)) (map of_nat [b ..< Suc (unat packetId)])
    \<and> rp_id (rs_fifo s' ! (unat packetId - a)) = packetId"
proof -
  let ?s' = "fold (push_packet now) (map of_nat [b ..< Suc (unat packetId)]) s"
  have a: "a \<le> unat packetId"
    using assms(3,4) by (auto simp: word_le_nat_alt split: if_splits)
  have range: "rx_range ?s' a (max b (Suc (unat packetId)))"
  proof (cases "b \<le> unat packetId")
    case True
    then show ?thesis using rx_range_push [OF assms(1), of "Suc (unat packetId)" now] by (simp add: max_def)
  next
    case False
    then have "max b (Suc (unat packetId)) = b" by simp
    with False assms(1) show ?thesis by simp
  qed
  then have "rp_id (rs_fifo ?s' ! (unat packetId - a)) = of_nat (a + (unat packetId - a))"
    using a by (intro rx_range_nth) (auto simp: max_def)
  moreover have "get_packet now packetId s = (unat packetId - a, ?s')"
    using assms by (intro get_packet_eq) (auto split: if_splits)
  ultimately show ?thesis
    using range a by (intro exI [of _ ?s']) (simp del: upt_Suc)
qed

theorem get_packet_in_window_witness:
  "\<exists>s'. get_packet 0 9 (RxStream_init\<lparr>rs_frontPacketId := 7\<rparr>) = (2, s')
     \<and> rp_id (rs_fifo s' ! 2) = 9"
proof -
  have r: "rx_range (RxStream_init\<lparr>rs_frontPacketId := 7\<rparr>) 7 7"
    by (simp add: rx_range_def RxStream_init_def)
  obtain s' where "get_packet 0 9 (RxStream_init\<lparr>rs_frontPacketId := 7\<rparr>) = (unat (9 :: u32) - 7, s')"
    "rp_id (rs_fifo s' ! (unat (9 :: u32) - 7)) = 9"
    using get_packet_in_window [OF r, of 9 0] by auto
  then show ?thesis by simp
qed

end
