(* ===== verification/Udsp_Tx_Stream.thy ===== *)
theory Udsp_Tx_Stream
  imports Udsp_Rx_Stream
begin

text \<open>
  The transmit side: \<open>Priority\<close>, \<open>TxPacket\<close>, \<open>TxStream\<close> and \<open>TxStreams\<close> of
  \<open>Impl.hpp\<close>, \<open>Connection::findPacketIdx\<close> of \<open>Connection.cpp\<close>, and of
  \<open>Stream.cpp\<close> the bodies of the commands that \<open>setTxStreamPriority_ts\<close> and
  \<open>send_ts\<close> queue, and \<open>processTxFifo\<close>. A pointer to application or packet memory is
  the byte list it points to. An \<open>unordered_map\<close> is an association list in its iteration
  order; \<open>operator[]\<close> of an absent key adds a default entry.
\<close>

subsection \<open>Data\<close>

datatype Priority = Realtime | High | Medium | Low | NoPriority

record TxPacket =
  tp_copy :: bytes
  tp_pointer :: bytes
  tp_size_B :: u64
  tp_offset_B :: u64
  tp_timeout_us :: tick
  tp_begin_us :: tick
  tp_datagramId :: u64
  tp_context :: u64
  tp_id :: u32
  tp_isReliable :: bool
  tp_isAcknowledged :: bool
  tp_isStarted :: bool

definition TxPacket_init :: TxPacket where
  "TxPacket_init = \<lparr>tp_copy = [], tp_pointer = [], tp_size_B = 0, tp_offset_B = 0,
     tp_timeout_us = 0, tp_begin_us = 0, tp_datagramId = UINT64_MAX, tp_context = 0, tp_id = 0,
     tp_isReliable = False, tp_isAcknowledged = False, tp_isStarted = False\<rparr>"

record TxStream =
  ts_fifoReturnTime_us :: tick
  ts_fifo :: "TxPacket list"
  ts_fifoShadow :: "u32 list"
  ts_packetFifoIdx :: nat
  ts_nextPacketId :: u32
  ts_id :: u8
  ts_priority :: Priority
  ts_isNew :: bool
  ts_isReliable :: bool

definition TxStream_init :: TxStream where
  "TxStream_init = \<lparr>ts_fifoReturnTime_us = 0, ts_fifo = [], ts_fifoShadow = [],
     ts_packetFifoIdx = 0, ts_nextPacketId = 0, ts_id = 0, ts_priority = Medium, ts_isNew = True,
     ts_isReliable = True\<rparr>"

text \<open>\<open>PriorityMeta\<close>: the streams of one priority by their key in the map.\<close>

record PriorityMeta =
  pm_vec :: "u8 list"
  pm_vecIdx :: nat
  pm_countSent_B :: u32

definition PriorityMeta_init :: PriorityMeta where
  "PriorityMeta_init = \<lparr>pm_vec = [], pm_vecIdx = 0, pm_countSent_B = 0\<rparr>"

record TxStreams =
  txs_map :: "(u8 \<times> TxStream) list"
  txs_vec :: "Priority \<Rightarrow> PriorityMeta"
  txs_isStreamsChanged :: bool

definition TxStreams_init :: TxStreams where
  "TxStreams_init = \<lparr>txs_map = [], txs_vec = (\<lambda>_. PriorityMeta_init),
     txs_isStreamsChanged = True\<rparr>"

subsection \<open>TxStreams::update\<close>

definition update_streams :: "TxStreams \<Rightarrow> TxStreams" where
  "update_streams t =
     (if \<not> txs_isStreamsChanged t then t
      else t\<lparr>txs_vec := (\<lambda>p. (txs_vec t p)\<lparr>pm_vec :=
                map fst (filter (\<lambda>(k, s). ts_priority s = p) (txs_map t))\<rparr>),
             txs_isStreamsChanged := False\<rparr>)"

subsection \<open>findPacketIdx\<close>

text \<open>\<open>Trap\<close> stands for an access outside the deque, or a decrement of index 0, which would
  wrap around and make the next access one.\<close>

datatype search_result = Found nat | NotFound | Trap

definition at_index :: "u32 list \<Rightarrow> nat \<Rightarrow> u32 option" where
  "at_index fifo i = (if i < length fifo then Some (fifo ! i) else None)"

function find_loop :: "u32 list \<Rightarrow> u32 \<Rightarrow> nat \<Rightarrow> nat \<Rightarrow> search_result" where
  "find_loop fifo packetId leftIdx rightIdx =
     (if leftIdx \<le> rightIdx then
        (let midIdx = leftIdx + (rightIdx - leftIdx) div 2 in
         case at_index fifo midIdx of None \<Rightarrow> Trap | Some mid \<Rightarrow>
           if mid = packetId then Found midIdx
           else case at_index fifo leftIdx of None \<Rightarrow> Trap | Some left \<Rightarrow>
             if left \<le> mid then
               (if left \<le> packetId \<and> packetId < mid then
                  (if midIdx = 0 then Trap else find_loop fifo packetId leftIdx (midIdx - 1))
                else find_loop fifo packetId (midIdx + 1) rightIdx)
             else case at_index fifo rightIdx of None \<Rightarrow> Trap | Some right \<Rightarrow>
               if mid < packetId \<and> packetId \<le> right then
                 find_loop fifo packetId (midIdx + 1) rightIdx
               else (if midIdx = 0 then Trap else find_loop fifo packetId leftIdx (midIdx - 1)))
      else NotFound)"
  by pat_completeness auto
termination
  by (relation "measure (\<lambda>(fifo, packetId, leftIdx, rightIdx). Suc rightIdx - leftIdx)") auto

declare find_loop.simps [simp del]

definition findPacketIdx :: "u32 list \<Rightarrow> u32 \<Rightarrow> search_result" where
  "findPacketIdx fifo packetId =
     (if fifo = [] then NotFound else find_loop fifo packetId 0 (length fifo - 1))"

subsection \<open>processTxFifo\<close>

definition notify_delivered :: "bool \<Rightarrow> event \<Rightarrow> event list" where
  "notify_delivered onDelivered e = (if onDelivered then [e] else [])"

definition pop_front_tx :: "TxStream \<Rightarrow> TxStream" where
  "pop_front_tx s = s\<lparr>ts_fifo := tl (ts_fifo s), ts_fifoShadow := tl (ts_fifoShadow s),
     ts_packetFifoIdx := (if 0 < ts_packetFifoIdx s then ts_packetFifoIdx s - 1
                          else ts_packetFifoIdx s)\<rparr>"

function processTxFifo :: "bool \<Rightarrow> tick \<Rightarrow> TxStream \<Rightarrow> TxStream \<times> event list" where
  "processTxFifo onDelivered now_us s =
     (case ts_fifo s of
        [] \<Rightarrow> (s, [])
      | p # _ \<Rightarrow>
          if \<not> tp_isAcknowledged p \<and> now_us \<le> tp_timeout_us p then (s, [])
          else let (s', evs) = processTxFifo onDelivered now_us (pop_front_tx s)
               in (s', notify_delivered onDelivered
                         (Delivered (tp_context p) (tp_pointer p) (tp_size_B p) (ts_id s)
                           (if tp_isAcknowledged p then CHR ''s'' else CHR ''t'')) @ evs))"
  by pat_completeness auto
termination
  by (relation "measure (\<lambda>(onDelivered, now_us, s). length (ts_fifo s))")
    (auto simp: pop_front_tx_def)

declare processTxFifo.simps [simp del]

subsection \<open>Queued commands of the application\<close>

text \<open>\<open>map[key]\<close>, with the initialisation that both commands start with.\<close>

definition tx_stream_at :: "u8 \<Rightarrow> TxStreams \<Rightarrow> TxStream" where
  "tx_stream_at k t = (case map_of (txs_map t) k of Some s \<Rightarrow> s | None \<Rightarrow> TxStream_init)"

definition put_tx_stream :: "u8 \<Rightarrow> TxStream \<Rightarrow> TxStreams \<Rightarrow> TxStreams" where
  "put_tx_stream k s t = t\<lparr>txs_map := AList.update k s (txs_map t)\<rparr>"

definition open_tx_stream :: "u8 \<Rightarrow> TxStreams \<Rightarrow> TxStreams" where
  "open_tx_stream k t =
     (let s = tx_stream_at k t in
      if ts_isNew s
      then (put_tx_stream k (s\<lparr>ts_isNew := False, ts_id := k\<rparr>) t)\<lparr>txs_isStreamsChanged := True\<rparr>
      else put_tx_stream k s t)"

text \<open>The \<open>switch\<close> of \<open>setTxStreamPriority_ts\<close>: \<open>None\<close> for a character it refuses.\<close>

definition priority_of_char :: "char \<Rightarrow> Priority option" where
  "priority_of_char c =
     (if c = CHR ''R'' \<or> c = CHR ''r'' then Some Realtime
      else if c = CHR ''H'' \<or> c = CHR ''h'' then Some High
      else if c = CHR ''M'' \<or> c = CHR ''m'' then Some Medium
      else if c = CHR ''L'' \<or> c = CHR ''l'' then Some Low
      else None)"

definition run_setTxStreamPriority :: "u8 \<Rightarrow> Priority \<Rightarrow> char \<Rightarrow> TxStreams \<Rightarrow> TxStreams" where
  "run_setTxStreamPriority txStreamId newPriority priority t =
     (let t = open_tx_stream txStreamId t; s = tx_stream_at txStreamId t;
          isReliable = ((of_char priority :: nat) < of_char CHR ''a'')
      in if ts_priority s = newPriority \<and> ts_isReliable s = isReliable then t
         else (put_tx_stream txStreamId (s\<lparr>ts_priority := newPriority, ts_isReliable := isReliable\<rparr>) t)
                \<lparr>txs_isStreamsChanged := True\<rparr>)"

text \<open>\<open>copy\<close> tells whether the packet keeps a copy of the data or the application's pointer;
  \<open>data\<close> is what either points to.\<close>

definition run_send ::
  "u64 \<Rightarrow> bytes \<Rightarrow> u64 \<Rightarrow> bool \<Rightarrow> u8 \<Rightarrow> u32 \<Rightarrow> tick \<Rightarrow> TxStreams \<Rightarrow> TxStreams" where
  "run_send ctx data size_B copy streamId timeout_ms now_us t =
     (let t = open_tx_stream streamId t; s = tx_stream_at streamId t;
          packet = TxPacket_init\<lparr>
            tp_copy := (if copy then data else []), tp_pointer := data, tp_size_B := size_B,
            tp_timeout_us := now_us + int (unat timeout_ms) * 1000,
            tp_id := ts_nextPacketId s, tp_isReliable := ts_isReliable s, tp_context := ctx\<rparr>
      in put_tx_stream streamId (s\<lparr>ts_fifo := ts_fifo s @ [packet],
           ts_nextPacketId := ts_nextPacketId s + 1,
           ts_fifoShadow := ts_fifoShadow s @ [tp_id packet]\<rparr>) t)"

subsection \<open>The search\<close>

text \<open>One round of the loop while \<open>rightIdx\<close> is in range: it never traps, since at
  \<open>midIdx = 0\<close> the left and the middle element are the same.\<close>

definition go_left :: "u32 list \<Rightarrow> u32 \<Rightarrow> nat \<Rightarrow> nat \<Rightarrow> nat \<Rightarrow> bool" where
  "go_left fifo packetId l m r \<longleftrightarrow>
     (if fifo ! l \<le> fifo ! m then fifo ! l \<le> packetId \<and> packetId < fifo ! m
      else \<not> (fifo ! m < packetId \<and> packetId \<le> fifo ! r))"

lemma find_loop_step:
  assumes "l \<le> r" "r < length fifo" "m = l + (r - l) div 2"
  shows "find_loop fifo packetId l r =
     (if fifo ! m = packetId then Found m
      else if go_left fifo packetId l m r then find_loop fifo packetId l (m - 1)
      else find_loop fifo packetId (m + 1) r)"
proof -
  have "l \<le> m" "m \<le> r" using assms by auto
  moreover from this have "m = 0 \<Longrightarrow> l = 0" by simp
  ultimately show ?thesis
    using assms(1,2) unfolding find_loop.simps [of fifo packetId l r] assms(3) [symmetric] Let_def
    by (auto simp: at_index_def go_left_def)
qed

lemma go_left_pos: "l \<le> m \<Longrightarrow> go_left fifo packetId l m r \<Longrightarrow> 0 < m"
  by (cases m) (auto simp: go_left_def)

lemma find_loop_induct [consumes 1, case_names empty found left right]:
  assumes "r < length fifo"
    and "\<And>l r. r < length fifo \<Longrightarrow> \<not> l \<le> r \<Longrightarrow> P l r NotFound"
    and "\<And>l m r. l \<le> m \<Longrightarrow> m \<le> r \<Longrightarrow> r < length fifo \<Longrightarrow> fifo ! m = packetId \<Longrightarrow> P l r (Found m)"
    and "\<And>l m r. l \<le> m \<Longrightarrow> m \<le> r \<Longrightarrow> r < length fifo \<Longrightarrow> fifo ! m \<noteq> packetId \<Longrightarrow> 0 < m \<Longrightarrow>
      go_left fifo packetId l m r \<Longrightarrow> P l (m - 1) (find_loop fifo packetId l (m - 1)) \<Longrightarrow>
      P l r (find_loop fifo packetId l (m - 1))"
    and "\<And>l m r. l \<le> m \<Longrightarrow> m \<le> r \<Longrightarrow> r < length fifo \<Longrightarrow> fifo ! m \<noteq> packetId \<Longrightarrow>
      \<not> go_left fifo packetId l m r \<Longrightarrow> P (m + 1) r (find_loop fifo packetId (m + 1) r) \<Longrightarrow>
      P l r (find_loop fifo packetId (m + 1) r)"
  shows "P l r (find_loop fifo packetId l r)"
  using assms(1)
proof (induction "Suc r - l" arbitrary: l r rule: less_induct)
  case less
  show ?case
  proof (cases "l \<le> r")
    case False
    then show ?thesis using assms(2) less.prems by (simp add: find_loop.simps)
  next
    case True
    define m where "m = l + (r - l) div 2"
    have m: "l \<le> m" "m \<le> r" using True by (auto simp: m_def)
    note step = find_loop_step [OF True less.prems m_def]
    consider "fifo ! m = packetId" | "fifo ! m \<noteq> packetId" "go_left fifo packetId l m r"
      | "fifo ! m \<noteq> packetId" "\<not> go_left fifo packetId l m r" by blast
    then show ?thesis
    proof cases
      case 1
      then show ?thesis using assms(3) m less.prems by (simp add: step)
    next
      case 2
      then have "0 < m" using m go_left_pos by blast
      then have "P l (m - 1) (find_loop fifo packetId l (m - 1))"
        using less m True by (intro less.hyps) auto
      then show ?thesis using assms(4) [OF m less.prems 2(1) \<open>0 < m\<close> 2(2)] 2 by (simp add: step)
    next
      case 3
      then have "P (m + 1) r (find_loop fifo packetId (m + 1) r)"
        using less m True by (intro less.hyps) auto
      then show ?thesis using assms(5) [OF m less.prems 3] 3 by (simp add: step)
    qed
  qed
qed

lemma find_loop_sound:
  assumes "r < length fifo"
  shows "find_loop fifo packetId l r \<noteq> Trap
    \<and> (\<forall>i. find_loop fifo packetId l r = Found i \<longrightarrow> i < length fifo \<and> fifo ! i = packetId)"
  using assms by (induction rule: find_loop_induct [of r fifo _ packetId l]) auto

text \<open>Identifiers that count up from \<open>x\<close> without wrapping between two positions.\<close>

lemma counting_no_wrap:
  fixes x N :: nat
  assumes "l \<le> i" "i \<le> m" "m - l < N" "(x + l) mod N \<le> (x + m) mod N"
  shows "(x + i) mod N = (x + l) mod N + (i - l)"
proof -
  define r where "r = (x + l) mod N"
  define q where "q = (x + l) div N"
  have N: "0 < N" using assms(3) by simp
  then have r: "r < N" by (simp add: r_def)
  have xl: "x + l = q * N + r" by (simp add: r_def q_def)
  have sum: "r + (m - l) < N"
  proof (rule ccontr)
    assume "\<not> ?thesis"
    then have "x + m = Suc q * N + (r + (m - l) - N)" using xl assms(1,2) by simp
    moreover have "r + (m - l) - N < N" using r assms(3) by simp
    ultimately have "(x + m) mod N = r + (m - l) - N"
      by (metis mod_mult_self3 mod_less)
    with assms r \<open>\<not> ?thesis\<close> show False by (simp add: r_def)
  qed
  have "x + i = q * N + (r + (i - l))" using xl assms(1) by simp
  moreover have "r + (i - l) < N" using sum assms(1,2) by simp
  ultimately show ?thesis by (metis mod_mult_self3 mod_less r_def)
qed

lemma counting_inj:
  fixes x N :: nat
  assumes "(x + i) mod N = (x + j) mod N" "i \<le> j" "j - i < N"
  shows "i = j"
proof -
  have "N dvd (x + j) - (x + i)"
    using assms(1,2) by (intro mod_eq_dvd_iff_nat [THEN iffD1]) auto
  then have "N dvd j - i" by simp
  with assms(2,3) show ?thesis by (metis diff_is_0_eq dvd_imp_le le_antisym not_le zero_less_iff_neq_zero)
qed


lemma counting_wrap:
  fixes x N :: nat
  assumes "l \<le> m" "m - l < N" "(x + m) mod N < (x + l) mod N"
  shows "(x + m) mod N + N = (x + l) mod N + (m - l)"
proof -
  define r where "r = (x + l) mod N"
  define q where "q = (x + l) div N"
  have r: "r < N" using assms(2) by (simp add: r_def)
  have xl: "x + l = q * N + r" by (simp add: r_def q_def)
  have xm: "x + m = q * N + (r + (m - l))" using xl assms(1) by simp
  have "N \<le> r + (m - l)"
  proof (rule ccontr)
    assume "\<not> ?thesis"
    then have "(x + m) mod N = r + (m - l)" using xm by (metis mod_mult_self3 mod_less not_le)
    with assms(3) show False by (simp add: r_def)
  qed
  then have "x + m = Suc q * N + (r + (m - l) - N)" using xm by simp
  moreover have "r + (m - l) - N < N" using r assms(2) by simp
  ultimately have "(x + m) mod N = r + (m - l) - N" by (metis mod_mult_self3 mod_less)
  with \<open>N \<le> r + (m - l)\<close> show ?thesis by (simp add: r_def)
qed

text \<open>On a stretch that does not wrap, the positions between two ends are those whose values
  lie between theirs.\<close>

lemma counting_between:
  fixes x N :: nat
  assumes "u \<le> v" "(x + u) mod N \<le> (x + v) mod N" "v - u < N"
    and t: "t < u + N" "v < t + N"
  shows "(x + u) mod N \<le> (x + t) mod N \<and> (x + t) mod N \<le> (x + v) mod N \<longleftrightarrow> u \<le> t \<and> t \<le> v"
proof
  have seg: "\<And>i. u \<le> i \<Longrightarrow> i \<le> v \<Longrightarrow> (x + i) mod N = (x + u) mod N + (i - u)"
    using assms(1-3) by (intro counting_no_wrap) auto
  assume *: "(x + u) mod N \<le> (x + t) mod N \<and> (x + t) mod N \<le> (x + v) mod N"
  define d where "d = (x + t) mod N - (x + u) mod N"
  have d: "(x + t) mod N = (x + (u + d)) mod N" "u + d \<le> v"
    using * seg [of v] seg [of "u + d"] assms(1) by (auto simp: d_def)
  have "t = u + d"
  proof (cases "t \<le> u + d")
    case True
    then show ?thesis using counting_inj [OF d(1)] d(2) t by auto
  next
    case False
    moreover have "t - (u + d) < N" using t(1) assms(3) by arith
    ultimately show ?thesis using counting_inj [OF d(1) [symmetric]] by auto
  qed
  with d(2) show "u \<le> t \<and> t \<le> v" by simp
next
  assume "u \<le> t \<and> t \<le> v"
  then show "(x + u) mod N \<le> (x + t) mod N \<and> (x + t) mod N \<le> (x + v) mod N"
    using counting_no_wrap [of u t v N x] counting_no_wrap [of u v v N x] assms by auto
qed

lemma go_left_counting:
  assumes cnt: "\<And>i. i < length fifo \<Longrightarrow> unat (fifo ! i) = (x + i) mod N"
    and N: "length fifo \<le> N" and idx: "l \<le> m" "m \<le> r" "r < length fifo"
    and t: "l \<le> t" "t \<le> r" "fifo ! t = packetId" "fifo ! m \<noteq> packetId"
  shows "go_left fifo packetId l m r \<longleftrightarrow> t < m"
proof -
  have val: "\<And>i. i \<le> r \<Longrightarrow> unat (fifo ! i) = (x + i) mod N" using cnt idx(3) by simp
  have tm: "t \<noteq> m" using t by auto
  have p: "unat packetId = (x + t) mod N" using val t by auto
  have pm: "(x + t) mod N \<noteq> (x + m) mod N" using val [of m] p t(4) idx by (auto simp: word_unat_eq_iff)
  show ?thesis
  proof (cases "fifo ! l \<le> fifo ! m")
    case True
    then have le: "(x + l) mod N \<le> (x + m) mod N" using val idx by (simp add: word_le_nat_alt)
    have "go_left fifo packetId l m r \<longleftrightarrow>
        (x + l) mod N \<le> (x + t) mod N \<and> (x + t) mod N \<le> (x + m) mod N"
      using True val idx p pm by (auto simp: go_left_def word_le_nat_alt word_less_nat_alt)
    also have "\<dots> \<longleftrightarrow> l \<le> t \<and> t \<le> m"
      using le idx t N by (intro counting_between) auto
    finally show ?thesis using t tm by auto
  next
    case False
    then have lt: "(x + m) mod N < (x + l) mod N" using val idx by (simp add: word_le_nat_alt)
    have le: "(x + m) mod N \<le> (x + r) mod N"
    proof (rule ccontr)
      assume "\<not> ?thesis"
      then have "(x + r) mod N + N = (x + m) mod N + (r - m)"
        using idx N by (intro counting_wrap) auto
      moreover have "(x + m) mod N + N = (x + l) mod N + (m - l)"
        using lt idx N by (intro counting_wrap) auto
      moreover have "(x + l) mod N < N" using idx N by (intro mod_less_divisor) auto
      ultimately show False using idx N by linarith
    qed
    have "go_left fifo packetId l m r \<longleftrightarrow>
        \<not> ((x + m) mod N \<le> (x + t) mod N \<and> (x + t) mod N \<le> (x + r) mod N)"
      using False val idx p pm by (auto simp: go_left_def word_le_nat_alt word_less_nat_alt)
    also have "\<dots> \<longleftrightarrow> \<not> (m \<le> t \<and> t \<le> r)"
      using le idx t N by (subst counting_between) auto
    finally show ?thesis using t tm by auto
  qed
qed

lemma find_loop_complete:
  assumes cnt: "\<And>i. i < length fifo \<Longrightarrow> unat (fifo ! i) = (x + i) mod N" "length fifo \<le> N"
    and "r < length fifo" "l \<le> t" "t \<le> r" "fifo ! t = packetId"
  shows "\<exists>i. find_loop fifo packetId l r = Found i"
  using assms(3-6)
proof (induction rule: find_loop_induct [of r fifo _ packetId l])
  case (left l m r)
  then show ?case
    using go_left_counting [OF cnt, of l m r t packetId] by simp
next
  case (right l m r)
  then show ?case
    using go_left_counting [OF cnt, of l m r t packetId] by (cases "t = m") simp_all
qed auto

lemma consecutive_unat:
  assumes "consecutive fifo" "i < length fifo"
  shows "unat (fifo ! i) = (unat (hd fifo) + i) mod 2 ^ 32"
proof -
  obtain x xs where fifo: "fifo = x # xs" using assms(2) by (cases fifo) auto
  then have "fifo ! i = x + of_nat i" using assms consecutive_nth by blast
  then show ?thesis by (simp add: fifo unat_word_ariths unat_of_nat take_bit_eq_mod mod_add_right_eq)
qed

lemma consecutive_distinct:
  assumes "consecutive fifo" "length fifo \<le> 2 ^ 32"
  shows "distinct fifo"
proof -
  have eq: "i = j" if ij: "i < length fifo" "j < length fifo" "i \<le> j" "fifo ! i = fifo ! j" for i j
  proof (rule counting_inj [of "unat (hd fifo)" i "2 ^ 32" j])
    show "(unat (hd fifo) + i) mod 2 ^ 32 = (unat (hd fifo) + j) mod 2 ^ 32"
      using consecutive_unat [OF assms(1) ij(1)] consecutive_unat [OF assms(1) ij(2)] ij(4) by simp
    show "j - i < 2 ^ 32" using ij(2) assms(2) by linarith
  qed fact
  show ?thesis
    unfolding distinct_conv_nth using eq by (metis nat_le_linear)
qed

lemma findPacketIdx_sound:
  "findPacketIdx fifo packetId \<noteq> Trap
   \<and> (\<forall>i. findPacketIdx fifo packetId = Found i \<longrightarrow> i < length fifo \<and> fifo ! i = packetId)"
  using find_loop_sound [of "length fifo - 1" fifo packetId 0] by (auto simp: findPacketIdx_def)

lemma findPacketIdx_complete:
  assumes "consecutive fifo" "length fifo \<le> 2 ^ 32" "packetId \<in> set fifo"
  shows "\<exists>i. findPacketIdx fifo packetId = Found i"
proof -
  obtain t where "t < length fifo" "fifo ! t = packetId" using assms(3) by (auto simp: in_set_conv_nth)
  then show ?thesis
    using find_loop_complete [OF consecutive_unat [OF assms(1)] assms(2), of "length fifo - 1" 0 t packetId]
    by (auto simp: findPacketIdx_def)
qed

text \<open>
  C19. The search over the identifiers of a transmit queue is exact, also when the identifiers wrap
  around from \<open>UINT32_MAX\<close> to 0 inside the queue: on consecutive identifiers it returns index
  \<open>i\<close> exactly when the identifier is at \<open>i\<close>, and it reports a miss exactly when the
  identifier is not queued.
\<close>

theorem findPacketIdx_correct:
  assumes "consecutive fifo" "length fifo \<le> 2 ^ 32"
  shows "(findPacketIdx fifo packetId = Found i \<longleftrightarrow> i < length fifo \<and> fifo ! i = packetId)
    \<and> (findPacketIdx fifo packetId = NotFound \<longleftrightarrow> packetId \<notin> set fifo)"
proof -
  have "distinct fifo" using assms by (rule consecutive_distinct)
  with findPacketIdx_complete [OF assms, of packetId] findPacketIdx_sound [of fifo packetId] show ?thesis
    by (cases "findPacketIdx fifo packetId") (auto simp: nth_eq_iff_index_eq)
qed

theorem findPacketIdx_correct_witness:
  "findPacketIdx [UINT32_MAX - 1, UINT32_MAX, 0, 1] 0 = Found 2"
proof -
  have "consecutive [UINT32_MAX - 1, UINT32_MAX, 0, 1]" by simp
  from findPacketIdx_correct [OF this, of 0 2] show ?thesis by simp
qed

text \<open>
  C20. The search ends for every queue and identifier, reads no element outside the queue, never
  decrements index 0, and an index it returns holds the identifier, whatever order the queue is in.
\<close>

theorem findPacketIdx_safe:
  "findPacketIdx fifo packetId \<noteq> Trap
   \<and> (\<forall>i. findPacketIdx fifo packetId = Found i \<longrightarrow> i < length fifo \<and> fifo ! i = packetId)"
  by (rule findPacketIdx_sound)

theorem findPacketIdx_safe_witness:
  "findPacketIdx [5, 6, 7] 6 = Found 1 \<and> [5, 6, 7] ! 1 = (6 :: u32)"
proof -
  have "findPacketIdx [5, 6, 7] 6 = Found 1"
    by (simp add: findPacketIdx_def find_loop.simps at_index_def)
  with findPacketIdx_safe [of "[5, 6, 7]" 6] show ?thesis by blast
qed

subsection \<open>Draining the transmit queue\<close>

definition tx_keep :: "tick \<Rightarrow> TxPacket \<Rightarrow> bool" where
  "tx_keep now_us p \<longleftrightarrow> \<not> tp_isAcknowledged p \<and> now_us \<le> tp_timeout_us p"

definition tx_event :: "u8 \<Rightarrow> TxPacket \<Rightarrow> event" where
  "tx_event streamId p = Delivered (tp_context p) (tp_pointer p) (tp_size_B p) streamId
     (if tp_isAcknowledged p then CHR ''s'' else CHR ''t'')"

lemma pop_front_tx_simps [simp]:
  "ts_fifo (pop_front_tx s) = tl (ts_fifo s)" "ts_fifoShadow (pop_front_tx s) = tl (ts_fifoShadow s)"
  "ts_packetFifoIdx (pop_front_tx s) = ts_packetFifoIdx s - 1"
  "ts_id (pop_front_tx s) = ts_id s" "ts_nextPacketId (pop_front_tx s) = ts_nextPacketId s"
  "ts_priority (pop_front_tx s) = ts_priority s" "ts_isNew (pop_front_tx s) = ts_isNew s"
  "ts_isReliable (pop_front_tx s) = ts_isReliable s"
  "ts_fifoReturnTime_us (pop_front_tx s) = ts_fifoReturnTime_us s"
  by (simp_all add: pop_front_tx_def)

lemma processTxFifo_unfold:
  "processTxFifo onDelivered now_us s =
     (case ts_fifo s of [] \<Rightarrow> (s, [])
      | p # _ \<Rightarrow> if tx_keep now_us p then (s, [])
          else (fst (processTxFifo onDelivered now_us (pop_front_tx s)),
                notify_delivered onDelivered (tx_event (ts_id s) p)
                @ snd (processTxFifo onDelivered now_us (pop_front_tx s))))"
  by (subst processTxFifo.simps)
    (auto simp: tx_keep_def tx_event_def split: list.split prod.split)

interpretation tx_drain: fifo_drain ts_fifo ts_fifoShadow "\<lambda>s. tx_keep now_us (hd (ts_fifo s))"
  pop_front_tx "\<lambda>s. notify_delivered onDelivered (tx_event (ts_id s) (hd (ts_fifo s)))"
  "processTxFifo onDelivered now_us" for onDelivered now_us
proof unfold_locales
  fix s
  show "ts_fifo s = [] \<or> tx_keep now_us (hd (ts_fifo s)) \<Longrightarrow>
    processTxFifo onDelivered now_us s = (s, [])"
    by (subst processTxFifo_unfold) (auto split: list.split)
  show "ts_fifo s \<noteq> [] \<Longrightarrow> \<not> tx_keep now_us (hd (ts_fifo s)) \<Longrightarrow>
    processTxFifo onDelivered now_us s =
      (fst (processTxFifo onDelivered now_us (pop_front_tx s)),
       notify_delivered onDelivered (tx_event (ts_id s) (hd (ts_fifo s)))
       @ snd (processTxFifo onDelivered now_us (pop_front_tx s)))"
    by (subst processTxFifo_unfold) (auto split: list.split)
qed simp_all

lemma processTxFifo_eq:
  "processTxFifo onDelivered now_us s =
     (let gone = takeWhile (\<lambda>p. \<not> tx_keep now_us p) (ts_fifo s)
      in (s\<lparr>ts_fifo := dropWhile (\<lambda>p. \<not> tx_keep now_us p) (ts_fifo s),
            ts_fifoShadow := drop (length gone) (ts_fifoShadow s),
            ts_packetFifoIdx := ts_packetFifoIdx s - length gone\<rparr>,
          if onDelivered then map (tx_event (ts_id s)) gone else []))"
proof (induction onDelivered now_us s rule: processTxFifo.induct)
  case (1 onDelivered now_us s)
  show ?case
  proof (cases "ts_fifo s")
    case Nil
    then show ?thesis by (subst processTxFifo_unfold) simp
  next
    case (Cons p ps)
    show ?thesis
    proof (cases "tx_keep now_us p")
      case True
      then have "takeWhile (\<lambda>p. \<not> tx_keep now_us p) (ts_fifo s) = []"
        "dropWhile (\<lambda>p. \<not> tx_keep now_us p) (ts_fifo s) = ts_fifo s"
        using Cons by simp_all
      with Cons True show ?thesis by (subst processTxFifo_unfold) (simp split: list.split)
    next
      case False
      then have IH: "processTxFifo onDelivered now_us (pop_front_tx s) =
        (let gone = takeWhile (\<lambda>p. \<not> tx_keep now_us p) (ts_fifo (pop_front_tx s))
         in ((pop_front_tx s)\<lparr>ts_fifo := dropWhile (\<lambda>p. \<not> tx_keep now_us p) (ts_fifo (pop_front_tx s)),
            ts_fifoShadow := drop (length gone) (ts_fifoShadow (pop_front_tx s)),
            ts_packetFifoIdx := ts_packetFifoIdx (pop_front_tx s) - length gone\<rparr>,
          if onDelivered then map (tx_event (ts_id (pop_front_tx s))) gone else []))"
        using "1" [OF Cons] by (simp add: tx_keep_def)
      show ?thesis
        unfolding processTxFifo_unfold [of onDelivered now_us s] IH
        using Cons False
        by (simp add: Let_def notify_delivered_def drop_Suc)
    qed
  qed
qed

text \<open>
  C18. \<open>processTxFifo\<close> removes exactly the longest prefix of packets that are acknowledged or
  expired, reports each of them once and in order with status \<open>s\<close> or \<open>t\<close>, keeps the shadow
  queue and the scheduling index in step, and touches nothing else of the stream.
\<close>

theorem processTxFifo_correct:
  "processTxFifo onDelivered now_us s =
     (let gone = takeWhile (\<lambda>p. tp_isAcknowledged p \<or> tp_timeout_us p < now_us) (ts_fifo s)
      in (s\<lparr>ts_fifo := drop (length gone) (ts_fifo s),
            ts_fifoShadow := drop (length gone) (ts_fifoShadow s),
            ts_packetFifoIdx := ts_packetFifoIdx s - length gone\<rparr>,
          if onDelivered
          then map (\<lambda>p. Delivered (tp_context p) (tp_pointer p) (tp_size_B p) (ts_id s)
                 (if tp_isAcknowledged p then CHR ''s'' else CHR ''t'')) gone
          else []))"
proof -
  have "(\<lambda>p. \<not> tx_keep now_us p) = (\<lambda>p. tp_isAcknowledged p \<or> tp_timeout_us p < now_us)"
    by (auto simp: tx_keep_def)
  then show ?thesis
    by (simp add: processTxFifo_eq tx_event_def [abs_def] Let_def dropWhile_eq_drop)
qed

subsection \<open>The transmit invariant\<close>

text \<open>No C++ object is larger than \<open>PTRDIFF_MAX\<close> bytes.\<close>

definition tx_packet_ok :: "TxPacket \<Rightarrow> bool" where
  "tx_packet_ok p \<longleftrightarrow> length (tp_pointer p) = unat (tp_size_B p) \<and> 0 < unat (tp_size_B p)
     \<and> unat (tp_size_B p) < 2 ^ 63"

definition tx_ok :: "TxStream \<Rightarrow> bool" where
  "tx_ok s \<longleftrightarrow> ts_fifoShadow s = map tp_id (ts_fifo s) \<and> consecutive (ts_fifoShadow s)
     \<and> (ts_fifoShadow s \<noteq> [] \<longrightarrow> last (ts_fifoShadow s) + 1 = ts_nextPacketId s)
     \<and> list_all tx_packet_ok (ts_fifo s)"

lemma tx_ok_frame [simp]:
  "tx_ok (s\<lparr>ts_fifoReturnTime_us := a\<rparr>) = tx_ok s" "tx_ok (s\<lparr>ts_packetFifoIdx := b\<rparr>) = tx_ok s"
  "tx_ok (s\<lparr>ts_priority := c\<rparr>) = tx_ok s" "tx_ok (s\<lparr>ts_isReliable := d\<rparr>) = tx_ok s"
  by (simp_all add: tx_ok_def)

lemma tx_ok_init [tx_inv_intros]: "tx_ok TxStream_init"
  by (simp add: tx_ok_def TxStream_init_def)

lemma tx_ok_pop [tx_inv_intros]: "tx_ok s \<Longrightarrow> tx_ok (pop_front_tx s)"
  by (cases "ts_fifo s"; cases "tl (ts_fifo s)") (auto simp: tx_ok_def)

lemma tx_ok_processTxFifo [tx_inv_intros]:
  "tx_ok s \<Longrightarrow> tx_ok (fst (processTxFifo onDelivered now_us s))"
  by (rule tx_drain.drain_invariant) (auto intro: tx_ok_pop)

lemma tx_ok_push:
  assumes "tx_ok s" "tx_packet_ok p" "tp_id p = ts_nextPacketId s"
  shows "tx_ok (s\<lparr>ts_fifo := ts_fifo s @ [p], ts_nextPacketId := ts_nextPacketId s + 1,
    ts_fifoShadow := ts_fifoShadow s @ [tp_id p]\<rparr>)"
  using assms by (auto simp: tx_ok_def intro!: consecutive_append1)

text \<open>What a packet needs to be sent safely. The next piece of a started packet begins inside its data; only
  a repeat request of the peer can set an offset to a value that the sender did not compute itself.
  And a packet that fits into a datagram is reliable: an unreliable one is removed from the queue before
  the last store to it.\<close>

definition tx_packet_safe :: "TxPacket \<Rightarrow> bool" where
  "tx_packet_safe p \<longleftrightarrow> tp_offset_B p \<le> tp_size_B p \<and> (tp_isReliable p \<or> 65536 \<le> unat (tp_size_B p))"

definition tx_safe :: "TxStream \<Rightarrow> bool" where
  "tx_safe s \<longleftrightarrow> list_all tx_packet_safe (ts_fifo s)"

lemma tx_packet_safe_update [simp]:
  "tx_packet_safe (p\<lparr>tp_isStarted := a\<rparr>) = tx_packet_safe p" "tx_packet_safe (p\<lparr>tp_begin_us := b\<rparr>) = tx_packet_safe p"
  "tx_packet_safe (p\<lparr>tp_isAcknowledged := c\<rparr>) = tx_packet_safe p" "tx_packet_safe (p\<lparr>tp_datagramId := d\<rparr>) = tx_packet_safe p"
  by (simp_all add: tx_packet_safe_def)

lemma tx_packet_safe_offset: "tx_packet_safe p \<Longrightarrow> x \<le> tp_size_B p \<Longrightarrow> tx_packet_safe (p\<lparr>tp_offset_B := x\<rparr>)"
  by (simp add: tx_packet_safe_def)

lemma tx_safe_init [tx_inv_intros]: "tx_safe TxStream_init"
  by (simp add: tx_safe_def TxStream_init_def)

lemma tx_safe_frame [simp]:
  "tx_safe (s\<lparr>ts_fifoReturnTime_us := a\<rparr>) = tx_safe s"
  "tx_safe (s\<lparr>ts_packetFifoIdx := b\<rparr>) = tx_safe s"
  "tx_safe (s\<lparr>ts_priority := c\<rparr>) = tx_safe s"
  "tx_safe (s\<lparr>ts_isReliable := d\<rparr>) = tx_safe s"
  by (simp_all add: tx_safe_def)

lemma tx_safe_processTxFifo [tx_inv_intros]:
  "tx_safe s \<Longrightarrow> tx_safe (fst (processTxFifo onDelivered now_us s))"
  by (auto simp: tx_safe_def processTxFifo_eq Let_def list_all_iff dest: set_dropWhileD)

lemma tx_safe_update [tx_inv_intros]:
  "tx_safe s \<Longrightarrow> tx_packet_safe p \<Longrightarrow> tx_safe (s\<lparr>ts_fifo := (ts_fifo s)[i := p]\<rparr>)"
  by (auto simp: tx_safe_def list_all_iff dest!: set_update_subset_insert [THEN subsetD])

text \<open>Changing a packet in place, apart from its identifier and its data.\<close>

lemma tx_ok_update [tx_inv_intros]:
  assumes "tx_ok s" "tp_id p = tp_id (ts_fifo s ! i)" "tp_pointer p = tp_pointer (ts_fifo s ! i)"
    "tp_size_B p = tp_size_B (ts_fifo s ! i)"
  shows "tx_ok (s\<lparr>ts_fifo := (ts_fifo s)[i := p]\<rparr>)"
proof (cases "i < length (ts_fifo s)")
  case True
  then have "map tp_id ((ts_fifo s)[i := p]) = map tp_id (ts_fifo s)"
    using assms(2) by (metis list_update_id map_update nth_map)
  moreover have "tx_packet_ok p"
    using True assms by (auto simp: tx_ok_def tx_packet_ok_def list_all_length)
  ultimately show ?thesis
    using assms(1) by (auto simp: tx_ok_def list_all_iff dest!: set_update_subset_insert [THEN subsetD])
next
  case False
  then show ?thesis using assms(1) by (simp add: list_update_beyond)
qed

text \<open>All streams of a connection: distinct keys, each stream initialised under its key and in
  order, and the lists of \<open>update\<close> current unless the flag asks for a rebuild.\<close>

definition keys_of :: "Priority \<Rightarrow> (u8 \<times> TxStream) list \<Rightarrow> u8 set" where
  "keys_of p m = {k. \<exists>s. (k, s) \<in> set m \<and> ts_priority s = p}"

definition txs_ok :: "TxStreams \<Rightarrow> bool" where
  "txs_ok t \<longleftrightarrow> distinct (map fst (txs_map t))
     \<and> (\<forall>(k, s) \<in> set (txs_map t). tx_ok s \<and> ts_id s = k \<and> \<not> ts_isNew s \<and> ts_priority s \<noteq> NoPriority)
     \<and> (txs_isStreamsChanged t \<or>
        (\<forall>p. distinct (pm_vec (txs_vec t p)) \<and> set (pm_vec (txs_vec t p)) = keys_of p (txs_map t)))"

lemma txs_ok_init [tx_inv_intros]: "txs_ok TxStreams_init"
  by (simp add: txs_ok_def TxStreams_init_def)

lemma txs_ok_update [tx_inv_intros]: "txs_ok t \<Longrightarrow> txs_ok (update_streams t)"
  by (force simp: txs_ok_def update_streams_def keys_of_def distinct_map_filter)

lemma txs_ok_lookup: "txs_ok t \<Longrightarrow> map_of (txs_map t) k = Some s \<Longrightarrow>
   tx_ok s \<and> ts_id s = k \<and> \<not> ts_isNew s \<and> ts_priority s \<noteq> NoPriority"
  by (auto simp: txs_ok_def dest: map_of_SomeD)

lemma txs_vec_lookup:
  "txs_ok t \<Longrightarrow> \<not> txs_isStreamsChanged t \<Longrightarrow> k \<in> set (pm_vec (txs_vec t p)) \<Longrightarrow>
   \<exists>s. map_of (txs_map t) k = Some s \<and> ts_priority s = p"
  by (auto simp: txs_ok_def keys_of_def)

lemma set_update_alist:
  "distinct (map fst m) \<Longrightarrow> (k', v') \<in> set (AList.update k v m) \<longleftrightarrow>
   (if k' = k then v' = v else (k', v') \<in> set m)"
  by (metis AList.distinct_update update_conv' fun_upd_apply map_of_eq_Some_iff option.inject)

lemma keys_of_update:
  assumes d: "distinct (map fst m)" and "map_of m k = Some s0" "ts_priority s0 = ts_priority s"
  shows "keys_of p (AList.update k s m) = keys_of p m"
proof -
  have "k' \<in> keys_of p (AList.update k s m) \<longleftrightarrow> k' \<in> keys_of p m" for k'
    unfolding keys_of_def using assms(2,3)
    by (cases "k' = k") (auto simp: set_update_alist [OF d] dest: eq_key_imp_eq_value [OF d] map_of_SomeD)
  then show ?thesis by blast
qed

lemma txs_ok_put [tx_inv_intros]:
  assumes "txs_ok t" "tx_ok s" "ts_id s = k" "\<not> ts_isNew s" "ts_priority s \<noteq> NoPriority"
    and "txs_isStreamsChanged t \<or> (\<exists>s0. map_of (txs_map t) k = Some s0 \<and> ts_priority s0 = ts_priority s)"
  shows "txs_ok (put_tx_stream k s t)"
proof -
  have d: "distinct (map fst (txs_map t))" using assms(1) by (simp add: txs_ok_def)
  then have lists: "keys_of p (AList.update k s (txs_map t)) = keys_of p (txs_map t)"
    if "\<exists>s0. map_of (txs_map t) k = Some s0 \<and> ts_priority s0 = ts_priority s" for p
    using that keys_of_update by blast
  have "\<forall>(k', s') \<in> set (AList.update k s (txs_map t)).
      tx_ok s' \<and> ts_id s' = k' \<and> \<not> ts_isNew s' \<and> ts_priority s' \<noteq> NoPriority"
    using assms by (auto simp: set_update_alist [OF d] txs_ok_def split: if_splits)
  then show ?thesis
    using assms lists by (simp add: txs_ok_def put_tx_stream_def distinct_update) blast
qed

lemma tx_stream_at_put [simp]:
  "tx_stream_at k (put_tx_stream k' s t) = (if k = k' then s else tx_stream_at k t)"
  by (simp add: tx_stream_at_def put_tx_stream_def update_conv')

lemma map_of_put_tx [simp]:
  "map_of (txs_map (put_tx_stream k s t)) k' = (if k' = k then Some s else map_of (txs_map t) k')"
  by (simp add: put_tx_stream_def update_conv')

lemma put_tx_simps [simp]:
  "txs_vec (put_tx_stream k s t) = txs_vec t"
  "txs_isStreamsChanged (put_tx_stream k s t) = txs_isStreamsChanged t"
  by (simp_all add: put_tx_stream_def)

lemma put_tx_changed [simp]:
  "put_tx_stream k s (t\<lparr>txs_isStreamsChanged := c\<rparr>) = (put_tx_stream k s t)\<lparr>txs_isStreamsChanged := c\<rparr>"
  by (cases t) (simp add: put_tx_stream_def)

lemma txs_ok_changed: "txs_ok t \<Longrightarrow> txs_ok (t\<lparr>txs_isStreamsChanged := True\<rparr>)"
  by (simp add: txs_ok_def)

text \<open>A stored stream whose priority stays.\<close>

lemma txs_ok_replace [tx_inv_intros]:
  assumes "txs_ok t" "map_of (txs_map t) k = Some s0" "tx_ok s" "ts_id s = ts_id s0"
    "ts_isNew s = ts_isNew s0" "ts_priority s = ts_priority s0"
  shows "txs_ok (put_tx_stream k s t)"
  using assms txs_ok_lookup [OF assms(1,2)] by (intro txs_ok_put) auto

text \<open>The stream a command works on is stored, initialised, under its key.\<close>

lemma open_tx_stream_stored:
  assumes "txs_ok t"
  shows "map_of (txs_map (open_tx_stream k t)) k = Some (tx_stream_at k (open_tx_stream k t))"
    "tx_stream_at k (open_tx_stream k t) = (tx_stream_at k t)\<lparr>ts_isNew := False, ts_id := k\<rparr>"
proof -
  show "map_of (txs_map (open_tx_stream k t)) k = Some (tx_stream_at k (open_tx_stream k t))"
    by (simp add: open_tx_stream_def Let_def) (simp add: tx_stream_at_def)
  have "\<not> ts_isNew (tx_stream_at k t) \<Longrightarrow> ts_id (tx_stream_at k t) = k"
    using txs_ok_lookup [OF assms, of k]
    by (cases "map_of (txs_map t) k") (simp_all add: tx_stream_at_def TxStream_init_def)
  then show "tx_stream_at k (open_tx_stream k t) = (tx_stream_at k t)\<lparr>ts_isNew := False, ts_id := k\<rparr>"
    by (cases "ts_isNew (tx_stream_at k t)"; cases "tx_stream_at k t")
      (simp_all add: open_tx_stream_def Let_def, simp_all add: tx_stream_at_def)
qed

lemma txs_ok_open [tx_inv_intros]:
  assumes "txs_ok t"
  shows "txs_ok (open_tx_stream k t)"
proof (cases "map_of (txs_map t) k")
  case None
  have "txs_ok (put_tx_stream k (TxStream_init\<lparr>ts_isNew := False, ts_id := k\<rparr>)
      (t\<lparr>txs_isStreamsChanged := True\<rparr>))"
    using assms by (intro txs_ok_put txs_ok_changed) (simp_all add: TxStream_init_def tx_ok_def)
  with None show ?thesis
    by (simp add: open_tx_stream_def tx_stream_at_def TxStream_init_def Let_def)
next
  case (Some s)
  with assms show ?thesis
    using txs_ok_lookup [OF assms Some]
    by (auto simp: open_tx_stream_def tx_stream_at_def Let_def intro!: txs_ok_replace)
qed

lemma txs_ok_priority [tx_inv_intros]:
  assumes "txs_ok t" "newPriority \<noteq> NoPriority"
  shows "txs_ok (run_setTxStreamPriority k newPriority c t)"
proof -
  let ?t = "open_tx_stream k t" and ?s = "tx_stream_at k (open_tx_stream k t)"
  have ok: "txs_ok ?t" using assms(1) by (rule txs_ok_open)
  have s: "tx_ok ?s" "ts_id ?s = k" "\<not> ts_isNew ?s"
    using txs_ok_lookup [OF ok open_tx_stream_stored(1) [OF assms(1)]] by simp_all
  have "tx_ok (?s\<lparr>ts_priority := newPriority, ts_isReliable := r\<rparr>)" for r
    using s(1) by simp
  then have "txs_ok (put_tx_stream k (?s\<lparr>ts_priority := newPriority, ts_isReliable := r\<rparr>)
      (?t\<lparr>txs_isStreamsChanged := True\<rparr>))" for r
    using ok s assms(2) by (intro txs_ok_put txs_ok_changed) simp_all
  with ok show ?thesis
    by (simp add: run_setTxStreamPriority_def Let_def)
qed

lemma txs_ok_send [tx_inv_intros]:
  assumes "txs_ok t" "length data = unat size_B" "size_B \<noteq> 0" "unat size_B < 2 ^ 63"
  shows "txs_ok (run_send ctx data size_B copy k timeout_ms now_us t)"
proof -
  let ?t = "open_tx_stream k t" and ?s = "tx_stream_at k (open_tx_stream k t)"
  have ok: "txs_ok ?t" using assms(1) by (rule txs_ok_open)
  obtain s where s: "map_of (txs_map ?t) k = Some s" "?s = s"
    using open_tx_stream_stored(1) [OF assms(1), of k] by simp
  have "tx_ok s" using txs_ok_lookup [OF ok s(1)] by simp
  define p where "p = TxPacket_init\<lparr>
            tp_copy := (if copy then data else []), tp_pointer := data, tp_size_B := size_B,
            tp_timeout_us := now_us + int (unat timeout_ms) * 1000,
            tp_id := ts_nextPacketId s, tp_isReliable := ts_isReliable s, tp_context := ctx\<rparr>"
  have "tx_packet_ok p" "tp_id p = ts_nextPacketId s"
    using assms(2-4) by (simp_all add: p_def tx_packet_ok_def unat_gt_0)
  note push = tx_ok_push [OF \<open>tx_ok s\<close> this]
  have "txs_ok (put_tx_stream k (s\<lparr>ts_fifo := ts_fifo s @ [p],
      ts_nextPacketId := ts_nextPacketId s + 1, ts_fifoShadow := ts_fifoShadow s @ [tp_id p]\<rparr>) ?t)"
    by (rule txs_ok_replace [OF ok s(1) push]) simp_all
  then show ?thesis unfolding run_send_def Let_def s(2) p_def .
qed

end
