(* ===== verification/Udsp_Smooth.thy ===== *)
theory Udsp_Smooth
  imports Complex_Main Udsp_Prelude "HOL-Library.Log_Nat"
begin

text \<open>
  Single-precision arithmetic as the statistics of a connection use it, and the class
  \<open>SmoothModelHolt\<close> of \<open>Impl.hpp\<close>, which smooths the round-trip time. A \<open>float\<close> is the
  rational number it stands for, or \<open>None\<close> for a quiet NaN; every operation is the exact one
  followed by rounding to the nearest representable number, ties to even. Infinities do not
  occur: the magnitudes here stay far below the largest \<open>float\<close>.
\<close>

type_synonym float32 = "rat option"

text \<open>The exponent \<open>e\<close> with \<open>2 ^ e \<le> x < 2 ^ (e + 1)\<close>, for positive \<open>x\<close>.\<close>

definition power2 :: "int \<Rightarrow> rat" where
  "power2 k = (if 0 \<le> k then 2 ^ nat k else 1 / 2 ^ nat (- k))"

definition exponent2 :: "rat \<Rightarrow> int" where
  "exponent2 x = (let (n, d) = quotient_of x; k = bitlen n - bitlen d
     in if power2 k \<le> x then k else k - 1)"

definition round_even :: "rat \<Rightarrow> int" where
  "round_even x = (let n = \<lfloor>x\<rfloor>; r = x - of_int n
     in if r < 1 / 2 then n else if 1 / 2 < r then n + 1 else if even n then n else n + 1)"

text \<open>24 significant bits, and no finer than the subnormal grid \<open>2 ^ - 149\<close>.\<close>

definition round32 :: "rat \<Rightarrow> rat" where
  "round32 x = (if x = 0 then 0
     else let ulp = power2 (max (exponent2 \<bar>x\<bar> - 23) (- 149)) in of_int (round_even (x / ulp)) * ulp)"

record SmoothModelHolt =
  m_alpha1 :: rat
  m_alpha2 :: rat
  m_prevAt :: float32
  m_prevBt :: rat

text \<open>The literal \<open>0.05f\<close>.\<close>

definition alpha_default :: rat where
  "alpha_default = round32 (1 / 20)"

definition SmoothModelHolt_init :: SmoothModelHolt where
  "SmoothModelHolt_init = \<lparr>m_alpha1 = alpha_default, m_alpha2 = alpha_default, m_prevAt = None,
     m_prevBt = 0\<rparr>"

definition holt_reset :: "float32 \<Rightarrow> SmoothModelHolt \<Rightarrow> SmoothModelHolt" where
  "holt_reset value m = m\<lparr>m_prevAt := value, m_prevBt := 0\<rparr>"

definition holt_init :: "rat \<Rightarrow> rat \<Rightarrow> SmoothModelHolt \<Rightarrow> SmoothModelHolt" where
  "holt_init alpha1 alpha2 m = m\<lparr>m_alpha1 := alpha1, m_alpha2 := alpha2\<rparr>"

definition holt_update :: "rat \<Rightarrow> SmoothModelHolt \<Rightarrow> SmoothModelHolt" where
  "holt_update value m =
     (case m_prevAt m of
        None \<Rightarrow> holt_reset (Some value) m
      | Some prevAt \<Rightarrow>
          let At = round32 (round32 (m_alpha1 m * value)
                 + round32 (round32 (1 - m_alpha1 m) * round32 (prevAt - m_prevBt m)));
              Bt = round32 (round32 (m_alpha2 m * round32 (At - prevAt))
                 + round32 (round32 (1 - m_alpha2 m) * m_prevBt m))
          in m\<lparr>m_prevAt := Some At, m_prevBt := Bt\<rparr>)"

definition holt_result :: "SmoothModelHolt \<Rightarrow> float32" where
  "holt_result m = m_prevAt m"

text \<open>\<open>uint32_t(x)\<close>: truncation, undefined for a NaN and outside the range of the type.\<close>

definition float_to_u32 :: "float32 \<Rightarrow> u32 option" where
  "float_to_u32 x = (case x of None \<Rightarrow> None
     | Some v \<Rightarrow> if -1 < v \<and> v < 2 ^ 32 then Some (of_int \<lfloor>max v 0\<rfloor>) else None)"

end
