(* ===== verification/Udsp_Connection.thy ===== *)
theory Udsp_Connection
  imports Udsp_Tx_Stream Udsp_Smooth
begin

text \<open>
  The state of a connection: \<open>RxStreams\<close> and \<open>struct UDSPSocket::Connection\<close> of
  \<open>Impl.hpp\<close> with the default values of their members, \<open>partialReset\<close> of
  \<open>Connection.cpp\<close>, \<open>onDisconnected\<close> of \<open>Stream.cpp\<close>, and the queue of commands through which
  the application's threads reach a connection: \<open>setTxStreamPriority_ts\<close>, \<open>send_ts\<close>,
  \<open>setOnDelivered\<close> and \<open>setOnReceived\<close> append to it under the socket's mutex,
  \<open>doCommands\<close> empties it on the worker thread. The members are grouped into records: the path
  MTU search, the counters, the round-trip exchange, the congestion control, and the rest.
\<close>

subsection \<open>RxStreams\<close>

text \<open>The iterator \<open>streamIt\<close> is a position in the map's iteration order.\<close>

record RxStreams =
  rxs_acks :: "(u8 \<times> u32) list"
  rxs_map :: "(u8 \<times> RxStream) list"
  rxs_streamIt :: nat
  rxs_isStreamsChanged :: bool

definition RxStreams_init :: RxStreams where
  "RxStreams_init = \<lparr>rxs_acks = [], rxs_map = [], rxs_streamIt = 0, rxs_isStreamsChanged = True\<rparr>"

definition rx_streams_next :: "RxStreams \<Rightarrow> RxStreams" where
  "rx_streams_next r =
     (if rxs_isStreamsChanged r then r\<lparr>rxs_isStreamsChanged := False, rxs_streamIt := 0\<rparr>
      else let it = Suc (rxs_streamIt r)
           in r\<lparr>rxs_streamIt := (if it = length (rxs_map r) then 0 else it)\<rparr>)"

definition rx_stream_at :: "u8 \<Rightarrow> RxStreams \<Rightarrow> RxStream" where
  "rx_stream_at k r = (case map_of (rxs_map r) k of Some s \<Rightarrow> s | None \<Rightarrow> RxStream_init)"

definition put_rx_stream :: "u8 \<Rightarrow> RxStream \<Rightarrow> RxStreams \<Rightarrow> RxStreams" where
  "put_rx_stream k s r = r\<lparr>rxs_map := AList.update k s (rxs_map r)\<rparr>"

subsection \<open>Connection\<close>

record Pmtu =
  pm_PMTU_B :: u32
  pm_PMTUProbeSize_B :: u32
  pm_PMTUProbeCount :: u32
  pm_PMTUProbeResponse_B :: u32
  pm_PMTUProbeStep_B :: int
  pm_nextPMTUProbe_us :: tick

definition Pmtu_init :: Pmtu where
  "Pmtu_init = \<lparr>pm_PMTU_B = 0, pm_PMTUProbeSize_B = 0, pm_PMTUProbeCount = 0,
     pm_PMTUProbeResponse_B = 0, pm_PMTUProbeStep_B = 0, pm_nextPMTUProbe_us = 0\<rparr>"

record Counters =
  n_txPacketsCount :: u32
  n_txCount_B :: u32
  n_txCount_B_s :: u32
  n_txSpeed_B_s :: u32
  n_rxPacketNumberReceived :: u32
  n_rxPacketNumberProcessed :: u32
  n_rxPacketNumberInWindowProcessed :: u32
  n_txPacketsWindowIdx :: u32
  n_rxPacketsWindowIdx :: u32
  n_rxPacketsCountReceived :: u32
  n_rxPacketsCountInWindow :: u32
  n_rxCount_B_s :: u32
  n_rxSpeed_B_s :: u32
  n_txPacketsLossSum_prc100 :: u32
  n_txPacketsLossSum_count :: u32
  n_rxPacketsLossInWindow_prc100 :: u16
  n_txPacketsLoss_prc :: rat
  n_rxPacketsLoss_prc :: rat

definition Counters_init :: Counters where
  "Counters_init = \<lparr>n_txPacketsCount = 0, n_txCount_B = 0, n_txCount_B_s = 0, n_txSpeed_B_s = 0,
     n_rxPacketNumberReceived = 0, n_rxPacketNumberProcessed = 0,
     n_rxPacketNumberInWindowProcessed = 0, n_txPacketsWindowIdx = 0, n_rxPacketsWindowIdx = 0,
     n_rxPacketsCountReceived = 0, n_rxPacketsCountInWindow = 0, n_rxCount_B_s = 0,
     n_rxSpeed_B_s = 0, n_txPacketsLossSum_prc100 = 0, n_txPacketsLossSum_count = 0,
     n_rxPacketsLossInWindow_prc100 = 0, n_txPacketsLoss_prc = 0, n_rxPacketsLoss_prc = 0\<rparr>"

record Rtt =
  r_RTTRequest :: u8
  r_RTTResponse :: u8
  r_RTTRequestTick_us :: tick
  r_RTTResponseTick_us :: tick

definition Rtt_init :: Rtt where
  "Rtt_init = \<lparr>r_RTTRequest = 0, r_RTTResponse = 0, r_RTTRequestTick_us = 0,
     r_RTTResponseTick_us = 0\<rparr>"

record Traffic =
  t_isRTTProbing :: bool
  t_RTTCount :: u8
  t_RTT_us :: u32
  t_minRTT_us :: u32
  t_nextMinRTT_us :: u32
  t_RTTSmooth_us :: SmoothModelHolt
  t_nextRTTProbe_us :: tick
  t_txLimit_B_s :: u32
  t_desiredTxLimit_B_s :: u32
  t_tooBigLoss :: bool
  t_tooBigRTT :: bool

definition Traffic_init :: Traffic where
  "Traffic_init = \<lparr>t_isRTTProbing = False, t_RTTCount = 0, t_RTT_us = 0,
     t_minRTT_us = UINT32_MAX, t_nextMinRTT_us = UINT32_MAX, t_RTTSmooth_us = SmoothModelHolt_init,
     t_nextRTTProbe_us = 0, t_txLimit_B_s = 0, t_desiredTxLimit_B_s = 125000000,
     t_tooBigLoss = False, t_tooBigRTT = False\<rparr>"

text \<open>The closures in \<open>commands\<close>, by the call that queues them. An \<open>onDelivered\<close> callback
  returns nothing, so only its presence matters.\<close>

datatype command =
    Cmd_setTxStreamPriority u8 Priority char
  | Cmd_send u64 bytes u64 bool u8 u32 tick
  | Cmd_setOnDelivered bool
  | Cmd_setOnReceived "on_received option"

record Connection =
  c_connectionId :: u64
  c_IPv4 :: u32
  c_port :: u16
  c_pmtu :: Pmtu
  c_cnt :: Counters
  c_rtt :: Rtt
  c_traffic :: Traffic
  c_next1Hz_us :: tick
  c_lastPacketTick_us :: tick
  c_nextKeepAliveTick_us :: tick
  c_nextEraseTick_us :: tick
  c_prevTick_us :: tick
  c_isDisconnectRequested :: bool
  c_onDelivered :: bool
  c_onReceived :: "on_received option"
  c_txBuffer :: bytes
  c_txStreams :: TxStreams
  c_rxStreams :: RxStreams
  c_commands :: "command list"

definition Connection_init :: Connection where
  "Connection_init = \<lparr>c_connectionId = 0, c_IPv4 = 0, c_port = 0, c_pmtu = Pmtu_init,
     c_cnt = Counters_init, c_rtt = Rtt_init, c_traffic = Traffic_init, c_next1Hz_us = 0,
     c_lastPacketTick_us = INT64_MAX, c_nextKeepAliveTick_us = 0, c_nextEraseTick_us = INT64_MAX,
     c_prevTick_us = 0, c_isDisconnectRequested = False, c_onDelivered = False,
     c_onReceived = None, c_txBuffer = [], c_txStreams = TxStreams_init,
     c_rxStreams = RxStreams_init, c_commands = []\<rparr>"

definition conn_isConnected :: "Connection \<Rightarrow> bool" where
  "conn_isConnected c \<longleftrightarrow> c_lastPacketTick_us c \<noteq> INT64_MAX"

text \<open>The constants of \<open>Connection.cpp\<close>.\<close>

abbreviation g_headerSize_IPv4_B :: u32 where "g_headerSize_IPv4_B \<equiv> 28"
abbreviation g_basePMTU_IPv4_B :: u32 where "g_basePMTU_IPv4_B \<equiv> 1172"
abbreviation g_txLimitDefault_B_s :: u32 where "g_txLimitDefault_B_s \<equiv> 262144"

definition partialReset :: "Connection \<Rightarrow> Connection" where
  "partialReset c = c\<lparr>
     c_nextKeepAliveTick_us := 0,
     c_pmtu := (c_pmtu c)\<lparr>pm_PMTU_B := g_basePMTU_IPv4_B, pm_nextPMTUProbe_us := 0,
       pm_PMTUProbeStep_B := 0, pm_PMTUProbeResponse_B := 0\<rparr>,
     c_cnt := (c_cnt c)\<lparr>n_rxPacketsLossInWindow_prc100 := 0\<rparr>,
     c_rtt := Rtt_init,
     c_traffic := (c_traffic c)\<lparr>t_RTT_us := 1000, t_nextMinRTT_us := UINT32_MAX,
       t_minRTT_us := UINT32_MAX,
       t_RTTSmooth_us := holt_init alpha_default alpha_default (t_RTTSmooth_us (c_traffic c)),
       t_txLimit_B_s := g_txLimitDefault_B_s\<rparr>,
     c_next1Hz_us := 0, c_prevTick_us := 0\<rparr>"

subsection \<open>The command queue\<close>

text \<open>\<open>setTxStreamPriority_ts\<close> and \<open>send_ts\<close>; \<open>c = None\<close> is the null connection and
  \<open>data = None\<close> the null pointer.\<close>

definition setTxStreamPriority_ts :: "u8 \<Rightarrow> char \<Rightarrow> Connection \<Rightarrow> Connection" where
  "setTxStreamPriority_ts txStreamId priority c =
     (case priority_of_char priority of
        None \<Rightarrow> c
      | Some newPriority \<Rightarrow>
          c\<lparr>c_commands := c_commands c @ [Cmd_setTxStreamPriority txStreamId newPriority priority]\<rparr>)"

definition send_ts ::
  "u64 \<Rightarrow> bytes option \<Rightarrow> u64 \<Rightarrow> bool \<Rightarrow> u8 \<Rightarrow> u32 \<Rightarrow> tick \<Rightarrow> Connection option
   \<Rightarrow> bool \<times> Connection option" where
  "send_ts ctx data size_B copy streamId timeout_ms now_us c =
     (case c of None \<Rightarrow> (False, None) | Some c' \<Rightarrow>
      (case data of None \<Rightarrow> (False, c) | Some bytes \<Rightarrow>
       if size_B = 0 then (False, c)
       else if timeout_ms < 10 then (False, c)
       else (True, Some (c'\<lparr>c_commands := c_commands c'
              @ [Cmd_send ctx bytes size_B copy streamId timeout_ms now_us]\<rparr>))))"

definition setOnDelivered :: "bool \<Rightarrow> Connection \<Rightarrow> Connection" where
  "setOnDelivered on c = c\<lparr>c_commands := c_commands c @ [Cmd_setOnDelivered on]\<rparr>"

definition setOnReceived :: "on_received option \<Rightarrow> Connection \<Rightarrow> Connection" where
  "setOnReceived on c = c\<lparr>c_commands := c_commands c @ [Cmd_setOnReceived on]\<rparr>"

definition run_command :: "command \<Rightarrow> Connection \<Rightarrow> Connection" where
  "run_command cmd c =
     (case cmd of
        Cmd_setTxStreamPriority k newPriority priority \<Rightarrow>
          c\<lparr>c_txStreams := run_setTxStreamPriority k newPriority priority (c_txStreams c)\<rparr>
      | Cmd_send ctx data size_B copy k timeout_ms now_us \<Rightarrow>
          c\<lparr>c_txStreams := run_send ctx data size_B copy k timeout_ms now_us (c_txStreams c)\<rparr>
      | Cmd_setOnDelivered on \<Rightarrow> c\<lparr>c_onDelivered := on\<rparr>
      | Cmd_setOnReceived on \<Rightarrow> c\<lparr>c_onReceived := on\<rparr>)"

lemma run_command_commands [simp]: "c_commands (run_command cmd c) = c_commands c"
  by (simp add: run_command_def split: command.split)

function doCommands :: "Connection \<Rightarrow> Connection" where
  "doCommands c =
     (case c_commands c of
        [] \<Rightarrow> c
      | cmd # _ \<Rightarrow> let c = run_command cmd c in doCommands (c\<lparr>c_commands := tl (c_commands c)\<rparr>))"
  by pat_completeness auto
termination
  by (relation "measure (\<lambda>c. length (c_commands c))") auto

declare doCommands.simps [simp del]

subsection \<open>onDisconnected\<close>

definition disconnect_tx :: "(u8 \<times> TxStream) list \<Rightarrow> event list" where
  "disconnect_tx m = concat (map (\<lambda>(k, s).
     map (\<lambda>p. Delivered (tp_context p) (tp_pointer p) (tp_size_B p) k CHR ''d'')
       (filter (\<lambda>p. \<not> tp_isAcknowledged p) (ts_fifo s))) m)"

definition disconnect_rx :: "(u8 \<times> RxStream) list \<Rightarrow> event list" where
  "disconnect_rx m = concat (map (\<lambda>(k, s).
     map (\<lambda>p. Received (rp_context p) None (rp_size_B p) (rp_offset_B p) k CHR ''d'')
       (filter (\<lambda>p. \<not> rp_isReceived p) (rs_fifo s))) m)"

definition conn_onDisconnected :: "Connection \<Rightarrow> Connection \<times> event list" where
  "conn_onDisconnected c =
     (c\<lparr>c_commands := [], c_connectionId := 0,
        c_txStreams := (c_txStreams c)\<lparr>txs_map := [], txs_isStreamsChanged := True,
          txs_vec := (\<lambda>p. (txs_vec (c_txStreams c) p)\<lparr>pm_countSent_B := 0\<rparr>)\<rparr>,
        c_rxStreams := (c_rxStreams c)\<lparr>rxs_acks := [], rxs_map := [], rxs_isStreamsChanged := True\<rparr>\<rparr>,
      (if c_onDelivered c then disconnect_tx (txs_map (c_txStreams c)) else [])
      @ (if c_onReceived c \<noteq> None then disconnect_rx (rxs_map (c_rxStreams c)) else []))"

end
