(* ===== verification/Udsp_Write.thy ===== *)
theory Udsp_Write
  imports Udsp_Connection
begin

text \<open>
  Writing chunks: \<open>writeMetaChunk\<close> (acknowledgements and repeat requests), \<open>writeDataChunk\<close>
  (the packet scheduler and the three data chunks) and \<open>writeChunk\<close> of \<open>Stream.cpp\<close>. A writer
  gets the number of bytes available and returns how many it wrote, the bytes, the new state and
  the callbacks it made. \<open>None\<close> means that it would read outside the packet's data, follow a
  dangling stream pointer or divide by zero; what the theorems below show is that it does not.
\<close>

abbreviation g_chunkHeader_B :: nat where "g_chunkHeader_B \<equiv> 6"

type_synonym 's written = "(nat \<times> bytes \<times> 's \<times> event list) option"

definition chunk_header :: "u8 \<Rightarrow> u8 \<Rightarrow> u32 \<Rightarrow> bytes" where
  "chunk_header chunkId streamId packetId = write_u8 chunkId @ write_u8 streamId @ write_u32 packetId"

lemma length_chunk_header [simp, wire_simps]: "length (chunk_header a b c) = g_chunkHeader_B"
  by (simp add: chunk_header_def)

subsection \<open>writeMetaChunk\<close>

text \<open>The repeat request for a packet: its size and its bytes.\<close>

definition repeat_chunk :: "u8 \<Rightarrow> RxPacket \<Rightarrow> nat \<times> bytes" where
  "repeat_chunk streamId p =
     (let offsetBits = getNumberOfBits (rp_offsetRepeat_B p); sizeBits = getNumberOfBits (rp_sizeRepeat_B p)
      in (g_chunkHeader_B + getNumberOfBytes offsetBits + getNumberOfBytes sizeBits,
          chunk_header (mk_repeatInfo offsetBits sizeBits) streamId (rp_id p)
          @ write_by_bits offsetBits (rp_offsetRepeat_B p) @ write_by_bits sizeBits (rp_sizeRepeat_B p)))"

text \<open>The inner loop over the packets of one stream, \<open>n\<close> rounds of it: nothing found, or what
  \<open>writeMetaChunk\<close> returns.\<close>

datatype scan_result = Nothing | Chunk nat bytes

primrec scan_repeat :: "nat \<Rightarrow> u32 \<Rightarrow> u32 \<Rightarrow> RxStream \<Rightarrow> (scan_result \<times> RxStream) option" where
  "scan_repeat 0 txPacketsCount available_B s = Some (Nothing, s)"
| "scan_repeat (Suc n) txPacketsCount available_B s =
     (case rx_next s of None \<Rightarrow> None
      | Some (i, s) \<Rightarrow>
          (let p = rs_fifo s ! i in
           if rp_datagramId p = ucast txPacketsCount then Some (Nothing, s)
           else if needToSendRepeatInfo p then
             (let (chunkSize_B, bs) = repeat_chunk (rs_id s) p in
              if unat available_B < chunkSize_B then Some (Chunk 0 [], s)
              else Some (Chunk chunkSize_B bs, s\<lparr>rs_fifo := (rs_fifo s)[i :=
                     p\<lparr>rp_offsetRepeat_B := UINT64_MAX, rp_datagramId := ucast txPacketsCount\<rparr>]\<rparr>))
           else scan_repeat n txPacketsCount available_B s))"

text \<open>The outer loop over the streams, \<open>n\<close> rounds of it.\<close>

primrec scan_rx_streams ::
  "nat \<Rightarrow> on_received option \<Rightarrow> tick \<Rightarrow> u32 \<Rightarrow> u32 \<Rightarrow> RxStreams \<Rightarrow> RxStreams written" where
  "scan_rx_streams 0 onReceived now_us txPacketsCount available_B r = Some (0, [], r, [])"
| "scan_rx_streams (Suc n) onReceived now_us txPacketsCount available_B r =
     (let r = rx_streams_next r in
      if length (rxs_map r) \<le> rxs_streamIt r then None
      else let (k, s) = rxs_map r ! rxs_streamIt r;
               (s, evs) = processRxFifo onReceived now_us s
           in case scan_repeat (length (rs_fifo s)) txPacketsCount available_B s of
                None \<Rightarrow> None
              | Some (Chunk w bs, s) \<Rightarrow> Some (w, bs, put_rx_stream k s r, evs)
              | Some (Nothing, s) \<Rightarrow>
                  map_option (\<lambda>(w, bs, r, evs'). (w, bs, r, evs @ evs'))
                    (scan_rx_streams n onReceived now_us txPacketsCount available_B (put_rx_stream k s r)))"

definition meta_chunk ::
  "on_received option \<Rightarrow> tick \<Rightarrow> u32 \<Rightarrow> u32 \<Rightarrow> RxStreams \<Rightarrow> RxStreams written" where
  "meta_chunk onReceived now_us txPacketsCount available_B r =
     (case rxs_acks r of
        (streamId, packetId) # acks \<Rightarrow>
          if unat available_B < g_chunkHeader_B then Some (0, [], r, [])
          else Some (g_chunkHeader_B, chunk_header (mk_smallPacket True True False B8) streamId packetId,
                     r\<lparr>rxs_acks := acks\<rparr>, [])
      | [] \<Rightarrow> scan_rx_streams (length (rxs_map r)) onReceived now_us txPacketsCount available_B r)"

definition writeMetaChunk :: "tick \<Rightarrow> u32 \<Rightarrow> Connection \<Rightarrow> Connection written" where
  "writeMetaChunk now_us available_B c =
     map_option (\<lambda>(w, bs, r, evs). (w, bs, c\<lparr>c_rxStreams := r\<rparr>, evs))
       (meta_chunk (c_onReceived c) now_us (n_txPacketsCount (c_cnt c)) available_B (c_rxStreams c))"

subsection \<open>The scheduler\<close>

text \<open>\<open>RTT_us * 2\<close> in 32-bit arithmetic.\<close>

definition rtt2 :: "u32 \<Rightarrow> tick" where
  "rtt2 RTT_us = int (unat (RTT_us * 2))"

definition skip_packet :: "tick \<Rightarrow> u32 \<Rightarrow> u32 \<Rightarrow> TxPacket \<Rightarrow> bool" where
  "skip_packet now_us RTT_us txPacketsCount p \<longleftrightarrow>
     tp_isAcknowledged p \<or> tp_timeout_us p \<le> now_us \<or> tp_datagramId p = ucast txPacketsCount
     \<or> \<not> tp_isStarted p \<and> now_us < tp_begin_us p + rtt2 RTT_us"

text \<open>The loop over the packets of one stream, \<open>n\<close> rounds of it; \<open>True\<close> when it stops at a
  packet to send, which is then the one at \<open>packetFifoIdx\<close>.\<close>

primrec scan_tx_fifo :: "nat \<Rightarrow> tick \<Rightarrow> u32 \<Rightarrow> u32 \<Rightarrow> TxStream \<Rightarrow> TxStream \<times> bool" where
  "scan_tx_fifo 0 now_us RTT_us txPacketsCount s = (s, False)"
| "scan_tx_fifo (Suc n) now_us RTT_us txPacketsCount s =
     (let s = (if ts_fifoReturnTime_us s + rtt2 RTT_us < now_us
               then s\<lparr>ts_fifoReturnTime_us := now_us + rtt2 RTT_us, ts_packetFifoIdx := 0\<rparr> else s)
      in if 2 ^ 17 < ts_packetFifoIdx s then (s, False)
         else if length (ts_fifo s) \<le> ts_packetFifoIdx s then (s, False)
         else if skip_packet now_us RTT_us txPacketsCount (ts_fifo s ! ts_packetFifoIdx s)
         then scan_tx_fifo n now_us RTT_us txPacketsCount
                (s\<lparr>ts_packetFifoIdx := Suc (ts_packetFifoIdx s)\<rparr>)
         else (s, True))"

text \<open>The loop over the streams of one priority, \<open>n\<close> rounds of it: the key of the stream with a
  packet to send.\<close>

primrec scan_priority ::
  "nat \<Rightarrow> u8 list \<Rightarrow> nat \<Rightarrow> bool \<Rightarrow> tick \<Rightarrow> u32 \<Rightarrow> u32 \<Rightarrow> TxStreams
   \<Rightarrow> (u8 option \<times> TxStreams \<times> event list) option" where
  "scan_priority 0 vec vecIdx onDelivered now_us RTT_us txPacketsCount t = Some (None, t, [])"
| "scan_priority (Suc n) vec vecIdx onDelivered now_us RTT_us txPacketsCount t =
     (let vecIdx = (if length vec \<le> vecIdx then 0 else vecIdx); k = vec ! vecIdx in
      case map_of (txs_map t) k of None \<Rightarrow> None
      | Some s \<Rightarrow>
          (let (s, evs) = processTxFifo onDelivered now_us s;
               (s, found) = scan_tx_fifo (length (ts_fifo s)) now_us RTT_us txPacketsCount s;
               t = put_tx_stream k s t
           in if found then Some (Some k, t, evs)
              else map_option (\<lambda>(sel, t, evs'). (sel, t, evs @ evs'))
                (scan_priority n vec (Suc vecIdx) onDelivered now_us RTT_us txPacketsCount t)))"

text \<open>The loop over the priorities: \<open>streamByPriority\<close>.\<close>

fun scan_priorities ::
  "Priority list \<Rightarrow> bool \<Rightarrow> tick \<Rightarrow> u32 \<Rightarrow> u32 \<Rightarrow> TxStreams
   \<Rightarrow> ((Priority \<Rightarrow> u8 option) \<times> TxStreams \<times> event list) option" where
  "scan_priorities [] onDelivered now_us RTT_us txPacketsCount t = Some (\<lambda>_. None, t, [])"
| "scan_priorities (p # ps) onDelivered now_us RTT_us txPacketsCount t =
     (let meta = txs_vec t p in
      case scan_priority (length (pm_vec meta)) (pm_vec meta) (pm_vecIdx meta) onDelivered now_us
             RTT_us txPacketsCount t of
        None \<Rightarrow> None
      | Some (sel, t, evs) \<Rightarrow>
          map_option (\<lambda>(sels, t, evs'). (sels(p := sel), t, evs @ evs'))
            (scan_priorities ps onDelivered now_us RTT_us txPacketsCount t))"

abbreviation all_priorities :: "Priority list" where
  "all_priorities \<equiv> [Realtime, High, Medium, Low]"

text \<open>\<open>count * 100 / total\<close> in 32-bit arithmetic; \<open>None\<close> for a division by zero.\<close>

definition share :: "u32 \<Rightarrow> u32 \<Rightarrow> u32 option" where
  "share count raw = (if raw = 0 then None else Some (count * 100 div raw))"

text \<open>The array \<open>priorities\<close>: the priorities that have a packet, in turn, \<open>n\<close> of them from
  \<open>p\<close> on.\<close>

primrec cycle_priorities :: "(Priority \<Rightarrow> bool) \<Rightarrow> nat \<Rightarrow> nat \<Rightarrow> Priority list" where
  "cycle_priorities has 0 p = []"
| "cycle_priorities has (Suc n) p =
     (case find (\<lambda>i. has (all_priorities ! i)) ([p ..< 4] @ [0 ..< 4]) of
        None \<Rightarrow> []
      | Some i \<Rightarrow> all_priorities ! i # cycle_priorities has n (Suc i))"

definition choose_priority ::
  "(Priority \<Rightarrow> bool) \<Rightarrow> (Priority \<Rightarrow> u32) \<Rightarrow> tick \<Rightarrow> Priority option" where
  "choose_priority has sent now_us =
     (let totalNonRT = sent High + sent Medium + sent Low + 1;
          totalAll = sent Realtime + sent High + sent Medium + sent Low + 1 in
      if has Realtime then do {
        x \<leftarrow> share (sent Realtime) totalAll;
        Some (if x < 98 then Realtime
              else cycle_priorities has 4 0 ! unat (((of_int now_us :: u64) * 48271) AND 3))
      }
      else if has High then
        (if has Medium then
           (if has Low then do {
              x \<leftarrow> share (sent High) totalNonRT;
              if x < 80 then Some High
              else do { y \<leftarrow> share (sent Medium) totalNonRT; Some (if y < 16 then Medium else Low) }
            }
            else do { x \<leftarrow> share (sent High) totalNonRT; Some (if x < 84 then High else Medium) })
         else
           (if has Low then do {
              x \<leftarrow> share (sent High) totalNonRT; Some (if x < 95 then High else Low)
            }
            else Some High))
      else
        (if has Medium then
           (if has Low then do {
              x \<leftarrow> share (sent Medium) totalNonRT; Some (if x < 80 then Medium else Low)
            }
            else Some Medium)
         else (if has Low then Some Low else Some NoPriority)))"

subsection \<open>writeDataChunk\<close>

text \<open>\<open>++priorityMeta.vecIdx\<close> and \<open>countSent_B += n\<close>.\<close>

definition next_vecIdx :: "Priority \<Rightarrow> TxStreams \<Rightarrow> TxStreams" where
  "next_vecIdx p t =
     (let meta = txs_vec t p; i = Suc (pm_vecIdx meta) in
      t\<lparr>txs_vec := (txs_vec t)(p := meta\<lparr>pm_vecIdx := (if length (pm_vec meta) \<le> i then 0 else i)\<rparr>)\<rparr>)"

definition add_sent :: "Priority \<Rightarrow> nat \<Rightarrow> TxStreams \<Rightarrow> TxStreams" where
  "add_sent p n t = t\<lparr>txs_vec := (txs_vec t)(p :=
     (txs_vec t p)\<lparr>pm_countSent_B := pm_countSent_B (txs_vec t p) + of_nat n\<rparr>)\<rparr>"

definition set_packet :: "nat \<Rightarrow> TxPacket \<Rightarrow> TxStream \<Rightarrow> TxStream" where
  "set_packet i p s = s\<lparr>ts_fifo := (ts_fifo s)[i := p]\<rparr>"

text \<open>The packet goes out whole. An unreliable one is done: it is removed when it is at the
  front, and the store to its \<open>begin_us\<close> that follows is then undefined behaviour.\<close>

definition small_packet_bytes :: "TxStream \<Rightarrow> TxPacket \<Rightarrow> bytes option" where
  "small_packet_bytes s p =
     (let bits = getNumberOfBits (tp_size_B p) in
      map_option (\<lambda>data. chunk_header (mk_smallPacket False (tp_isReliable p) (ts_packetFifoIdx s = 0) bits)
            (ts_id s) (tp_id p) @ write_by_bits bits (tp_size_B p) @ data)
        (write_data (tp_pointer p) (unat (tp_size_B p))))"

definition sent_small :: "bool \<Rightarrow> tick \<Rightarrow> u32 \<Rightarrow> TxStream \<Rightarrow> (TxStream \<times> event list) option" where
  "sent_small onDelivered now_us txPacketsCount s =
     (let i = ts_packetFifoIdx s; p = ts_fifo s ! i in
      if \<not> tp_isReliable p then
        (let (s', evs) = processTxFifo onDelivered now_us (set_packet i (p\<lparr>tp_isAcknowledged := True\<rparr>) s);
             gone = length (ts_fifo s) - length (ts_fifo s')
         in if i < gone then None
            else Some (set_packet (i - gone) ((ts_fifo s' ! (i - gone))\<lparr>tp_begin_us := now_us\<rparr>) s', evs))
      else Some (set_packet i (p\<lparr>tp_datagramId := ucast txPacketsCount, tp_begin_us := now_us\<rparr>) s, []))"

definition write_small ::
  "bool \<Rightarrow> tick \<Rightarrow> u32 \<Rightarrow> Priority \<Rightarrow> u8 \<Rightarrow> TxStream \<Rightarrow> TxStreams \<Rightarrow> TxStreams written" where
  "write_small onDelivered now_us txPacketsCount priority k s t =
     (let p = ts_fifo s ! ts_packetFifoIdx s; bits = getNumberOfBits (tp_size_B p);
          smallPacket_B = g_chunkHeader_B + getNumberOfBytes bits + unat (tp_size_B p) in
      if bits = B8 \<or> bits = B16 then
        (case small_packet_bytes s p of None \<Rightarrow> None
         | Some bs \<Rightarrow>
             map_option (\<lambda>(s', evs). (smallPacket_B, bs, add_sent priority smallPacket_B (put_tx_stream k s' t), evs))
               (sent_small onDelivered now_us txPacketsCount s))
      else Some (0, [], t, []))"

definition write_begin :: "tick \<Rightarrow> Priority \<Rightarrow> u8 \<Rightarrow> TxStream \<Rightarrow> TxStreams \<Rightarrow> TxStreams written" where
  "write_begin now_us priority k s t =
     (let i = ts_packetFifoIdx s; p = ts_fifo s ! i; bits = getNumberOfBits (tp_size_B p);
          beginOfPacket_B = g_chunkHeader_B + getNumberOfBytes bits + 4
      in Some (beginOfPacket_B,
           chunk_header (mk_beginOfPacket (tp_isReliable p) (i = 0) bits) (ts_id s) (tp_id p)
             @ write_by_bits bits (tp_size_B p) @ write_u32 (0 :: u32),
           add_sent priority beginOfPacket_B (put_tx_stream k
             (set_packet i (p\<lparr>tp_isStarted := True, tp_begin_us := now_us\<rparr>) s) t), []))"

text \<open>The next piece of a packet that has been started.\<close>

definition sent_piece ::
  "bool \<Rightarrow> tick \<Rightarrow> u32 \<Rightarrow> nat \<Rightarrow> TxStream \<Rightarrow> TxStream \<times> event list" where
  "sent_piece onDelivered now_us txPacketsCount pieceSize_B s =
     (let i = ts_packetFifoIdx s;
          p = (ts_fifo s ! i)\<lparr>tp_offset_B := tp_offset_B (ts_fifo s ! i) + of_nat pieceSize_B\<rparr> in
      if \<not> tp_isReliable p \<and> tp_size_B p \<le> tp_offset_B p
      then processTxFifo onDelivered now_us (set_packet i (p\<lparr>tp_isAcknowledged := True\<rparr>) s)
      else let p = (if tp_size_B p \<le> tp_offset_B p then p\<lparr>tp_offset_B := 0, tp_isStarted := False\<rparr>
                    else p\<lparr>tp_isStarted := True\<rparr>)
           in (set_packet i (p\<lparr>tp_datagramId := ucast txPacketsCount\<rparr>) s, []))"

definition write_piece ::
  "bool \<Rightarrow> tick \<Rightarrow> u32 \<Rightarrow> u32 \<Rightarrow> Priority \<Rightarrow> u8 \<Rightarrow> TxStream \<Rightarrow> TxStreams \<Rightarrow> TxStreams written" where
  "write_piece onDelivered now_us txPacketsCount available_B priority k s t =
     (let i = ts_packetFifoIdx s; p = ts_fifo s ! i;
          offsetBits = getNumberOfBits (tp_offset_B p);
          maxFor1B_B = g_chunkHeader_B + getNumberOfBytes offsetBits + 2 + 1 in
      if unat available_B < maxFor1B_B then Some (0, [], t, [])
      else let pieceSize_B = min (unat available_B - maxFor1B_B + 1) (unat (tp_size_B p - tp_offset_B p));
               pieceBits = getNumberOfBits (of_nat pieceSize_B);
               pieceOfPacket_B = g_chunkHeader_B + getNumberOfBytes offsetBits
                 + getNumberOfBytes pieceBits + pieceSize_B in
        if pieceBits = B8 \<or> pieceBits = B16 then
          (case mem_read (tp_pointer p) (unat (tp_offset_B p)) pieceSize_B of
             None \<Rightarrow> None
           | Some data \<Rightarrow>
               (let (s', evs) = sent_piece onDelivered now_us txPacketsCount pieceSize_B s
                in Some (pieceOfPacket_B,
                     chunk_header (mk_pieceOfPacket (tp_isReliable p) (i = 0) offsetBits pieceBits)
                         (ts_id s) (tp_id p)
                       @ write_by_bits offsetBits (tp_offset_B p)
                       @ write_by_bits pieceBits (of_nat pieceSize_B) @ data,
                     add_sent priority pieceOfPacket_B (put_tx_stream k s' t), evs)))
        else Some (0, [], t, []))"

text \<open>The chunk for the packet at \<open>packetFifoIdx\<close> of the chosen stream. \<open>smallPacket_B\<close> is a
  64-bit sum.\<close>

definition write_selected ::
  "bool \<Rightarrow> tick \<Rightarrow> u32 \<Rightarrow> u32 \<Rightarrow> Priority \<Rightarrow> u8 \<Rightarrow> TxStream \<Rightarrow> TxStreams \<Rightarrow> TxStreams written" where
  "write_selected onDelivered now_us txPacketsCount available_B priority k s t =
     (let p = ts_fifo s ! ts_packetFifoIdx s;
          packetSizeBytes_B = getNumberOfBytes (getNumberOfBits (tp_size_B p)) in
      if \<not> tp_isStarted p then
        (if of_nat (g_chunkHeader_B + packetSizeBytes_B) + tp_size_B p \<le> (ucast available_B :: u64)
         then write_small onDelivered now_us txPacketsCount priority k s t
         else if g_chunkHeader_B + packetSizeBytes_B + 4 \<le> unat available_B
         then write_begin now_us priority k s t
         else Some (0, [], t, []))
      else write_piece onDelivered now_us txPacketsCount available_B priority k s t)"

definition data_chunk ::
  "bool \<Rightarrow> tick \<Rightarrow> u32 \<Rightarrow> u32 \<Rightarrow> u32 \<Rightarrow> TxStreams \<Rightarrow> TxStreams written" where
  "data_chunk onDelivered now_us RTT_us txPacketsCount available_B t =
     (if unat available_B \<le> g_chunkHeader_B then Some (0, [], t, [])
      else case scan_priorities all_priorities onDelivered now_us RTT_us txPacketsCount
                  (update_streams t) of
        None \<Rightarrow> None
      | Some (sel, t, evs) \<Rightarrow>
          (case choose_priority (\<lambda>p. sel p \<noteq> None) (\<lambda>p. pm_countSent_B (txs_vec t p)) now_us of
             None \<Rightarrow> None
           | Some priority \<Rightarrow>
               if priority = NoPriority then Some (0, [], t, evs)
               else (case sel priority of None \<Rightarrow> None
                     | Some k \<Rightarrow>
                         (case map_of (txs_map t) k of None \<Rightarrow> None
                          | Some s \<Rightarrow>
                              map_option (\<lambda>(w, bs, t, evs'). (w, bs, t, evs @ evs'))
                                (write_selected onDelivered now_us txPacketsCount available_B priority k s
                                   (next_vecIdx priority t))))))"

definition writeDataChunk :: "tick \<Rightarrow> u32 \<Rightarrow> Connection \<Rightarrow> Connection written" where
  "writeDataChunk now_us available_B c =
     map_option (\<lambda>(w, bs, t, evs). (w, bs, c\<lparr>c_txStreams := t\<rparr>, evs))
       (data_chunk (c_onDelivered c) now_us (t_RTT_us (c_traffic c)) (n_txPacketsCount (c_cnt c))
          available_B (c_txStreams c))"

definition writeChunk :: "tick \<Rightarrow> u32 \<Rightarrow> Connection \<Rightarrow> Connection written" where
  "writeChunk now_us available_B c =
     (case writeMetaChunk now_us available_B c of
        None \<Rightarrow> None
      | Some (w, bs, c, evs) \<Rightarrow>
          if w \<noteq> 0 then Some (w, bs, c, evs)
          else map_option (\<lambda>(w, bs, c, evs'). (w, bs, c, evs @ evs')) (writeDataChunk now_us available_B c))"

subsection \<open>What the scheduler chooses\<close>

lemma find_SomeD: "find P xs = Some x \<Longrightarrow> x \<in> set xs \<and> P x"
  by (induction xs) (auto split: if_splits)

lemma cycle_priorities_has:
  assumes "has Realtime"
  shows "length (cycle_priorities has n p) = n \<and> (\<forall>q \<in> set (cycle_priorities has n p). has q \<and> q \<noteq> NoPriority)"
proof (induction n arbitrary: p)
  case 0
  then show ?case by simp
next
  case (Suc n)
  have "find (\<lambda>i. has (all_priorities ! i)) ([p ..< 4] @ [0 ..< 4]) \<noteq> None"
    using assms by (auto simp: find_None_iff intro!: exI [of _ 0])
  then obtain i where i: "find (\<lambda>i. has (all_priorities ! i)) ([p ..< 4] @ [0 ..< 4]) = Some i"
    by blast
  then have "i < 4" "has (all_priorities ! i)" using find_SomeD [OF i] by auto
  moreover from \<open>i < 4\<close> have "all_priorities ! i \<noteq> NoPriority"
    by (auto simp: less_Suc_eq numeral_eq_Suc)
  ultimately show ?case using Suc [of "Suc i"] i by simp
qed

lemma and_3_less: "unat ((x :: u64) AND 3) < 4"
proof -
  have "x AND 3 = take_bit 2 x" by (simp add: take_bit_eq_mask mask_eq_exp_minus_1)
  then show ?thesis by (simp only: unsigned_take_bit_eq) (simp add: take_bit_eq_mod)
qed

lemma choose_priority_has:
  assumes "choose_priority has sent now_us = Some p"
  shows "if p = NoPriority then (\<forall>q \<in> set all_priorities. \<not> has q) else has p"
proof (cases "has Realtime")
  case True
  let ?i = "unat (((of_int now_us :: u64) * 48271) AND 3)"
  have "cycle_priorities has 4 0 ! ?i \<in> set (cycle_priorities has 4 0)"
    using cycle_priorities_has [of has, OF True, of 4 0] and_3_less by (metis nth_mem)
  then have "has (cycle_priorities has 4 0 ! ?i)" "cycle_priorities has 4 0 ! ?i \<noteq> NoPriority"
    using cycle_priorities_has [of has, OF True, of 4 0] by auto
  with True assms show ?thesis
    by (auto simp: choose_priority_def Let_def split: if_splits bind_splits)
next
  case False
  with assms show ?thesis
    by (auto simp: choose_priority_def Let_def split: if_splits bind_splits)
qed

text \<open>It only fails when a sum of counters wraps around to zero.\<close>

lemma choose_priority_defined:
  assumes "sent High + sent Medium + sent Low + 1 \<noteq> 0"
    "sent Realtime + sent High + sent Medium + sent Low + 1 \<noteq> 0"
  shows "choose_priority has sent now_us \<noteq> None"
  using assms by (simp add: choose_priority_def share_def Let_def)

subsection \<open>What the scan selects\<close>

lemma scan_tx_fifo_frame [simp]:
  "ts_fifo (fst (scan_tx_fifo n now_us RTT_us m s)) = ts_fifo s"
  "ts_fifoShadow (fst (scan_tx_fifo n now_us RTT_us m s)) = ts_fifoShadow s"
  "ts_id (fst (scan_tx_fifo n now_us RTT_us m s)) = ts_id s"
  "ts_isNew (fst (scan_tx_fifo n now_us RTT_us m s)) = ts_isNew s"
  "ts_priority (fst (scan_tx_fifo n now_us RTT_us m s)) = ts_priority s"
  "ts_nextPacketId (fst (scan_tx_fifo n now_us RTT_us m s)) = ts_nextPacketId s"
  "ts_isReliable (fst (scan_tx_fifo n now_us RTT_us m s)) = ts_isReliable s"
  by (induction n arbitrary: s) (simp_all add: Let_def)

lemma scan_tx_fifo_ok [tx_inv_intros]:
  "tx_ok s \<Longrightarrow> tx_ok (fst (scan_tx_fifo n now_us RTT_us m s))"
  "tx_safe s \<Longrightarrow> tx_safe (fst (scan_tx_fifo n now_us RTT_us m s))"
  by (auto simp: tx_ok_def tx_safe_def)

definition sendable :: "tick \<Rightarrow> u32 \<Rightarrow> u32 \<Rightarrow> TxStream \<Rightarrow> bool" where
  "sendable now_us RTT_us m s \<longleftrightarrow> ts_packetFifoIdx s < length (ts_fifo s) \<and> ts_packetFifoIdx s \<le> 2 ^ 17
     \<and> \<not> skip_packet now_us RTT_us m (ts_fifo s ! ts_packetFifoIdx s)"

lemma scan_tx_fifo_found:
  "snd (scan_tx_fifo n now_us RTT_us m s) \<Longrightarrow> sendable now_us RTT_us m (fst (scan_tx_fifo n now_us RTT_us m s))"
proof (induction n arbitrary: s)
  case (Suc n)
  then show ?case
    by (auto simp: Let_def not_less not_le split: if_splits) (auto simp: sendable_def)
qed simp

text \<open>The invariant while the streams are scanned: the lists of \<open>update\<close> are current.\<close>

definition scan_inv :: "TxStreams \<Rightarrow> bool" where
  "scan_inv t \<longleftrightarrow> txs_ok t \<and> \<not> txs_isStreamsChanged t"

definition txs_safe :: "TxStreams \<Rightarrow> bool" where
  "txs_safe t \<longleftrightarrow> (\<forall>k s. map_of (txs_map t) k = Some s \<longrightarrow> tx_safe s)"

lemma txs_safe_put [tx_inv_intros]:
  "txs_safe t \<Longrightarrow> tx_safe s \<Longrightarrow> txs_safe (put_tx_stream k s t)"
  by (simp add: txs_safe_def)

text \<open>One visited stream.\<close>

definition visit :: "bool \<Rightarrow> tick \<Rightarrow> u32 \<Rightarrow> u32 \<Rightarrow> TxStream \<Rightarrow> TxStream" where
  "visit onDelivered now_us RTT_us m s =
     (let s = fst (processTxFifo onDelivered now_us s)
      in fst (scan_tx_fifo (length (ts_fifo s)) now_us RTT_us m s))"

lemma processTxFifo_frame [simp]:
  "ts_id (fst (processTxFifo d now s)) = ts_id s"
  "ts_isNew (fst (processTxFifo d now s)) = ts_isNew s"
  "ts_priority (fst (processTxFifo d now s)) = ts_priority s"
  "ts_nextPacketId (fst (processTxFifo d now s)) = ts_nextPacketId s"
  "ts_isReliable (fst (processTxFifo d now s)) = ts_isReliable s"
  by (simp_all add: processTxFifo_eq Let_def)

lemma visit_frame [simp]:
  "ts_id (visit d now r m s) = ts_id s" "ts_isNew (visit d now r m s) = ts_isNew s"
  "ts_priority (visit d now r m s) = ts_priority s"
  by (simp_all add: visit_def Let_def)

lemma visit_ok [tx_inv_intros]:
  "tx_ok s \<Longrightarrow> tx_ok (visit d now r m s)" "tx_safe s \<Longrightarrow> tx_safe (visit d now r m s)"
  by (simp_all add: visit_def Let_def tx_inv_intros)

lemma scan_inv_put:
  assumes "scan_inv t" "map_of (txs_map t) k = Some s0" "tx_ok s" "ts_id s = ts_id s0"
    "ts_isNew s = ts_isNew s0" "ts_priority s = ts_priority s0"
  shows "scan_inv (put_tx_stream k s t)"
  using assms txs_ok_replace [of t k s0 s] by (simp add: scan_inv_def)

text \<open>What scanning the streams of the priorities \<open>ps\<close> may change.\<close>

definition scan_frame :: "Priority set \<Rightarrow> TxStreams \<Rightarrow> TxStreams \<Rightarrow> bool" where
  "scan_frame ps t t' \<longleftrightarrow> scan_inv t' \<and> txs_vec t' = txs_vec t
     \<and> (\<forall>k s. map_of (txs_map t) k = Some s \<longrightarrow> ts_priority s \<notin> ps \<longrightarrow> map_of (txs_map t') k = Some s)
     \<and> (txs_safe t \<longrightarrow> txs_safe t')
     \<and> (\<forall>q. keys_of q (txs_map t') = keys_of q (txs_map t))"

lemma scan_frame_refl: "scan_inv t \<Longrightarrow> scan_frame ps t t"
  by (simp add: scan_frame_def)

lemma scan_frame_trans: "scan_frame ps t t' \<Longrightarrow> scan_frame ps t' t'' \<Longrightarrow> scan_frame ps t t''"
  by (auto simp: scan_frame_def)

lemma scan_frame_mono: "scan_frame ps t t' \<Longrightarrow> ps \<subseteq> qs \<Longrightarrow> scan_frame qs t t'"
  by (auto simp: scan_frame_def)

lemma scan_frame_visit:
  assumes "scan_inv t" "map_of (txs_map t) k = Some s"
  shows "scan_frame {ts_priority s} t (put_tx_stream k (visit d now r m s) t)"
proof -
  let ?s = "visit d now r m s" and ?t = "put_tx_stream k (visit d now r m s) t"
  have ok: "tx_ok s" using txs_ok_lookup [OF _ assms(2)] assms(1) by (auto simp: scan_inv_def)
  have "scan_inv ?t" using assms ok by (intro scan_inv_put) (auto intro: tx_inv_intros)
  moreover have "keys_of q (txs_map ?t) = keys_of q (txs_map t)" for q
    using keys_of_update [of "txs_map t" k s ?s q] assms
    by (simp add: scan_inv_def txs_ok_def put_tx_stream_def)
  moreover have "txs_safe t \<longrightarrow> txs_safe ?t"
    using assms(2) by (auto simp: txs_safe_def intro: tx_inv_intros)
  ultimately show ?thesis using assms(2) by (auto simp: scan_frame_def)
qed

definition selected :: "tick \<Rightarrow> u32 \<Rightarrow> u32 \<Rightarrow> Priority \<Rightarrow> u8 option \<Rightarrow> TxStreams \<Rightarrow> bool" where
  "selected now r m p sel t \<longleftrightarrow> (case sel of None \<Rightarrow> True | Some k \<Rightarrow>
     (\<exists>s. map_of (txs_map t) k = Some s \<and> ts_priority s = p \<and> sendable now r m s))"

lemma scan_priority_step:
  assumes "map_of (txs_map t) k = Some s" "k = vec ! (if length vec \<le> i then 0 else i)"
  shows "\<exists>evs. scan_priority (Suc n) vec i d now r m t =
     (if sendable now r m (visit d now r m s) \<and> snd (scan_tx_fifo (length (ts_fifo (fst (processTxFifo d now s)))) now r m
           (fst (processTxFifo d now s)))
      then Some (Some k, put_tx_stream k (visit d now r m s) t, evs)
      else map_option (\<lambda>(sel, t, evs'). (sel, t, evs @ evs'))
        (scan_priority n vec (Suc (if length vec \<le> i then 0 else i)) d now r m
           (put_tx_stream k (visit d now r m s) t)))"
proof -
  obtain s1 evs where p: "processTxFifo d now s = (s1, evs)" by fastforce
  obtain s2 f where f: "scan_tx_fifo (length (ts_fifo s1)) now r m s1 = (s2, f)" by fastforce
  have "visit d now r m s = s2" by (simp add: visit_def p f Let_def)
  moreover have "f \<Longrightarrow> sendable now r m s2"
    using scan_tx_fifo_found [of "length (ts_fifo s1)" now r m s1] by (simp add: f)
  ultimately show ?thesis
    using assms by (intro exI [of _ evs]) (auto simp: p f Let_def)
qed

text \<open>Scanning the streams of one priority finds a sendable packet or nothing, only touches
  streams of that priority, and keeps the invariants.\<close>

lemma scan_priority_spec:
  assumes "scan_inv t" "set vec \<subseteq> keys_of p (txs_map t)" "n = 0 \<or> vec \<noteq> []"
  shows "\<exists>sel t' evs. scan_priority n vec i d now r m t = Some (sel, t', evs)
    \<and> scan_frame {p} t t' \<and> selected now r m p sel t'"
  using assms
proof (induction n arbitrary: i t)
  case 0
  then show ?case by (simp add: scan_frame_refl selected_def)
next
  case (Suc n)
  define i' where "i' = (if length vec \<le> i then 0 else i)"
  let ?k = "vec ! i'"
  have "?k \<in> set vec" using Suc.prems(3) by (auto simp: i'_def)
  then have "?k \<in> keys_of p (txs_map t)" using Suc.prems by auto
  then obtain s where s: "map_of (txs_map t) ?k = Some s" "ts_priority s = p"
    using Suc.prems(1) by (auto simp: keys_of_def scan_inv_def txs_ok_def)
  let ?t = "put_tx_stream ?k (visit d now r m s) t"
  have frame: "scan_frame {p} t ?t" using scan_frame_visit [OF Suc.prems(1) s(1)] s(2) by simp
  then have "scan_inv ?t" "set vec \<subseteq> keys_of p (txs_map ?t)"
    using Suc.prems(2) by (auto simp: scan_frame_def)
  then obtain sel t' evs' where IH: "scan_priority n vec (Suc i') d now r m ?t = Some (sel, t', evs')"
    "scan_frame {p} ?t t'" "selected now r m p sel t'"
    using Suc.IH [of ?t "Suc i'"] Suc.prems(3) by blast
  obtain evs where step: "scan_priority (Suc n) vec i d now r m t =
     (if sendable now r m (visit d now r m s) \<and> snd (scan_tx_fifo (length (ts_fifo (fst (processTxFifo d now s)))) now r m
           (fst (processTxFifo d now s)))
      then Some (Some ?k, ?t, evs)
      else map_option (\<lambda>(sel, t, evs'). (sel, t, evs @ evs')) (scan_priority n vec (Suc i') d now r m ?t))"
    using scan_priority_step [OF s(1), of vec i n d now r m] unfolding i'_def by blast
  show ?case
    using frame IH scan_frame_trans [OF frame IH(2)] s unfolding step
    by (auto simp: selected_def)
qed

lemma scan_priorities_spec:
  assumes "scan_inv t" "distinct ps"
  shows "\<exists>sel t' evs. scan_priorities ps d now r m t = Some (sel, t', evs)
    \<and> scan_frame (set ps) t t' \<and> (\<forall>p. if p \<in> set ps then selected now r m p (sel p) t' else sel p = None)"
  using assms
proof (induction ps arbitrary: t)
  case Nil
  then show ?case by (simp add: scan_frame_refl)
next
  case (Cons p ps)
  let ?vec = "pm_vec (txs_vec t p)"
  have "set ?vec = keys_of p (txs_map t)"
    using Cons.prems(1) by (auto simp: scan_inv_def txs_ok_def)
  then obtain sel t1 evs where one: "scan_priority (length ?vec) ?vec (pm_vecIdx (txs_vec t p)) d now r m t
      = Some (sel, t1, evs)" "scan_frame {p} t t1" "selected now r m p sel t1"
    using scan_priority_spec [OF Cons.prems(1), of ?vec p "length ?vec" "pm_vecIdx (txs_vec t p)" d now r m]
    by auto
  have "scan_inv t1" "distinct ps" using one(2) Cons.prems by (auto simp: scan_frame_def)
  then obtain sels t2 evs' where rest: "scan_priorities ps d now r m t1 = Some (sels, t2, evs')"
    "scan_frame (set ps) t1 t2"
    "\<forall>p. if p \<in> set ps then selected now r m p (sels p) t2 else sels p = None"
    using Cons.IH by blast
  have "selected now r m p sel t2"
    using one(3) rest(2) Cons.prems(2)
    by (auto simp: selected_def scan_frame_def split: option.splits)
  moreover have "scan_frame (set (p # ps)) t t2"
    using scan_frame_trans [OF scan_frame_mono [OF one(2)] scan_frame_mono [OF rest(2)]] by auto
  ultimately show ?case
    using one(1) rest Cons.prems(2) by (auto simp: Let_def)
qed

subsection \<open>What the data chunks write\<close>

text \<open>The bytes counted for all priorities since the last reset.\<close>

definition sent_total :: "TxStreams \<Rightarrow> nat" where
  "sent_total t = (\<Sum>p \<leftarrow> all_priorities. unat (pm_countSent_B (txs_vec t p)))"

lemma add_sent_simps [simp]:
  "txs_map (add_sent p n t) = txs_map t" "txs_isStreamsChanged (add_sent p n t) = txs_isStreamsChanged t"
  "pm_vec (txs_vec (add_sent p n t) q) = pm_vec (txs_vec t q)"
  by (simp_all add: add_sent_def)

lemma next_vecIdx_simps [simp]:
  "txs_map (next_vecIdx p t) = txs_map t" "txs_isStreamsChanged (next_vecIdx p t) = txs_isStreamsChanged t"
  "pm_vec (txs_vec (next_vecIdx p t) q) = pm_vec (txs_vec t q)"
  "pm_countSent_B (txs_vec (next_vecIdx p t) q) = pm_countSent_B (txs_vec t q)"
  by (simp_all add: next_vecIdx_def Let_def)

lemma txs_ok_meta [simp]:
  "txs_ok (add_sent p n t) = txs_ok t" "txs_ok (next_vecIdx p t) = txs_ok t"
  "txs_safe (add_sent p n t) = txs_safe t" "txs_safe (next_vecIdx p t) = txs_safe t"
  by (simp_all add: txs_ok_def txs_safe_def)

lemma sent_total_simps [simp]:
  "sent_total (next_vecIdx p t) = sent_total t" "sent_total (put_tx_stream k s t) = sent_total t"
  by (simp_all add: sent_total_def)

lemma unat_plus_of_nat_le: "unat (x + of_nat n :: u32) \<le> unat x + n"
  by (simp add: unat_word_ariths unat_of_nat take_bit_eq_mod mod_add_right_eq)

lemma sent_total_add: "sent_total (add_sent p n t) \<le> sent_total t + n"
  using unat_plus_of_nat_le [of "pm_countSent_B (txs_vec t p)" n]
  by (cases p) (simp_all add: sent_total_def add_sent_def)

lemma unat_of_nat_plus_u64: "n + unat x < 2 ^ 64 \<Longrightarrow> unat (of_nat n + x :: u64) = n + unat x"
  by (simp add: unat_word_ariths unat_of_nat take_bit_eq_mod)

lemma unat_ucast_u32_u64 [simp]: "unat (ucast (x :: u32) :: u64) = unat x"
  by (rule unat_ucast_small) (rule less_trans [OF unat_u32_less], simp)

lemma offset_plus:
  assumes "off \<le> (sz :: u64)" "n \<le> unat (sz - off)"
  shows "unat (off + of_nat n) = unat off + n" "off + of_nat n \<le> sz" "unat off + n \<le> unat sz"
proof -
  have le: "unat off + n \<le> unat sz" using assms by (simp add: unat_sub word_le_nat_alt)
  then have "n + unat off < 2 ^ 64" using unat_u64_less [of sz] by (simp del: unat_u64_less)
  then show "unat (off + of_nat n) = unat off + n"
    using unat_of_nat_plus_u64 [of n off] by (simp add: add.commute)
  with le show "off + of_nat n \<le> sz" by (simp add: word_le_nat_alt)
  show "unat off + n \<le> unat sz" by (rule le)
qed

text \<open>The result of a writer that stays within its budget and keeps the invariants.\<close>

definition wrote :: "u32 \<Rightarrow> TxStreams \<Rightarrow> TxStreams written \<Rightarrow> bool" where
  "wrote available_B t res \<longleftrightarrow> (\<exists>w bs t' evs. res = Some (w, bs, t', evs) \<and> length bs = w
     \<and> w \<le> unat available_B \<and> txs_ok t' \<and> txs_safe t' \<and> sent_total t' \<le> sent_total t + w)"

lemma set_packet_simps [simp]:
  "ts_id (set_packet i p s) = ts_id s" "ts_isNew (set_packet i p s) = ts_isNew s"
  "ts_priority (set_packet i p s) = ts_priority s" "ts_nextPacketId (set_packet i p s) = ts_nextPacketId s"
  "ts_fifo (set_packet i p s) = (ts_fifo s)[i := p]" "ts_fifoShadow (set_packet i p s) = ts_fifoShadow s"
  "ts_packetFifoIdx (set_packet i p s) = ts_packetFifoIdx s"
  by (simp_all add: set_packet_def)

lemma tx_ok_set_packet [tx_inv_intros]:
  "tx_ok s \<Longrightarrow> tp_id p = tp_id (ts_fifo s ! i) \<Longrightarrow> tp_pointer p = tp_pointer (ts_fifo s ! i) \<Longrightarrow>
    tp_size_B p = tp_size_B (ts_fifo s ! i) \<Longrightarrow> tx_ok (set_packet i p s)"
  "tx_safe s \<Longrightarrow> tx_packet_safe p \<Longrightarrow> tx_safe (set_packet i p s)"
  by (simp_all add: set_packet_def tx_inv_intros)

text \<open>The stream after a chunk has been written, whichever it is.\<close>

definition same_stream :: "TxStream \<Rightarrow> TxStream \<Rightarrow> bool" where
  "same_stream s s' \<longleftrightarrow> ts_id s' = ts_id s \<and> ts_isNew s' = ts_isNew s \<and> ts_priority s' = ts_priority s
     \<and> tx_ok s' \<and> tx_safe s'"

lemma same_stream_put:
  assumes "txs_ok t" "txs_safe t" "map_of (txs_map t) k = Some s" "same_stream s s'"
  shows "txs_ok (put_tx_stream k s' t)" "txs_safe (put_tx_stream k s' t)"
  using assms by (auto simp: same_stream_def intro: txs_ok_replace txs_safe_put)

lemma tx_stream_nth:
  assumes "tx_ok s" "tx_safe s" "i < length (ts_fifo s)"
  shows "tx_packet_ok (ts_fifo s ! i)" "tp_offset_B (ts_fifo s ! i) \<le> tp_size_B (ts_fifo s ! i)"
    "tx_packet_safe (ts_fifo s ! i)"
  using assms by (auto simp: tx_ok_def tx_safe_def tx_packet_safe_def list_all_length)

lemma sent_small_reliable:
  "tp_isReliable (ts_fifo s ! ts_packetFifoIdx s) \<Longrightarrow> sent_small d now m s
    = Some (set_packet (ts_packetFifoIdx s) ((ts_fifo s ! ts_packetFifoIdx s)\<lparr>tp_datagramId := ucast m, tp_begin_us := now\<rparr>) s, [])"
  by (simp add: sent_small_def Let_def)

lemma same_stream_piece:
  assumes "tx_ok s" "tx_safe s" "ts_packetFifoIdx s < length (ts_fifo s)"
    and n: "n \<le> unat (tp_size_B (ts_fifo s ! ts_packetFifoIdx s) - tp_offset_B (ts_fifo s ! ts_packetFifoIdx s))"
  shows "same_stream s (fst (sent_piece d now m n s))"
proof -
  let ?i = "ts_packetFifoIdx s"
  let ?p = "ts_fifo s ! ?i"
  have p: "tp_offset_B ?p \<le> tp_size_B ?p" using tx_stream_nth(2) [OF assms(1-3)] .
  have le: "tp_offset_B ?p + of_nat n \<le> tp_size_B ?p"
    using offset_plus(2) [OF p n] .
  have safe: "tx_packet_safe (?p\<lparr>tp_offset_B := tp_offset_B ?p + of_nat n\<rparr>)" "tx_packet_safe (?p\<lparr>tp_offset_B := 0\<rparr>)"
    using tx_packet_safe_offset [OF tx_stream_nth(3) [OF assms(1-3)]] le by auto
  show ?thesis
    using assms(1,2) le safe
    by (auto simp: sent_piece_def Let_def same_stream_def intro!: tx_inv_intros)
qed


text \<open>A writer that stores one stream and counts what it wrote.\<close>

lemma wrote_put:
  assumes "txs_ok t" "txs_safe t" "map_of (txs_map t) k = Some s" "same_stream s s'"
    "length bs = w" "w \<le> unat available_B"
  shows "wrote available_B t (Some (w, bs, add_sent p w (put_tx_stream k s' t), evs))"
  using same_stream_put [OF assms(1-4)] assms(5,6) sent_total_add [of p w "put_tx_stream k s' t"]
  by (simp add: wrote_def)

lemma wrote_nothing: "txs_ok t \<Longrightarrow> txs_safe t \<Longrightarrow> wrote available_B t (Some (0, [], t, evs))"
  by (simp add: wrote_def)

lemma write_small_wrote:
  assumes t: "txs_ok t" "txs_safe t" "map_of (txs_map t) k = Some s"
    and i: "ts_packetFifoIdx s < length (ts_fifo s)" and p: "p = ts_fifo s ! ts_packetFifoIdx s"
    and fits: "of_nat (g_chunkHeader_B + getNumberOfBytes (getNumberOfBits (tp_size_B p))) + tp_size_B p
      \<le> (ucast available_B :: u64)"
  shows "wrote available_B t (write_small d now m priority k s t)"
proof -
  have s: "tx_ok s" "tx_safe s" using t txs_ok_lookup by (auto simp: txs_safe_def)
  have ok: "tx_packet_ok p" using tx_stream_nth(1) [OF s i] p by simp
  let ?n = "g_chunkHeader_B + getNumberOfBytes (getNumberOfBits (tp_size_B p))"
  have "?n + unat (tp_size_B p) < 2 ^ 64"
    using ok getNumberOfBytes_bounds(2) [of "getNumberOfBits (tp_size_B p)"]
    by (simp add: tx_packet_ok_def)
  then have w: "?n + unat (tp_size_B p) \<le> unat available_B"
    using fits unat_of_nat_plus_u64 [of ?n "tp_size_B p"]
    by (simp add: word_le_nat_alt)
  obtain bs where bs: "small_packet_bytes s p = Some bs" "length bs = ?n + unat (tp_size_B p)"
    using ok by (auto simp: small_packet_bytes_def write_data_def mem_read_def tx_packet_ok_def Let_def)
  show ?thesis
  proof (cases "getNumberOfBits (tp_size_B p) = B8 \<or> getNumberOfBits (tp_size_B p) = B16")
    case True
    then have rel: "tp_isReliable p"
      using tx_stream_nth(3) [OF s i] getNumberOfBits_fits [of "tp_size_B p"] by (auto simp: p tx_packet_safe_def)
    let ?s = "set_packet (ts_packetFifoIdx s) (p\<lparr>tp_datagramId := ucast m, tp_begin_us := now\<rparr>) s"
    have "same_stream s ?s" using s tx_stream_nth(3) [OF s i] by (simp add: same_stream_def p tx_inv_intros)
    then show ?thesis
      using wrote_put [OF t _ bs(2) w] True bs sent_small_reliable [of s d now m] rel
      by (simp add: write_small_def Let_def p [symmetric])
  qed (use wrote_nothing [OF t(1,2)] in \<open>simp add: write_small_def Let_def p [symmetric]\<close>)
qed

lemma write_begin_wrote:
  assumes t: "txs_ok t" "txs_safe t" "map_of (txs_map t) k = Some s"
    and i: "ts_packetFifoIdx s < length (ts_fifo s)" and p: "p = ts_fifo s ! ts_packetFifoIdx s"
    and fits: "g_chunkHeader_B + getNumberOfBytes (getNumberOfBits (tp_size_B p)) + 4 \<le> unat available_B"
  shows "wrote available_B t (write_begin now priority k s t)"
proof -
  have s: "tx_ok s" "tx_safe s" using t txs_ok_lookup by (auto simp: txs_safe_def)
  let ?i = "ts_packetFifoIdx s"
  have "same_stream s (set_packet ?i (p\<lparr>tp_isStarted := True, tp_begin_us := now\<rparr>) s)"
    using s tx_stream_nth(3) [OF s i] by (simp add: same_stream_def tx_inv_intros p)
  from wrote_put [OF t this _ fits] show ?thesis
    by (simp add: write_begin_def Let_def p [symmetric])
qed

lemma write_piece_wrote:
  assumes t: "txs_ok t" "txs_safe t" "map_of (txs_map t) k = Some s"
    and i: "ts_packetFifoIdx s < length (ts_fifo s)"
  shows "wrote available_B t (write_piece d now m available_B priority k s t)"
proof -
  have s: "tx_ok s" "tx_safe s" using t txs_ok_lookup by (auto simp: txs_safe_def)
  define p where "p = ts_fifo s ! ts_packetFifoIdx s"
  define ob where "ob = getNumberOfBytes (getNumberOfBits (tp_offset_B p))"
  define n where "n = min (unat available_B - (g_chunkHeader_B + ob + 2 + 1) + 1)
      (unat (tp_size_B p - tp_offset_B p))"
  define pb where "pb = getNumberOfBits (of_nat n)"
  have p: "tx_packet_ok p" "tp_offset_B p \<le> tp_size_B p" using tx_stream_nth [OF s i] p_def by auto
  have n: "n \<le> unat (tp_size_B p - tp_offset_B p)" by (simp add: n_def)
  have read: "mem_read (tp_pointer p) (unat (tp_offset_B p)) n =
      Some (take n (drop (unat (tp_offset_B p)) (tp_pointer p)))" 
    using offset_plus(3) [OF p(2) n] p(1) by (simp add: mem_read_def tx_packet_ok_def)
  have len: "length (take n (drop (unat (tp_offset_B p)) (tp_pointer p))) = n"
    using mem_read_length [OF read] .
  have w: "pb = B8 \<or> pb = B16 \<Longrightarrow> g_chunkHeader_B + ob + 2 + 1 \<le> unat available_B \<Longrightarrow>
      g_chunkHeader_B + ob + getNumberOfBytes pb + n \<le> unat available_B"
    by (auto simp: n_def)
  have same: "same_stream s (fst (sent_piece d now m n s))"
    using same_stream_piece [OF s i] n by (simp add: p_def)
  obtain s' evs where s': "sent_piece d now m n s = (s', evs)" by fastforce
  show ?thesis
  proof (cases "unat available_B < g_chunkHeader_B + ob + 2 + 1 \<or> \<not> (pb = B8 \<or> pb = B16)")
    case True
    then have "write_piece d now m available_B priority k s t = Some (0, [], t, [])"
      unfolding write_piece_def Let_def p_def [symmetric] ob_def [symmetric] n_def [symmetric]
        pb_def [symmetric] by auto
    then show ?thesis using wrote_nothing [OF t(1,2)] by simp
  next
    case False
    then have "write_piece d now m available_B priority k s t =
        Some (g_chunkHeader_B + ob + getNumberOfBytes pb + n,
          chunk_header (mk_pieceOfPacket (tp_isReliable p) (ts_packetFifoIdx s = 0)
              (getNumberOfBits (tp_offset_B p)) pb) (ts_id s) (tp_id p)
            @ write_by_bits (getNumberOfBits (tp_offset_B p)) (tp_offset_B p)
            @ write_by_bits pb (of_nat n) @ take n (drop (unat (tp_offset_B p)) (tp_pointer p)),
          add_sent priority (g_chunkHeader_B + ob + getNumberOfBytes pb + n) (put_tx_stream k s' t), evs)"
      unfolding write_piece_def Let_def p_def [symmetric] ob_def [symmetric] n_def [symmetric]
        pb_def [symmetric] read s' by auto
    then show ?thesis
      using wrote_put [OF t same _ w] False len by (simp add: s' ob_def [symmetric])
  qed
qed

lemma write_selected_wrote:
  assumes "txs_ok t" "txs_safe t" "map_of (txs_map t) k = Some s"
    "ts_packetFifoIdx s < length (ts_fifo s)"
  shows "wrote available_B t (write_selected d now m available_B priority k s t)"
  unfolding write_selected_def Let_def
  using assms write_small_wrote [OF assms refl] write_begin_wrote [OF assms refl]
    write_piece_wrote [OF assms] wrote_nothing [OF assms(1,2)]
  by simp


text \<open>
  C32. Sending a small unreliable packet is undefined behaviour. When the packet to send is the first of its
  stream, unreliable, not yet started and fits into the datagram, it is marked as acknowledged and
  \<open>processTxFifo\<close> removes it, and then \<open>begin_us\<close> of the destroyed packet is written.
\<close>

theorem unreliable_small_undefined:
  assumes "ts_fifo s = p # ps" "ts_packetFifoIdx s = 0" "\<not> tp_isReliable p" "\<not> tp_isStarted p"
    and "unat (tp_size_B p) < 65536"
    and "g_chunkHeader_B + getNumberOfBytes (getNumberOfBits (tp_size_B p)) + unat (tp_size_B p) \<le> unat available_B"
  shows "write_selected onDelivered now_us txPacketsCount available_B priority k s t = None"
proof -
  let ?n = "g_chunkHeader_B + getNumberOfBytes (getNumberOfBits (tp_size_B p))"
  let ?s = "set_packet 0 (p\<lparr>tp_isAcknowledged := True\<rparr>) s"
  have "?n + unat (tp_size_B p) < 2 ^ 64" using assms(6) unat_u32_less [of available_B] by (simp del: unat_u32_less)
  then have fits: "of_nat ?n + tp_size_B p \<le> (ucast available_B :: u64)"
    using assms(6) unat_of_nat_plus_u64 [of ?n "tp_size_B p"] by (simp add: word_le_nat_alt)
  obtain s' evs where s': "processTxFifo onDelivered now_us ?s = (s', evs)" by fastforce
  have "length (ts_fifo s') \<le> length ps"
    using s' assms(1) length_dropWhile_le [of _ ps] by (auto simp: processTxFifo_eq Let_def tx_keep_def)
  then have "sent_small onDelivered now_us txPacketsCount s = None"
    using assms(1-3) s' by (simp add: sent_small_def Let_def)
  then have "write_small onDelivered now_us txPacketsCount priority k s t = None"
    using assms(1,2) getNumberOfBits_small [OF assms(5)] by (simp add: write_small_def Let_def split: option.splits)
  then show ?thesis using assms(1,2,4) fits by (simp add: write_selected_def Let_def)
qed

theorem unreliable_small_undefined_witness:
  "write_selected True 5 0 1000 Low 4
     (TxStream_init\<lparr>ts_fifo := [TxPacket_init\<lparr>tp_pointer := [1, 2, 3], tp_size_B := 3, tp_isReliable := False\<rparr>], ts_packetFifoIdx := 0\<rparr>)
     TxStreams_init = None"
proof -
  let ?p = "TxPacket_init\<lparr>tp_pointer := [1, 2, 3], tp_size_B := 3, tp_isReliable := False\<rparr>"
  have "\<not> tp_isStarted ?p" by (simp add: TxPacket_init_def)
  then show ?thesis
    by (intro unreliable_small_undefined [where p = ?p and ps = "[]"]) (simp_all add: getNumberOfBits_def masked_def code_bits_def)
qed

subsection \<open>writeDataChunk is safe\<close>

lemma sent_total_update [simp]: "sent_total (update_streams t) = sent_total t"
  by (simp add: sent_total_def update_streams_def)

lemma txs_safe_update [simp]: "txs_safe (update_streams t) = txs_safe t"
  by (simp add: txs_safe_def update_streams_def)

lemma update_streams_current [simp]: "\<not> txs_isStreamsChanged (update_streams t)"
  by (simp add: update_streams_def)

lemma sent_total_no_wrap:
  assumes "sent_total t + 1 < 2 ^ 32" "sent = (\<lambda>p. pm_countSent_B (txs_vec t p))"
  shows "sent High + sent Medium + sent Low + 1 \<noteq> 0"
    "sent Realtime + sent High + sent Medium + sent Low + 1 \<noteq> 0"
proof -
  have sum: "unat (sent Realtime) + unat (sent High) + unat (sent Medium) + unat (sent Low) + 1 < 2 ^ 32"
    using assms by (simp add: sent_total_def)
  then have "unat (sent High + sent Medium + sent Low + 1) = unat (sent High) + unat (sent Medium) + unat (sent Low) + 1"
    by (simp add: unat_word_ariths)
  then show "sent High + sent Medium + sent Low + 1 \<noteq> 0" by auto
  have "unat (sent Realtime + sent High + sent Medium + sent Low + 1)
      = unat (sent Realtime) + unat (sent High) + unat (sent Medium) + unat (sent Low) + 1"
    using sum by (simp add: unat_word_ariths)
  then show "sent Realtime + sent High + sent Medium + sent Low + 1 \<noteq> 0" by auto
qed

lemma data_chunk_wrote:
  assumes "txs_ok t" "txs_safe t" "sent_total t + 1 < 2 ^ 32"
  shows "wrote available_B t (data_chunk d now RTT_us m available_B t)"
proof (cases "unat available_B \<le> g_chunkHeader_B")
  case True
  then show ?thesis using wrote_nothing [OF assms(1,2)] by (simp add: data_chunk_def)
next
  case False
  have "scan_inv (update_streams t)" using assms(1) by (simp add: scan_inv_def tx_inv_intros)
  then obtain sel t1 evs where scan: "scan_priorities all_priorities d now RTT_us m (update_streams t)
      = Some (sel, t1, evs)" "scan_frame (set all_priorities) (update_streams t) t1"
    "\<forall>p. if p \<in> set all_priorities then selected now RTT_us m p (sel p) t1 else sel p = None"
    using scan_priorities_spec [of "update_streams t" all_priorities] by fastforce
  have t1: "txs_ok t1" "txs_safe t1" "sent_total t1 = sent_total t"
    using scan(2) assms(2) sent_total_update [of t]
    by (auto simp: scan_frame_def scan_inv_def sent_total_def)
  let ?sent = "\<lambda>p. pm_countSent_B (txs_vec t1 p)"
  obtain p where p: "choose_priority (\<lambda>p. sel p \<noteq> None) ?sent now = Some p"
    using choose_priority_defined [OF sent_total_no_wrap [OF _ refl, of t1]] assms(3) t1(3) by auto
  note eq = data_chunk_def [of d now RTT_us m available_B t, unfolded scan(1) option.case prod.case p]
  show ?thesis
  proof (cases "p = NoPriority")
    case True
    then show ?thesis using t1 False wrote_nothing [OF t1(1,2), of available_B evs] by (simp add: eq wrote_def)
  next
    case np: False
    then obtain k where k: "sel p = Some k" using choose_priority_has [OF p] by auto
    have "p \<in> set all_priorities" using np by (cases p) auto
    then have "selected now RTT_us m p (sel p) t1" using spec [OF scan(3), of p] by (simp only: if_True)
    then obtain s where s: "map_of (txs_map t1) k = Some s" "sendable now RTT_us m s"
      using k by (auto simp: selected_def)
    have "wrote available_B (next_vecIdx p t1)
        (write_selected d now m available_B p k s (next_vecIdx p t1))"
      using t1 s by (intro write_selected_wrote) (auto simp: sendable_def)
    then show ?thesis using False np k s(1) t1(3) by (auto simp: eq wrote_def)
  qed
qed

subsection \<open>writeMetaChunk is safe\<close>

text \<open>The receive streams of a connection: distinct keys, each stream initialised under its key
  and mirrored by its shadow queue, each copy as long as the packet, and the iterator inside the map unless it is to be reset.\<close>

definition rx_packet_ok :: "RxPacket \<Rightarrow> bool" where
  "rx_packet_ok p \<longleftrightarrow> rp_copy p = [] \<or> length (rp_copy p) = unat (rp_size_B p)"

definition rx_ok :: "RxStream \<Rightarrow> bool" where
  "rx_ok s \<longleftrightarrow> rx_mirrored s \<and> \<not> rs_isNew s \<and> list_all rx_packet_ok (rs_fifo s)"

definition rxs_ok :: "RxStreams \<Rightarrow> bool" where
  "rxs_ok r \<longleftrightarrow> distinct (map fst (rxs_map r))
     \<and> (\<forall>k s. map_of (rxs_map r) k = Some s \<longrightarrow> rx_ok s \<and> rs_id s = k)
     \<and> (rxs_isStreamsChanged r \<or> rxs_streamIt r < length (rxs_map r))"

lemma rxs_ok_init [rx_inv_intros]: "rxs_ok RxStreams_init"
  by (simp add: rxs_ok_def RxStreams_init_def)

lemma rxs_ok_acks [simp]: "rxs_ok (r\<lparr>rxs_acks := a\<rparr>) = rxs_ok r"
  by (simp add: rxs_ok_def)

lemma length_update_alist: "k \<in> set (map fst m) \<Longrightarrow> length (AList.update k v m) = length m"
  by (induction m) auto

lemma length_update_alist_le: "length m \<le> length (AList.update k v m)"
  by (induction m) auto

lemma map_of_put_rx [simp]:
  "map_of (rxs_map (put_rx_stream k s r)) k' = (if k' = k then Some s else map_of (rxs_map r) k')"
  by (simp add: put_rx_stream_def update_conv')

lemma put_rx_simps [simp]:
  "rxs_isStreamsChanged (put_rx_stream k s r) = rxs_isStreamsChanged r"
  "rxs_streamIt (put_rx_stream k s r) = rxs_streamIt r" "rxs_acks (put_rx_stream k s r) = rxs_acks r"
  by (simp_all add: put_rx_stream_def)

lemma rxs_ok_put [rx_inv_intros]:
  assumes "rxs_ok r" "rx_ok s" "rs_id s = k"
  shows "rxs_ok (put_rx_stream k s r)"
proof -
  have "distinct (map fst (rxs_map (put_rx_stream k s r)))"
    using assms(1) by (simp add: rxs_ok_def put_rx_stream_def distinct_update)
  moreover have "length (rxs_map r) \<le> length (rxs_map (put_rx_stream k s r))"
    by (simp add: put_rx_stream_def length_update_alist_le)
  moreover have "rx_ok s' \<and> rs_id s' = k'" if "map_of (rxs_map (put_rx_stream k s r)) k' = Some s'" for k' s'
    using that assms unfolding rxs_ok_def by (cases "k' = k") simp_all
  moreover have "rxs_isStreamsChanged r \<or> rxs_streamIt r < length (rxs_map r)"
    using assms(1) by (simp add: rxs_ok_def)
  ultimately show ?thesis
    unfolding rxs_ok_def put_rx_simps by (metis less_le_trans)
qed

lemma rx_mirrored_remove [rx_inv_intros]: "rx_mirrored s \<Longrightarrow> rx_mirrored (rx_remove now p s)"
  by (simp add: rx_mirrored_def map_tl)

lemma processRxFifo_ok [rx_inv_intros]:
  assumes "rx_ok s"
  shows "rx_ok (fst (processRxFifo f now s))"
proof (rule rx_drain.drain_invariant [where P = rx_ok])
  fix s assume "rx_ok s" "rs_fifo s \<noteq> []"
  then show "rx_ok (rx_remove now (hd (rs_fifo s)) s)"
    by (cases "rs_fifo s") (simp_all add: rx_ok_def rx_inv_intros)
qed fact

lemma processRxFifo_id [simp]: "rs_id (fst (processRxFifo f now s)) = rs_id s"
  by (rule rx_drain.drain_invariant [where P = "\<lambda>t. rs_id t = rs_id s"]) simp_all

lemma rx_next_spec:
  assumes "rs_fifo s \<noteq> []"
  obtains i where "rx_next s = Some (i, s\<lparr>rs_packetIdx := of_nat i\<rparr>)" "i < length (rs_fifo s)"
  using assms that by (auto simp: rx_next_def Let_def split: if_splits)

lemma map_update_same: "f p = f (xs ! i) \<Longrightarrow> map f (xs[i := p]) = map f xs"
  by (cases "i < length xs") (simp_all add: map_update list_update_same_conv list_update_beyond)

lemma rx_mirrored_set:
  "rx_mirrored s \<Longrightarrow> rp_id p = rp_id (rs_fifo s ! i) \<Longrightarrow> rx_mirrored (s\<lparr>rs_fifo := (rs_fifo s)[i := p]\<rparr>)"
  by (simp add: rx_mirrored_def map_update_same)

lemma rx_ok_set [rx_inv_intros]:
  assumes "rx_ok s" "rp_id p = rp_id (rs_fifo s ! i)" "rx_packet_ok p"
  shows "rx_ok (s\<lparr>rs_fifo := (rs_fifo s)[i := p]\<rparr>)"
proof -
  have "list_all rx_packet_ok ((rs_fifo s)[i := p])"
    using assms by (auto simp: rx_ok_def list_all_iff dest!: set_update_subset_insert [THEN subsetD])
  then show ?thesis using assms rx_mirrored_set by (simp add: rx_ok_def)
qed

lemma length_repeat_chunk: "repeat_chunk k p = (n, bs) \<Longrightarrow> length bs = n"
  by (auto simp: repeat_chunk_def Let_def)

lemma scan_repeat_spec:
  assumes "rx_ok s" "rs_id s = k" "n = 0 \<or> rs_fifo s \<noteq> []"
  shows "\<exists>res s'. scan_repeat n m available_B s = Some (res, s') \<and> rx_ok s' \<and> rs_id s' = k
    \<and> (\<forall>w bs. res = Chunk w bs \<longrightarrow> length bs = w \<and> w \<le> unat available_B)"
  using assms
proof (induction n arbitrary: s)
  case 0
  then show ?case by simp
next
  case (Suc n)
  then obtain i where i: "rx_next s = Some (i, s\<lparr>rs_packetIdx := of_nat i\<rparr>)" "i < length (rs_fifo s)"
    using rx_next_spec by blast
  let ?s = "s\<lparr>rs_packetIdx := of_nat i\<rparr>"
  have ok: "rx_ok ?s" using Suc.prems by (simp add: rx_ok_def rx_mirrored_def)
  obtain cs bs where c: "repeat_chunk (rs_id s) (rs_fifo s ! i) = (cs, bs)" by fastforce
  have "rx_packet_ok (rs_fifo s ! i)" using Suc.prems(1) i(2) by (simp add: rx_ok_def list_all_length)
  then have "rx_ok (?s\<lparr>rs_fifo := (rs_fifo s)[i := (rs_fifo s ! i)\<lparr>rp_offsetRepeat_B := UINT64_MAX,
      rp_datagramId := ucast m\<rparr>]\<rparr>)"
    using ok rx_ok_set [of ?s] by (simp add: rx_packet_ok_def)
  with ok Suc.prems Suc.IH [of ?s] length_repeat_chunk [OF c] show ?case
    by (auto simp: i Let_def c not_less)
qed


lemma rx_streams_next_spec:
  assumes "rxs_ok r" "rxs_map r \<noteq> []"
  shows "rxs_ok (rx_streams_next r) \<and> rxs_streamIt (rx_streams_next r) < length (rxs_map r)
    \<and> rxs_map (rx_streams_next r) = rxs_map r \<and> rxs_acks (rx_streams_next r) = rxs_acks r"
  using assms by (auto simp: rxs_ok_def rx_streams_next_def Let_def)

lemma scan_rx_streams_spec:
  assumes "rxs_ok r" "n = 0 \<or> rxs_map r \<noteq> []"
  shows "\<exists>w bs r' evs. scan_rx_streams n f now m available_B r = Some (w, bs, r', evs) \<and> length bs = w
    \<and> w \<le> unat available_B \<and> rxs_ok r'"
  using assms
proof (induction n arbitrary: r)
  case 0
  then show ?case by simp
next
  case (Suc n)
  let ?r = "rx_streams_next r"
  have r: "rxs_ok ?r" "rxs_streamIt ?r < length (rxs_map ?r)"
    using rx_streams_next_spec [of r] Suc.prems by auto
  obtain k s where ks: "rxs_map ?r ! rxs_streamIt ?r = (k, s)" by fastforce
  then have "map_of (rxs_map ?r) k = Some s"
    using r by (intro map_of_is_SomeI) (auto simp: rxs_ok_def in_set_conv_nth)
  then have s: "rx_ok s" "rs_id s = k" using r(1) by (auto simp: rxs_ok_def)
  obtain s1 evs where s1: "processRxFifo f now s = (s1, evs)" by fastforce
  have ok1: "rx_ok s1" "rs_id s1 = k"
    using processRxFifo_ok [OF s(1), of f now] processRxFifo_id [of f now s] s(2) by (simp_all add: s1)
  obtain res s2 where s2: "scan_repeat (length (rs_fifo s1)) m available_B s1 = Some (res, s2)"
    "rx_ok s2" "rs_id s2 = k" "\<forall>w bs. res = Chunk w bs \<longrightarrow> length bs = w \<and> w \<le> unat available_B"
    using scan_repeat_spec [OF ok1, of "length (rs_fifo s1)" m available_B] by auto
  have r2: "rxs_ok (put_rx_stream k s2 ?r)" using r(1) s2 by (intro rxs_ok_put)
  have "rxs_map (put_rx_stream k s2 ?r) \<noteq> []" by (simp add: put_rx_stream_def)
  then obtain w bs r' evs' where
    "scan_rx_streams n f now m available_B (put_rx_stream k s2 ?r) = Some (w, bs, r', evs')"
    "length bs = w" "w \<le> unat available_B" "rxs_ok r'"
    using Suc.IH [OF r2] by auto
  with r s2 r2 show ?case
    by (cases res) (simp_all add: Let_def ks s1)
qed

lemma meta_chunk_spec:
  assumes "rxs_ok r"
  shows "\<exists>w bs r' evs. meta_chunk f now m available_B r = Some (w, bs, r', evs) \<and> length bs = w
    \<and> w \<le> unat available_B \<and> rxs_ok r'"
  using scan_rx_streams_spec [OF assms, of "length (rxs_map r)"] assms
  by (auto simp: meta_chunk_def not_less split: list.split)

subsection \<open>The contract of a chunk writer\<close>

text \<open>The loops of \<open>writePacket\<close> that call a writer until it writes nothing or the buffer is
  full. \<open>None\<close> also stands for a writer that writes more than it was offered.\<close>

function fill :: "(u32 \<Rightarrow> 's \<Rightarrow> 's written) \<Rightarrow> nat \<Rightarrow> 's \<Rightarrow> (bytes \<times> 's \<times> event list) option" where
  "fill wr available_B s =
     (if available_B = 0 then Some ([], s, [])
      else case wr (of_nat available_B) s of
        None \<Rightarrow> None
      | Some (w, bs, s, evs) \<Rightarrow>
          if w = 0 then Some ([], s, evs)
          else if available_B < w then None
          else map_option (\<lambda>(bs', s, evs'). (bs @ bs', s, evs @ evs')) (fill wr (available_B - w) s))"
  by pat_completeness auto
termination
  by (relation "measure (\<lambda>(wr, available_B, s). available_B)") auto

declare fill.simps [simp del]

text \<open>A writer never writes more than it is offered, reports the length of what it wrote, and
  leaves a state in which it can go on with what is left.\<close>

locale chunk_writer =
  fixes wr :: "u32 \<Rightarrow> 's \<Rightarrow> 's written"
    and inv :: "nat \<Rightarrow> 's \<Rightarrow> bool"
  assumes writes: "inv (unat a) s \<Longrightarrow> \<exists>w bs s' evs. wr a s = Some (w, bs, s', evs) \<and> length bs = w
      \<and> w \<le> unat a \<and> inv (unat a - w) s'"
begin

lemma fill_within:
  assumes "inv n s" "n < 2 ^ 32"
  shows "\<exists>bs s' evs. fill wr n s = Some (bs, s', evs) \<and> length bs \<le> n \<and> inv (n - length bs) s'"
  using assms
proof (induction n arbitrary: s rule: less_induct)
  case (less n)
  show ?case
  proof (cases "n = 0")
    case True
    then show ?thesis using less.prems by (simp add: fill.simps)
  next
    case False
    have n: "unat (of_nat n :: u32) = n" using less.prems(2) by (simp add: unat_of_nat_u32)
    obtain w bs s' evs where w: "wr (of_nat n) s = Some (w, bs, s', evs)" "length bs = w" "w \<le> n"
      "inv (n - w) s'"
      using writes [of "of_nat n" s] less.prems(1) n by auto
    show ?thesis
    proof (cases "w = 0")
      case True
      then show ?thesis using w False by (subst fill.simps) simp
    next
      case w0: False
      then have "n - w < n" "n - w < 2 ^ 32" using False less.prems(2) by auto
      then obtain bs' s'' evs' where "fill wr (n - w) s' = Some (bs', s'', evs')"
        "length bs' \<le> n - w" "inv (n - w - length bs') s''"
        using less.IH w(4) by blast
      then show ?thesis using w w0 False by (subst fill.simps) auto
    qed
  qed
qed

end

definition conn_inv :: "nat \<Rightarrow> Connection \<Rightarrow> bool" where
  "conn_inv n c \<longleftrightarrow> rxs_ok (c_rxStreams c) \<and> txs_ok (c_txStreams c) \<and> txs_safe (c_txStreams c)
     \<and> sent_total (c_txStreams c) + n + 1 < 2 ^ 32"

text \<open>A connection with a packet of three bytes to send.\<close>

definition example_busy :: Connection where
  "example_busy = (partialReset Connection_init)\<lparr>c_txStreams := run_send 9 [1, 2, 3] 3 True 4 5000 1000 TxStreams_init\<rparr>"

lemma example_busy_inv: "n < 2 ^ 32 - 1 \<Longrightarrow> conn_inv n example_busy" "c_pmtu example_busy = c_pmtu (partialReset Connection_init)"
proof -
  let ?t = "run_send 9 [1, 2, 3] 3 True 4 5000 1000 TxStreams_init"
  have t: "txs_ok ?t" by (intro tx_inv_intros) simp_all
  have "txs_safe ?t" "sent_total ?t = 0"
    by (simp_all add: run_send_def txs_safe_def tx_safe_def tx_packet_safe_def open_tx_stream_def tx_stream_at_def put_tx_stream_def
        TxStreams_init_def TxStream_init_def TxPacket_init_def Let_def sent_total_def PriorityMeta_init_def)
  with t show "n < 2 ^ 32 - 1 \<Longrightarrow> conn_inv n example_busy"
    by (simp add: conn_inv_def example_busy_def rxs_ok_init partialReset_def Connection_init_def)
qed (simp add: example_busy_def)

interpretation meta_writer: chunk_writer "writeMetaChunk now_us" "\<lambda>n. conn_inv (n + m)" for now_us m
proof
  fix a :: u32 and c :: Connection
  assume inv: "conn_inv (unat a + m) c"
  then obtain w bs r evs where
    "meta_chunk (c_onReceived c) now_us (n_txPacketsCount (c_cnt c)) a (c_rxStreams c) = Some (w, bs, r, evs)"
    "length bs = w" "w \<le> unat a" "rxs_ok r"
    using meta_chunk_spec by (fastforce simp: conn_inv_def)
  with inv show "\<exists>w bs s' evs. writeMetaChunk now_us a c = Some (w, bs, s', evs) \<and> length bs = w
      \<and> w \<le> unat a \<and> conn_inv (unat a - w + m) s'"
    by (auto simp: writeMetaChunk_def conn_inv_def)
qed

interpretation data_writer: chunk_writer "writeDataChunk now_us" "\<lambda>n. conn_inv (n + m)" for now_us m
proof
  fix a :: u32 and c :: Connection
  assume inv: "conn_inv (unat a + m) c"
  then have "wrote a (c_txStreams c) (data_chunk (c_onDelivered c) now_us (t_RTT_us (c_traffic c))
      (n_txPacketsCount (c_cnt c)) a (c_txStreams c))"
    by (intro data_chunk_wrote) (auto simp: conn_inv_def)
  with inv show "\<exists>w bs s' evs. writeDataChunk now_us a c = Some (w, bs, s', evs) \<and> length bs = w
      \<and> w \<le> unat a \<and> conn_inv (unat a - w + m) s'"
    by (auto simp: writeDataChunk_def conn_inv_def wrote_def)
qed

end
