(* ===== verification/Udsp_Read.thy ===== *)
theory Udsp_Read
  imports Udsp_Write
begin

text \<open>
  Reading chunks: \<open>readChunk\<close> of \<open>Stream.cpp\<close> with its four cases. The reader gets the bytes
  from the chunk on to the end of the receive buffer and the number of them that belong to the
  datagram; it returns how many it consumed, or 0 to refuse the rest of the datagram. \<open>None\<close>
  means that it would read behind the buffer or write outside the packet's copy.
\<close>

subsection \<open>Acknowledgements and repeat requests\<close>

text \<open>Both look the packet up in a transmit stream; \<open>f\<close> is what is done with it.\<close>

definition with_tx_packet ::
  "u8 \<Rightarrow> u32 \<Rightarrow> (nat \<Rightarrow> TxStream \<Rightarrow> TxStream \<times> event list) \<Rightarrow> TxStreams \<Rightarrow> (TxStreams \<times> event list) option" where
  "with_tx_packet streamId packetId f t =
     (case map_of (txs_map t) streamId of None \<Rightarrow> Some (t, [])
      | Some s \<Rightarrow>
          (case findPacketIdx (ts_fifoShadow s) packetId of
             NotFound \<Rightarrow> Some (t, [])
           | Trap \<Rightarrow> None
           | Found i \<Rightarrow>
               if i < length (ts_fifo s)
               then let (s, evs) = f i s in Some (put_tx_stream streamId s t, evs)
               else None))"

definition read_acknowledge ::
  "bool \<Rightarrow> tick \<Rightarrow> u8 \<Rightarrow> u32 \<Rightarrow> TxStreams \<Rightarrow> (TxStreams \<times> event list) option" where
  "read_acknowledge onDelivered now_us streamId packetId =
     with_tx_packet streamId packetId (\<lambda>i s.
       processTxFifo onDelivered now_us (set_packet i ((ts_fifo s ! i)\<lparr>tp_isAcknowledged := True\<rparr>) s))"

definition read_repeatInfo :: "u8 \<Rightarrow> u32 \<Rightarrow> u64 \<Rightarrow> TxStreams \<Rightarrow> (TxStreams \<times> event list) option" where
  "read_repeatInfo streamId packetId repeatOffset_B =
     with_tx_packet streamId packetId (\<lambda>i s.
       let p = ts_fifo s ! i in
       if \<not> tp_isReliable p then (s, [])
       else (set_packet i (p\<lparr>tp_offset_B := repeatOffset_B,
               tp_isStarted := (if repeatOffset_B = 0 then False else tp_isStarted p)\<rparr>) s, []))"

subsection \<open>Chunks of packets\<close>

text \<open>\<open>rxStreams.map[streamId]\<close> and its initialisation.\<close>

definition open_rx_stream :: "tick \<Rightarrow> u8 \<Rightarrow> RxStreams \<Rightarrow> RxStreams" where
  "open_rx_stream now_us streamId r =
     (let s = rx_stream_at streamId r in
      if rs_isNew s
      then (put_rx_stream streamId (snd (get_packet now_us 0 (s\<lparr>rs_isNew := False, rs_id := streamId\<rparr>))) r)
             \<lparr>rxs_isStreamsChanged := True\<rparr>
      else put_rx_stream streamId s r)"

text \<open>An acknowledgement is queued unless it is already the last one in the queue.\<close>

definition push_ack :: "bool \<Rightarrow> u8 \<Rightarrow> u32 \<Rightarrow> RxStreams \<Rightarrow> RxStreams" where
  "push_ack isReliable streamId packetId r =
     (if \<not> isReliable then r
      else if rxs_acks r \<noteq> [] \<and> last (rxs_acks r) = (streamId, packetId) then r
      else r\<lparr>rxs_acks := rxs_acks r @ [(streamId, packetId)]\<rparr>)"

definition set_rx_packet :: "nat \<Rightarrow> RxPacket \<Rightarrow> RxStream \<Rightarrow> RxStream" where
  "set_rx_packet i p s = s\<lparr>rs_fifo := (rs_fifo s)[i := p]\<rparr>"

text \<open>\<open>RTT_us * g_rxFifoCleanupK\<close> in 32-bit arithmetic.\<close>

definition rtt200 :: "u32 \<Rightarrow> tick" where
  "rtt200 RTT_us = int (unat (RTT_us * 200))"

text \<open>What the three cases start with: open the stream, move its front, leave early when the
  queue is full or the packet is known (\<open>ackOld\<close>: acknowledge it once more), and find the packet.
  \<open>use\<close> is the rest of the case, on the packet's index and the stream.\<close>

definition rx_chunk ::
  "tick \<Rightarrow> u32 \<Rightarrow> u8 \<Rightarrow> u32 \<Rightarrow> bool \<Rightarrow> bool
   \<Rightarrow> (nat \<Rightarrow> RxStream \<Rightarrow> RxStreams \<Rightarrow> (RxStreams \<times> event list) option)
   \<Rightarrow> RxStreams \<Rightarrow> (RxStreams \<times> event list) option" where
  "rx_chunk now_us RTT_us streamId packetId isFront ackOld use r =
     (let r = open_rx_stream now_us streamId r;
          s = updateFrontPacketId isFront packetId (rx_stream_at streamId r) in
      if 32767 \<le> length (rs_fifo s) then Some (put_rx_stream streamId s r, [])
      else if isReceivedBefore packetId s
      then Some (push_ack ackOld streamId packetId (put_rx_stream streamId s r), [])
      else let (i, s) = get_packet now_us packetId s; p = rs_fifo s ! i in
        if rp_id p \<noteq> packetId then Some (put_rx_stream streamId s r, [])
        else use i (set_rx_packet i (p\<lparr>rp_timeout_us := now_us + rtt200 RTT_us\<rparr>) s) r)"

definition use_small ::
  "on_received option \<Rightarrow> tick \<Rightarrow> u8 \<Rightarrow> u32 \<Rightarrow> bool \<Rightarrow> u64 \<Rightarrow> bytes
   \<Rightarrow> nat \<Rightarrow> RxStream \<Rightarrow> RxStreams \<Rightarrow> (RxStreams \<times> event list) option" where
  "use_small onReceived now_us streamId packetId isReliable size_B data i s r =
     (let p = rs_fifo s ! i;
          (s, evs) =
            (if rp_isReceived p then (s, [])
             else let p = p\<lparr>rp_isReceived := True\<rparr>; s = set_rx_packet i p s in
               if rp_id (hd (rs_fifo s)) = packetId then
                 (pop_front_rx (updateFrontPacketId True (packetId + 1) (s\<lparr>rs_debugPacketId := packetId\<rparr>)),
                  notify_received onReceived
                    (Received (rp_context p) (Some data) size_B 0 streamId CHR ''s''))
               else (set_rx_packet i (p\<lparr>rp_size_B := size_B, rp_copy := data\<rparr>) s, []));
          r = push_ack isReliable streamId packetId r;
          (s, evs') = processRxFifo onReceived now_us s
      in Some (put_rx_stream streamId s r, evs @ evs'))"

definition use_begin ::
  "on_received option \<Rightarrow> tick \<Rightarrow> u32 \<Rightarrow> u8 \<Rightarrow> u32 \<Rightarrow> bool \<Rightarrow> u64 \<Rightarrow> u32
   \<Rightarrow> nat \<Rightarrow> RxStream \<Rightarrow> RxStreams \<Rightarrow> (RxStreams \<times> event list) option" where
  "use_begin onReceived now_us rxPacketBufferSizeThreshold_B streamId packetId isReliable packetSize_B crc32 i s r =
     (let p = rs_fifo s ! i;
          s = (if rp_size_B p = 0
               then set_rx_packet i (p\<lparr>rp_size_B := packetSize_B, rp_crc32 := crc32, rp_id := packetId,
                      rp_isReliable := isReliable,
                      rp_copy := (if packetSize_B \<le> ucast rxPacketBufferSizeThreshold_B
                                  then vec_resize (unat packetSize_B) (rp_copy p) else rp_copy p)\<rparr>) s
               else s);
          (s, evs) = processRxFifo onReceived now_us s
      in Some (put_rx_stream streamId s r, evs))"

text \<open>The end of the piece case: the piece has been taken.\<close>

definition piece_taken ::
  "on_received option \<Rightarrow> tick \<Rightarrow> u8 \<Rightarrow> u32 \<Rightarrow> u64 \<Rightarrow> nat \<Rightarrow> RxPacket \<Rightarrow> RxStream \<Rightarrow> RxStreams
   \<Rightarrow> RxStreams \<times> event list" where
  "piece_taken onReceived now_us streamId packetId end_B i p s r =
     (let p = p\<lparr>rp_offset_B := end_B\<rparr> in
      if rp_size_B p \<le> rp_offset_B p then
        (let s = set_rx_packet i (p\<lparr>rp_isReceived := True\<rparr>) s;
             r = push_ack (rp_isReliable p) streamId packetId r;
             (s, evs) = processRxFifo onReceived now_us s
         in (put_rx_stream streamId s r, evs))
      else (put_rx_stream streamId (set_rx_packet i p s) r, []))"

definition use_piece ::
  "on_received option \<Rightarrow> tick \<Rightarrow> u8 \<Rightarrow> u32 \<Rightarrow> bool \<Rightarrow> u64 \<Rightarrow> u32 \<Rightarrow> bytes
   \<Rightarrow> nat \<Rightarrow> RxStream \<Rightarrow> RxStreams \<Rightarrow> (RxStreams \<times> event list) option" where
  "use_piece onReceived now_us streamId packetId isReliable offset_B pieceSize_B data i s r =
     (let p = rs_fifo s ! i; end_B = offset_B + ucast pieceSize_B;
          leave = (\<lambda>p. Some (put_rx_stream streamId (set_rx_packet i p s) r, [])) in
      if rp_size_B p = 0 then leave (p\<lparr>rp_offsetRepeat_B := 0, rp_isReliable := isReliable\<rparr>)
      else if rp_size_B p < end_B then leave p
      else if offset_B < rp_offset_B p then leave p
      else if rp_offset_B p \<noteq> offset_B then
        (let p = p\<lparr>rp_offset_B := offset_B\<rparr>
         in leave (p\<lparr>rp_offsetRepeat_B := rp_offset_B p, rp_sizeRepeat_B := offset_B - rp_offset_B p\<rparr>))
      else if rp_copy p \<noteq> [] then
        (if unat offset_B + length data \<le> length (rp_copy p)
         then Some (piece_taken onReceived now_us streamId packetId end_B i
                (p\<lparr>rp_copy := overwrite (unat offset_B) data (rp_copy p)\<rparr>) s r)
         else None)
      else if rs_frontPacketId s \<noteq> packetId then
        leave (p\<lparr>rp_offset_B := 0, rp_offsetRepeat_B := 0, rp_sizeRepeat_B := rp_size_B p\<rparr>)
      else (case onReceived of
              None \<Rightarrow> Some (piece_taken onReceived now_us streamId packetId end_B i p s r)
            | Some f \<Rightarrow>
                (let (r, evs) = piece_taken onReceived now_us streamId packetId end_B i
                       (p\<lparr>rp_context := f (rp_context p) (Some data) (ucast pieceSize_B) offset_B
                            streamId CHR ''p''\<rparr>) s r
                 in Some (r, Received (rp_context p) (Some data) (ucast pieceSize_B) offset_B streamId CHR ''p''
                             # evs))))"

subsection \<open>readChunk\<close>

definition on_tx ::
  "nat \<Rightarrow> Connection \<Rightarrow> (TxStreams \<times> event list) option \<Rightarrow> (nat \<times> Connection \<times> event list) option" where
  "on_tx n c res = map_option (\<lambda>(t, evs). (n, c\<lparr>c_txStreams := t\<rparr>, evs)) res"

definition on_rx ::
  "nat \<Rightarrow> Connection \<Rightarrow> (RxStreams \<times> event list) option \<Rightarrow> (nat \<times> Connection \<times> event list) option" where
  "on_rx n c res = map_option (\<lambda>(r, evs). (n, c\<lparr>c_rxStreams := r\<rparr>, evs)) res"

definition read_smallPacket ::
  "tick \<Rightarrow> u8 \<Rightarrow> u8 \<Rightarrow> u32 \<Rightarrow> bytes \<Rightarrow> u32 \<Rightarrow> Connection \<Rightarrow> (nat \<times> Connection \<times> event list) option" where
  "read_smallPacket now_us chunkId streamId packetId buffer available_B c =
     (if sp_isAcknowledge chunkId then
        on_tx g_chunkHeader_B c (read_acknowledge (c_onDelivered c) now_us streamId packetId (c_txStreams c))
      else let bits = sp_packetSizeBits chunkId; packetSizeBytes_B = getNumberOfBytes bits in
        if unat available_B < g_chunkHeader_B + packetSizeBytes_B then Some (0, c, [])
        else if \<not> (bits = B8 \<or> bits = B16) then Some (0, c, [])
        else do {
          (size_B, buffer) \<leftarrow> read_by_bits bits buffer;
          let chunkSize_B = g_chunkHeader_B + packetSizeBytes_B + unat size_B;
          if size_B = 0 then Some (0, c, [])
          else if unat available_B < chunkSize_B then Some (0, c, [])
          else do {
            (data, _) \<leftarrow> take_bytes (unat size_B) buffer;
            on_rx chunkSize_B c
              (rx_chunk now_us (t_RTT_us (c_traffic c)) streamId packetId (sp_isFront chunkId)
                 (sp_isReliable chunkId)
                 (use_small (c_onReceived c) now_us streamId packetId (sp_isReliable chunkId) size_B data)
                 (c_rxStreams c))
          }
        })"

definition read_beginOfPacket ::
  "tick \<Rightarrow> u32 \<Rightarrow> u8 \<Rightarrow> u8 \<Rightarrow> u32 \<Rightarrow> bytes \<Rightarrow> u32 \<Rightarrow> Connection
   \<Rightarrow> (nat \<times> Connection \<times> event list) option" where
  "read_beginOfPacket now_us rxPacketBufferSizeThreshold_B chunkId streamId packetId buffer available_B c =
     (let bits = bp_packetSizeBits chunkId;
          chunkSize_B = g_chunkHeader_B + getNumberOfBytes bits + 4 in
      if unat available_B < chunkSize_B then Some (0, c, [])
      else do {
        (packetSize_B, buffer) \<leftarrow> read_by_bits bits buffer;
        (crc32, _) \<leftarrow> read_u32 buffer;
        on_rx chunkSize_B c
          (rx_chunk now_us (t_RTT_us (c_traffic c)) streamId packetId (bp_isFront chunkId) False
             (use_begin (c_onReceived c) now_us rxPacketBufferSizeThreshold_B streamId packetId
                (bp_isReliable chunkId) packetSize_B crc32)
             (c_rxStreams c))
      })"

definition read_pieceOfPacket ::
  "tick \<Rightarrow> u8 \<Rightarrow> u8 \<Rightarrow> u32 \<Rightarrow> bytes \<Rightarrow> u32 \<Rightarrow> Connection \<Rightarrow> (nat \<times> Connection \<times> event list) option" where
  "read_pieceOfPacket now_us chunkId streamId packetId buffer available_B c =
     (let offsetBits = pp_offsetBits chunkId; pieceBits = pp_pieceSizeBits chunkId;
          fields_B = g_chunkHeader_B + getNumberOfBytes offsetBits + getNumberOfBytes pieceBits in
      if unat available_B < fields_B + 1 then Some (0, c, [])
      else do {
        (offset_B, buffer) \<leftarrow> read_by_bits offsetBits buffer;
        if \<not> (pieceBits = B8 \<or> pieceBits = B16) then Some (0, c, [])
        else do {
          (pieceSize_B, buffer) \<leftarrow> read_by_bits pieceBits buffer;
          let chunkSize_B = fields_B + unat pieceSize_B;
          if unat available_B < chunkSize_B then Some (0, c, [])
          else do {
            (data, _) \<leftarrow> take_bytes (unat pieceSize_B) buffer;
            on_rx chunkSize_B c
              (rx_chunk now_us (t_RTT_us (c_traffic c)) streamId packetId (pp_isFront chunkId)
                 (pp_isReliable chunkId)
                 (use_piece (c_onReceived c) now_us streamId packetId (pp_isReliable chunkId) offset_B
                    (ucast pieceSize_B) data)
                 (c_rxStreams c))
          }
        }
      })"

definition read_repeatInfo_chunk ::
  "u8 \<Rightarrow> u8 \<Rightarrow> u32 \<Rightarrow> bytes \<Rightarrow> u32 \<Rightarrow> Connection \<Rightarrow> (nat \<times> Connection \<times> event list) option" where
  "read_repeatInfo_chunk chunkId streamId packetId buffer available_B c =
     (let offsetBits = ri_repeatOffsetBits chunkId; sizeBits = ri_repeatSizeBits chunkId;
          chunkSize_B = g_chunkHeader_B + getNumberOfBytes offsetBits + getNumberOfBytes sizeBits in
      if unat available_B < chunkSize_B then Some (0, c, [])
      else do {
        (repeatOffset_B, buffer) \<leftarrow> read_by_bits offsetBits buffer;
        (repeatSize_B, _) \<leftarrow> read_by_bits sizeBits buffer;
        on_tx chunkSize_B c (read_repeatInfo streamId packetId repeatOffset_B (c_txStreams c))
      })"

definition readChunk ::
  "tick \<Rightarrow> u32 \<Rightarrow> bytes \<Rightarrow> u32 \<Rightarrow> Connection \<Rightarrow> (nat \<times> Connection \<times> event list) option" where
  "readChunk now_us rxPacketBufferSizeThreshold_B buffer available_B c =
     (if available_B < 3 then Some (0, c, [])
      else do {
        (chunkId, buffer) \<leftarrow> read_u8 buffer;
        (streamId, buffer) \<leftarrow> read_u8 buffer;
        (packetId, buffer) \<leftarrow> read_u32 buffer;
        case chunkType chunkId of
          SmallPacket \<Rightarrow> read_smallPacket now_us chunkId streamId packetId buffer available_B c
        | BeginOfPacket \<Rightarrow> read_beginOfPacket now_us rxPacketBufferSizeThreshold_B chunkId streamId packetId
                              buffer available_B c
        | PieceOfPacket \<Rightarrow> read_pieceOfPacket now_us chunkId streamId packetId buffer available_B c
        | RepeatInfo \<Rightarrow> read_repeatInfo_chunk chunkId streamId packetId buffer available_B c
      })"

subsection \<open>The receive invariant\<close>

lemma rx_ok_front [simp]:
  "rx_ok (updateFrontPacketId f i s) = rx_ok s" "rx_ok (s\<lparr>rs_debugPacketId := d\<rparr>) = rx_ok s"
  by (simp_all add: rx_ok_def rx_mirrored_def)

lemma rx_ok_pop [rx_inv_intros]: "rx_ok s \<Longrightarrow> rx_ok (pop_front_rx s)"
  by (cases "rs_fifo s") (simp_all add: rx_ok_def rx_mirrored_def map_tl)

lemma rx_ok_fold_push [rx_inv_intros]: "rx_ok s \<Longrightarrow> rx_ok (fold (push_packet now) is s)"
  by (auto simp: rx_ok_def rx_mirrored_fold_push list_all_iff rx_packet_ok_def)

lemma rx_ok_emplace [rx_inv_intros]: "rx_ok s \<Longrightarrow> rx_ok (snd (emplace now packetId s))"
  by (cases rule: emplace_cases [of now packetId s]) (simp_all add: rx_ok_fold_push del: fold_append)

lemma get_packet_ok:
  assumes "rx_ok s" "get_packet now packetId s = (i, s')"
  shows "rx_ok s'" "rs_id s' = rs_id s" "i < length (rs_fifo s')"
proof -
  obtain s1 where "s1 = s \<or> s1 = snd (emplace now (rs_frontPacketId s) s)"
    "s' = snd (emplace now packetId s1)"
    using get_packet_split [of s now packetId] assms(2) by (metis snd_conv)
  then show "rx_ok s'" "rs_id s' = rs_id s"
    using assms(1) by (auto intro: rx_ok_emplace)
  show "i < length (rs_fifo s')"
    using assms get_packet_valid [of s now packetId i s'] by (simp add: rx_ok_def)
qed


lemma rxs_ok_lookup: "rxs_ok r \<Longrightarrow> map_of (rxs_map r) k = Some s \<Longrightarrow> rx_ok s \<and> rs_id s = k"
  by (simp add: rxs_ok_def)

lemma rxs_ok_changed: "rxs_ok r \<Longrightarrow> rxs_ok (r\<lparr>rxs_isStreamsChanged := True\<rparr>)"
  by (simp add: rxs_ok_def)

lemma rx_stream_at_put [simp]: "rx_stream_at k (put_rx_stream k s r) = s"
  by (simp add: rx_stream_at_def)

lemma rx_stream_at_changed [simp]: "rx_stream_at k (r\<lparr>rxs_isStreamsChanged := b\<rparr>) = rx_stream_at k r"
  by (simp add: rx_stream_at_def)

lemma rxs_ok_push_ack [simp]: "rxs_ok (push_ack b k i r) = rxs_ok r"
  by (simp add: push_ack_def)

text \<open>A stream that was just opened is initialised under its key.\<close>

lemma open_rx_stream_ok:
  assumes "rxs_ok r"
  shows "rxs_ok (open_rx_stream now k r)" "rx_ok (rx_stream_at k (open_rx_stream now k r))"
    "rs_id (rx_stream_at k (open_rx_stream now k r)) = k"
proof -
  let ?s = "rx_stream_at k r"
  let ?new = "?s\<lparr>rs_isNew := False, rs_id := k\<rparr>"
  let ?s' = "if rs_isNew ?s then snd (get_packet now 0 ?new) else ?s"
  have stored: "rx_stream_at k (open_rx_stream now k r) = ?s'"
    by (simp add: open_rx_stream_def Let_def)
  have s': "rx_ok ?s' \<and> rs_id ?s' = k"
  proof (cases "map_of (rxs_map r) k")
    case None
    then have "rx_ok ?new" by (simp add: rx_stream_at_def RxStream_init_def rx_ok_def rx_mirrored_def)
    with None show ?thesis
      using get_packet_ok [of ?new now 0] by (simp add: rx_stream_at_def RxStream_init_def prod_eq_iff)
  next
    case (Some s)
    then show ?thesis using rxs_ok_lookup [OF assms Some] by (simp add: rx_stream_at_def rx_ok_def)
  qed
  then show "rx_ok (rx_stream_at k (open_rx_stream now k r))"
    "rs_id (rx_stream_at k (open_rx_stream now k r)) = k"
    by (simp_all only: stored)
  have "rxs_ok (put_rx_stream k ?s' r)" using assms s' by (intro rxs_ok_put) auto
  then show "rxs_ok (open_rx_stream now k r)"
    by (simp add: open_rx_stream_def Let_def rxs_ok_changed split: if_splits)
qed

lemma set_rx_packet_simps [simp]:
  "rs_fifo (set_rx_packet i p s) = (rs_fifo s)[i := p]" "rs_id (set_rx_packet i p s) = rs_id s"
  "rs_frontPacketId (set_rx_packet i p s) = rs_frontPacketId s"
  by (simp_all add: set_rx_packet_def)

lemma rx_ok_set_rx_packet [rx_inv_intros]:
  "rx_ok s \<Longrightarrow> rp_id p = rp_id (rs_fifo s ! i) \<Longrightarrow> rx_packet_ok p \<Longrightarrow> rx_ok (set_rx_packet i p s)"
  by (simp add: set_rx_packet_def rx_ok_set)

subsection \<open>The contract of a chunk handler\<close>

text \<open>What \<open>readChunk\<close> does with the packet of a chunk, once it is found: under its
  precondition it returns, and it keeps the invariant of the streams.\<close>

locale rx_handler =
  fixes use :: "nat \<Rightarrow> RxStream \<Rightarrow> RxStreams \<Rightarrow> (RxStreams \<times> event list) option"
    and k :: u8 and packetId :: u32 and pre :: bool
  assumes handles: "pre \<Longrightarrow> rxs_ok r \<Longrightarrow> rx_ok s \<Longrightarrow> rs_id s = k \<Longrightarrow> i < length (rs_fifo s) \<Longrightarrow>
    rp_id (rs_fifo s ! i) = packetId \<Longrightarrow> \<exists>r' evs. use i s r = Some (r', evs) \<and> rxs_ok r'"
begin

lemma rx_chunk_ok:
  assumes pre "rxs_ok r"
  shows "\<exists>r' evs. rx_chunk now RTT_us k packetId isFront ackOld use r = Some (r', evs) \<and> rxs_ok r'"
proof -
  let ?r = "open_rx_stream now k r"
  define s where "s = updateFrontPacketId isFront packetId (rx_stream_at k ?r)"
  have r: "rxs_ok ?r" and s: "rx_ok s" "rs_id s = k"
    using open_rx_stream_ok [OF assms(2), where now = now and k = k] by (simp_all add: s_def)
  obtain i s1 where g: "get_packet now packetId s = (i, s1)" by fastforce
  note s1 = get_packet_ok [OF s(1) g]
  have p: "rx_packet_ok (rs_fifo s1 ! i)" using s1 by (simp add: rx_ok_def list_all_length)
  let ?s2 = "set_rx_packet i ((rs_fifo s1 ! i)\<lparr>rp_timeout_us := now + rtt200 RTT_us\<rparr>) s1"
  have "rx_ok ?s2" using s1(1) p by (intro rx_inv_intros) (simp_all add: rx_packet_ok_def)
  then have "\<exists>r' evs. use i ?s2 ?r = Some (r', evs) \<and> rxs_ok r'" if "rp_id (rs_fifo s1 ! i) = packetId"
    using handles [OF assms(1) r, of ?s2 i] s1(2,3) s(2) that by auto
  moreover have "rxs_ok (put_rx_stream k s ?r)" "rxs_ok (put_rx_stream k s1 ?r)"
    using r s s1 by (auto intro: rxs_ok_put)
  ultimately show ?thesis
    unfolding rx_chunk_def Let_def s_def [symmetric] g prod.case using r by auto
qed

end


lemma processRxFifo_put:
  assumes "rxs_ok r" "rx_ok s" "rs_id s = k"
  shows "rxs_ok (put_rx_stream k (fst (processRxFifo f now s)) r)"
  using assms by (intro rxs_ok_put processRxFifo_ok) simp_all

interpretation small_handler:
  rx_handler "use_small f now k packetId isReliable size_B data" k packetId "length data = unat size_B"
  for f now k packetId isReliable size_B data
proof
  fix r s i
  assume len: "length data = unat size_B" and r: "rxs_ok r" and s: "rx_ok s" "rs_id s = k" "i < length (rs_fifo s)" "rp_id (rs_fifo s ! i) = packetId"
  let ?p = "(rs_fifo s ! i)\<lparr>rp_isReceived := True\<rparr>"
  have ok: "rx_packet_ok (rs_fifo s ! i)" using s by (simp add: rx_ok_def list_all_length)
  then have s1: "rx_ok (set_rx_packet i ?p s)"
    using s(1) by (intro rx_inv_intros) (simp_all add: rx_packet_ok_def)
  have s2: "rx_ok (set_rx_packet i (?p\<lparr>rp_size_B := size_B, rp_copy := data\<rparr>) (set_rx_packet i ?p s))"
    using s1 s(3) len by (intro rx_ok_set_rx_packet [OF s1]) (simp_all add: rx_packet_ok_def)
  define t where "t = (if rp_isReceived (rs_fifo s ! i) then (s, [])
     else if rp_id (hd (rs_fifo (set_rx_packet i ?p s))) = packetId
     then (pop_front_rx (updateFrontPacketId True (packetId + 1)
             ((set_rx_packet i ?p s)\<lparr>rs_debugPacketId := packetId\<rparr>)),
           notify_received f (Received (rp_context ?p) (Some data) size_B 0 k CHR ''s''))
     else (set_rx_packet i (?p\<lparr>rp_size_B := size_B, rp_copy := data\<rparr>) (set_rx_packet i ?p s), []))"
  have t: "rx_ok (fst t)" "rs_id (fst t) = k"
    using s s1 s2 by (auto simp: t_def intro!: rx_ok_pop)
  have "use_small f now k packetId isReliable size_B data i s r =
      Some (put_rx_stream k (fst (processRxFifo f now (fst t))) (push_ack isReliable k packetId r),
        snd t @ snd (processRxFifo f now (fst t)))"
    by (simp add: use_small_def t_def Let_def split: prod.split)
  moreover have "rxs_ok (put_rx_stream k (fst (processRxFifo f now (fst t))) (push_ack isReliable k packetId r))"
    using r t by (intro processRxFifo_put) simp_all
  ultimately show "\<exists>r' evs. use_small f now k packetId isReliable size_B data i s r = Some (r', evs) \<and> rxs_ok r'"
    by blast
qed

interpretation begin_handler:
  rx_handler "use_begin f now threshold_B k packetId isReliable packetSize_B crc32" k packetId True
  for f now threshold_B k packetId isReliable packetSize_B crc32
proof
  fix r s i
  assume r: "rxs_ok r" and s: "rx_ok s" "rs_id s = k" "i < length (rs_fifo s)" "rp_id (rs_fifo s ! i) = packetId"
  let ?p = "rs_fifo s ! i"
  define p where "p = ?p\<lparr>rp_size_B := packetSize_B, rp_crc32 := crc32, rp_id := packetId,
      rp_isReliable := isReliable, rp_copy := (if packetSize_B \<le> ucast threshold_B
         then vec_resize (unat packetSize_B) (rp_copy ?p) else rp_copy ?p)\<rparr>"
  define t where "t = (if rp_size_B ?p = 0 then set_rx_packet i p s else s)"
  have "rx_packet_ok ?p" using s by (simp add: rx_ok_def list_all_length)
  then have "rp_size_B ?p = 0 \<Longrightarrow> rx_packet_ok p" by (auto simp: p_def rx_packet_ok_def)
  then have t: "rx_ok t" "rs_id t = k"
    using s by (auto simp: t_def p_def intro!: rx_ok_set_rx_packet)
  have "use_begin f now threshold_B k packetId isReliable packetSize_B crc32 i s r =
      Some (put_rx_stream k (fst (processRxFifo f now t)) r, snd (processRxFifo f now t))"
    by (simp add: use_begin_def t_def p_def Let_def split: prod.split)
  with processRxFifo_put [OF r t]
  show "\<exists>r' evs. use_begin f now threshold_B k packetId isReliable packetSize_B crc32 i s r = Some (r', evs) \<and> rxs_ok r'"
    by blast
qed

lemma piece_taken_ok:
  assumes r: "rxs_ok r" and s: "rx_ok s" "rs_id s = k" and p: "rp_id p = rp_id (rs_fifo s ! i)" "rx_packet_ok p"
  shows "rxs_ok (fst (piece_taken f now k packetId end_B i p s r))"
proof -
  have ok: "rx_ok (set_rx_packet i (p\<lparr>rp_offset_B := end_B, rp_isReceived := b\<rparr>) s)"
    "rx_ok (set_rx_packet i (p\<lparr>rp_offset_B := end_B\<rparr>) s)" for b
    using s p by (auto intro!: rx_ok_set_rx_packet simp: rx_packet_ok_def)
  have "rxs_ok (put_rx_stream k (fst (processRxFifo f now
      (set_rx_packet i (p\<lparr>rp_offset_B := end_B, rp_isReceived := b\<rparr>) s))) (push_ack c k packetId r))" for b c
    using r s ok by (intro processRxFifo_put) simp_all
  moreover have "rxs_ok (put_rx_stream k (set_rx_packet i (p\<lparr>rp_offset_B := end_B\<rparr>) s) r)"
    using r s ok by (intro rxs_ok_put) simp_all
  ultimately show ?thesis
    by (simp add: piece_taken_def Let_def case_prod_beta)
qed

text \<open>A piece whose end does not wrap around lies inside the copy of its packet.\<close>

interpretation piece_handler:
  rx_handler "use_piece f now k packetId isReliable offset_B pieceSize_B data" k packetId
    "length data = unat pieceSize_B \<and> unat offset_B + unat pieceSize_B < 2 ^ 64"
  for f now k packetId isReliable offset_B pieceSize_B data
proof
  fix r s i
  assume pre: "length data = unat pieceSize_B \<and> unat offset_B + unat pieceSize_B < 2 ^ 64"
    and r: "rxs_ok r" and s: "rx_ok s" "rs_id s = k" "i < length (rs_fifo s)" "rp_id (rs_fifo s ! i) = packetId"
  define p where "p = rs_fifo s ! i"
  let ?till = "offset_B + ucast pieceSize_B"
  have p: "rx_packet_ok p" "rp_id p = rp_id (rs_fifo s ! i)"
    using s by (simp_all add: p_def rx_ok_def list_all_length)
  have leave: "rxs_ok (put_rx_stream k (set_rx_packet i q s) r)"
    if "rp_id q = rp_id p" "rp_copy q = rp_copy p" "rp_size_B q = rp_size_B p" for q
    using r s p that by (intro rxs_ok_put rx_ok_set_rx_packet) (auto simp: rx_packet_ok_def)
  have take: "\<exists>r' evs. piece_taken f now k packetId ?till i q s r = (r', evs) \<and> rxs_ok r'"
    if "rp_id q = rp_id p" "rx_packet_ok q" for q
    using piece_taken_ok [OF r s(1,2), of q i f now packetId ?till] p that
    by (cases "piece_taken f now k packetId ?till i q s r") simp
  have "unat ?till = unat offset_B + unat pieceSize_B"
    using pre by (simp add: unat_word_ariths)
  then have fits: "unat offset_B + length data \<le> length (rp_copy p)"
    if "\<not> rp_size_B p < ?till" "rp_copy p \<noteq> []"
    using that p(1) pre by (auto simp: word_less_nat_alt rx_packet_ok_def)
  then have copy: "rx_packet_ok (p\<lparr>rp_copy := overwrite (unat offset_B) data (rp_copy p)\<rparr>)"
    if "\<not> rp_size_B p < ?till" "rp_copy p \<noteq> []"
    using that p(1) length_overwrite [of "unat offset_B" data "rp_copy p"] by (simp add: rx_packet_ok_def)
  have "rx_packet_ok (p\<lparr>rp_context := x\<rparr>)" for x using p(1) by (simp add: rx_packet_ok_def)
  then have ctx: "\<exists>r' evs. (case piece_taken f now k packetId ?till i (p\<lparr>rp_context := x\<rparr>) s r of
      (r, evs) \<Rightarrow> Some (r, e # evs)) = Some (r', evs) \<and> rxs_ok r'" for x e
    using take [of "p\<lparr>rp_context := x\<rparr>"] by auto
  show "\<exists>r' evs. use_piece f now k packetId isReliable offset_B pieceSize_B data i s r = Some (r', evs) \<and> rxs_ok r'"
    unfolding use_piece_def Let_def p_def [symmetric]
    using leave take [OF _ p(1)] take [OF _ copy] ctx fits p(1)
    by (auto split: option.split)
qed

subsection \<open>readChunk is safe\<close>

lemma with_tx_packet_ok:
  assumes t: "txs_ok t"
    and f: "\<And>i s. tx_ok s \<Longrightarrow> i < length (ts_fifo s) \<Longrightarrow> tx_ok (fst (f i s)) \<and> ts_id (fst (f i s)) = ts_id s
      \<and> ts_isNew (fst (f i s)) = ts_isNew s \<and> ts_priority (fst (f i s)) = ts_priority s"
  shows "\<exists>t' evs. with_tx_packet k packetId f t = Some (t', evs) \<and> txs_ok t'"
proof (cases "map_of (txs_map t) k")
  case None
  then show ?thesis using t by (simp add: with_tx_packet_def)
next
  case (Some s)
  have s: "tx_ok s" using txs_ok_lookup [OF t Some] by simp
  then have len: "length (ts_fifoShadow s) = length (ts_fifo s)" by (simp add: tx_ok_def)
  show ?thesis
  proof (cases "findPacketIdx (ts_fifoShadow s) packetId")
    case (Found i)
    then have i: "i < length (ts_fifo s)" using findPacketIdx_sound len by metis
    then have "txs_ok (put_tx_stream k (fst (f i s)) t)"
      using f [OF s i] t Some by (intro txs_ok_replace) auto
    then show ?thesis using Some Found i by (auto simp: with_tx_packet_def case_prod_beta)
  next
    case NotFound
    then show ?thesis using t Some by (simp add: with_tx_packet_def)
  next
    case Trap
    then show ?thesis using findPacketIdx_sound by blast
  qed
qed

lemma read_acknowledge_ok:
  "txs_ok t \<Longrightarrow> \<exists>t' evs. read_acknowledge d now k packetId t = Some (t', evs) \<and> txs_ok t'"
  unfolding read_acknowledge_def
  by (rule with_tx_packet_ok) (auto intro!: tx_inv_intros)

lemma read_repeatInfo_ok:
  "txs_ok t \<Longrightarrow> \<exists>t' evs. read_repeatInfo k packetId off t = Some (t', evs) \<and> txs_ok t'"
  unfolding read_repeatInfo_def
  by (rule with_tx_packet_ok) (auto simp: Let_def intro!: tx_inv_intros)

text \<open>What a reader leaves: it consumed at most what was available and kept the invariants.\<close>

definition conn_ok :: "Connection \<Rightarrow> bool" where
  "conn_ok c \<longleftrightarrow> rxs_ok (c_rxStreams c) \<and> txs_ok (c_txStreams c)"

definition consumed :: "u32 \<Rightarrow> (nat \<times> Connection \<times> event list) option \<Rightarrow> bool" where
  "consumed available_B res \<longleftrightarrow> (\<exists>n c evs. res = Some (n, c, evs) \<and> n \<le> unat available_B \<and> conn_ok c)"

lemma consumed_0: "conn_ok c \<Longrightarrow> consumed a (Some (0, c, []))"
  by (simp add: consumed_def)

lemma consumed_tx:
  "conn_ok c \<Longrightarrow> n \<le> unat a \<Longrightarrow> \<exists>t evs. res = Some (t, evs) \<and> txs_ok t \<Longrightarrow> consumed a (on_tx n c res)"
  by (auto simp: consumed_def on_tx_def conn_ok_def)

lemma consumed_rx:
  "conn_ok c \<Longrightarrow> n \<le> unat a \<Longrightarrow> \<exists>r evs. res = Some (r, evs) \<and> rxs_ok r \<Longrightarrow> consumed a (on_rx n c res)"
  by (auto simp: consumed_def on_rx_def conn_ok_def)

lemma read_u8_long: "1 \<le> length b \<Longrightarrow> \<exists>v. read_u8 b = Some (v, drop 1 b)"
  by (simp add: read_u8_def take_bytes_def)

lemma read_u32_long: "4 \<le> length b \<Longrightarrow> \<exists>v. read_u32 b = Some (v, drop 4 b)"
  by (simp add: read_u32_def take_bytes_def)

lemma take_bytes_long: "n \<le> length b \<Longrightarrow> \<exists>data rest. take_bytes n b = Some (data, rest) \<and> length data = n"
  by (simp add: take_bytes_def)

lemma unat_ucast_u8_u64 [simp]: "unat (ucast (x :: u8) :: u64) = unat x"
  by (rule unat_ucast_small) (rule less_trans [OF unat_u8_less], simp)

lemma unat_ucast_u16_u64 [simp]: "unat (ucast (x :: u16) :: u64) = unat x"
  by (rule unat_ucast_small) (rule less_trans [OF unat_u16_less], simp)

lemma read_by_bits_long:
  "getNumberOfBytes bits \<le> length b \<Longrightarrow> \<exists>v. read_by_bits bits b = Some (v, drop (getNumberOfBytes bits) b)
     \<and> unat v < 256 ^ getNumberOfBytes bits"
  by (cases bits) (simp_all add: read_by_bits_def read_defs take_bytes_def)

lemma read_smallPacket_consumed:
  assumes c: "conn_ok c" and b: "g_chunkHeader_B \<le> unat a" "unat a \<le> g_chunkHeader_B + length b"
  shows "consumed a (read_smallPacket now chunkId k packetId b a c)"
proof (cases "sp_isAcknowledge chunkId")
  case True
  then show ?thesis
    using c b read_acknowledge_ok [of "c_txStreams c"] by (auto simp: read_smallPacket_def conn_ok_def intro!: consumed_tx)
next
  case False
  define bits where "bits = sp_packetSizeBits chunkId"
  show ?thesis
  proof (cases "unat a < g_chunkHeader_B + getNumberOfBytes bits \<or> \<not> (bits = B8 \<or> bits = B16)")
    case True
    then show ?thesis
      using False c by (auto simp: read_smallPacket_def bits_def [symmetric] Let_def consumed_0)
  next
    case small: False
    then obtain v where v: "read_by_bits bits b = Some (v, drop (getNumberOfBytes bits) b)"
      using read_by_bits_long [of bits b] b by auto
    show ?thesis
    proof (cases "v = 0 \<or> unat a < g_chunkHeader_B + getNumberOfBytes bits + unat v")
      case True
      then show ?thesis
        using False small v c by (auto simp: read_smallPacket_def bits_def [symmetric] Let_def consumed_0)
    next
      case fits: False
      then have "unat v \<le> length (drop (getNumberOfBytes bits) b)" using b by auto
      then obtain data rest where d: "take_bytes (unat v) (drop (getNumberOfBytes bits) b) = Some (data, rest)"
        "length data = unat v"
        using take_bytes_long by blast
      have "read_smallPacket now chunkId k packetId b a c =
          on_rx (g_chunkHeader_B + getNumberOfBytes bits + unat v) c
            (rx_chunk now (t_RTT_us (c_traffic c)) k packetId (sp_isFront chunkId) (sp_isReliable chunkId)
               (use_small (c_onReceived c) now k packetId (sp_isReliable chunkId) v data) (c_rxStreams c))"
        using False small fits v d by (auto simp: read_smallPacket_def bits_def [symmetric] Let_def)
      then show ?thesis
        using c fits d(2) small_handler.rx_chunk_ok [of data v "c_rxStreams c"]
        by (auto simp: conn_ok_def intro!: consumed_rx)
    qed
  qed
qed

lemma read_beginOfPacket_consumed:
  assumes c: "conn_ok c" and b: "unat a \<le> g_chunkHeader_B + length b"
  shows "consumed a (read_beginOfPacket now threshold_B chunkId k packetId b a c)"
proof -
  define bits where "bits = bp_packetSizeBits chunkId"
  show ?thesis
  proof (cases "unat a < g_chunkHeader_B + getNumberOfBytes bits + 4")
    case True
    then show ?thesis using c by (auto simp: read_beginOfPacket_def bits_def [symmetric] Let_def consumed_0)
  next
    case False
    then obtain v where v: "read_by_bits bits b = Some (v, drop (getNumberOfBytes bits) b)"
      using read_by_bits_long [of bits b] b by auto
    have "4 \<le> length (drop (getNumberOfBytes bits) b)" using False b by simp
    then obtain crc where crc: "read_u32 (drop (getNumberOfBytes bits) b) =
        Some (crc, drop 4 (drop (getNumberOfBytes bits) b))"
      using read_u32_long by blast
    show ?thesis
      using c False begin_handler.rx_chunk_ok [of "c_rxStreams c"]
      by (auto simp: read_beginOfPacket_def bits_def [symmetric] Let_def v crc conn_ok_def intro!: consumed_rx)
  qed
qed

lemma read_pieceOfPacket_consumed:
  assumes c: "conn_ok c" and b: "unat a \<le> g_chunkHeader_B + length b" and bits: "pp_offsetBits chunkId \<noteq> B64"
  shows "consumed a (read_pieceOfPacket now chunkId k packetId b a c)"
proof -
  define ob where "ob = pp_offsetBits chunkId"
  define pb where "pb = pp_pieceSizeBits chunkId"
  let ?f = "g_chunkHeader_B + getNumberOfBytes ob + getNumberOfBytes pb"
  note defs = read_pieceOfPacket_def ob_def [symmetric] pb_def [symmetric] Let_def
  show ?thesis
  proof (cases "unat a < ?f + 1")
    case True
    then show ?thesis using c by (auto simp: defs consumed_0)
  next
    case False
    obtain off where off: "read_by_bits ob b = Some (off, drop (getNumberOfBytes ob) b)"
      "unat off < 256 ^ getNumberOfBytes ob"
      using read_by_bits_long [of ob b] False b by auto
    then have off32: "unat off < 2 ^ 32" using bits by (cases ob) (auto simp: ob_def [symmetric])
    have "getNumberOfBytes pb \<le> length (drop (getNumberOfBytes ob) b)" using False b by simp
    then obtain v where v: "read_by_bits pb (drop (getNumberOfBytes ob) b) =
        Some (v, drop (getNumberOfBytes pb) (drop (getNumberOfBytes ob) b))" "unat v < 256 ^ getNumberOfBytes pb"
      using read_by_bits_long by blast
    show ?thesis
    proof (cases "\<not> (pb = B8 \<or> pb = B16) \<or> unat a < ?f + unat v")
      case True
      then show ?thesis using c False off v by (auto simp: defs consumed_0)
    next
      case fits: False
      then have "unat v \<le> length (drop (getNumberOfBytes pb) (drop (getNumberOfBytes ob) b))" using b by auto
      then obtain data rest where d: "take_bytes (unat v) (drop (getNumberOfBytes pb) (drop (getNumberOfBytes ob) b))
          = Some (data, rest)" "length data = unat v"
        using take_bytes_long by blast
      have v16: "unat v < 2 ^ 16" using fits v(2) by (cases pb) auto
      then have "unat (ucast v :: u32) = unat v" by (simp add: unat_ucast_mod)
      then have pre: "length data = unat (ucast v :: u32) \<and> unat off + unat (ucast v :: u32) < 2 ^ 64"
        using d(2) off32 v16 by simp
      have "read_pieceOfPacket now chunkId k packetId b a c = on_rx (?f + unat v) c
          (rx_chunk now (t_RTT_us (c_traffic c)) k packetId (pp_isFront chunkId) (pp_isReliable chunkId)
             (use_piece (c_onReceived c) now k packetId (pp_isReliable chunkId) off (ucast v) data) (c_rxStreams c))"
        using False fits off v d by (auto simp: defs)
      then show ?thesis
        using c fits piece_handler.rx_chunk_ok [OF pre, of "c_rxStreams c"]
        by (auto simp: conn_ok_def intro!: consumed_rx)
    qed
  qed
qed

lemma read_repeatInfo_chunk_consumed:
  assumes c: "conn_ok c" and b: "unat a \<le> g_chunkHeader_B + length b"
  shows "consumed a (read_repeatInfo_chunk chunkId k packetId b a c)"
proof -
  define ob where "ob = ri_repeatOffsetBits chunkId"
  define sb where "sb = ri_repeatSizeBits chunkId"
  note defs = read_repeatInfo_chunk_def ob_def [symmetric] sb_def [symmetric] Let_def
  show ?thesis
  proof (cases "unat a < g_chunkHeader_B + getNumberOfBytes ob + getNumberOfBytes sb")
    case True
    then show ?thesis using c by (auto simp: defs consumed_0)
  next
    case False
    obtain off where off: "read_by_bits ob b = Some (off, drop (getNumberOfBytes ob) b)"
      using read_by_bits_long [of ob b] False b by auto
    have "getNumberOfBytes sb \<le> length (drop (getNumberOfBytes ob) b)" using False b by simp
    then obtain v where v: "read_by_bits sb (drop (getNumberOfBytes ob) b) =
        Some (v, drop (getNumberOfBytes sb) (drop (getNumberOfBytes ob) b))"
      using read_by_bits_long by blast
    show ?thesis
      using c False read_repeatInfo_ok [of "c_txStreams c"]
      by (auto simp: defs off v conn_ok_def intro!: consumed_tx)
  qed
qed

lemma readChunk_consumed:
  assumes "conn_ok c" "unat a \<le> length b" "a < 3 \<or> g_chunkHeader_B \<le> unat a"
    "chunkType (hd b) = PieceOfPacket \<Longrightarrow> pp_offsetBits (hd b) \<noteq> B64"
  shows "consumed a (readChunk now threshold_B b a c)"
proof (cases "a < 3")
  case True
  then show ?thesis using assms(1) by (simp add: readChunk_def consumed_0)
next
  case False
  then have len: "g_chunkHeader_B \<le> unat a" "g_chunkHeader_B \<le> length b" using assms by auto
  then obtain id b1 where b1: "b = id # b1" by (cases b) auto
  then obtain k b2 where b2: "b1 = k # b2" using len by (cases b1) auto
  have "4 \<le> length b2" using len b1 b2 by simp
  then obtain packetId where pid: "read_u32 b2 = Some (packetId, drop 4 b2)" using read_u32_long by blast
  have u8: "read_u8 b = Some (id, b1)" "read_u8 b1 = Some (k, b2)"
    by (simp_all add: b1 b2 read_u8_def take_bytes_def)
  have rest: "unat a \<le> g_chunkHeader_B + length (drop 4 b2)" using assms(2) b1 b2 len by simp
  have bits: "chunkType id = PieceOfPacket \<Longrightarrow> pp_offsetBits id \<noteq> B64" using assms(4) b1 by simp
  show ?thesis
    using False assms(1) len(1) rest bits
    by (cases "chunkType id")
      (auto simp: readChunk_def u8 pid intro!: read_smallPacket_consumed read_beginOfPacket_consumed
        read_pieceOfPacket_consumed read_repeatInfo_chunk_consumed)
qed

text \<open>
  C8. \<open>readChunk\<close> is memory safe and makes progress within bounds: for every byte string of a
  datagram, when at least a chunk header is available (or less than three bytes) and the chunk is
  not a piece with a 64-bit offset, it reads nothing behind the datagram, writes nothing outside a
  packet's copy, consumes at most what is available, and keeps the invariants of all streams.
\<close>

theorem readChunk_safe:
  assumes "conn_ok c" "unat available_B \<le> length buffer"
    "available_B < 3 \<or> g_chunkHeader_B \<le> unat available_B"
    "chunkType (hd buffer) = PieceOfPacket \<longrightarrow> pp_offsetBits (hd buffer) \<noteq> B64"
  shows "\<exists>n c' evs. readChunk now_us threshold_B buffer available_B c = Some (n, c', evs)
    \<and> n \<le> unat available_B \<and> conn_ok c'"
  using readChunk_consumed [of c available_B buffer now_us threshold_B] assms
  by (simp add: consumed_def)

lemma conn_ok_init [simp]: "conn_ok Connection_init"
  by (simp add: conn_ok_def Connection_init_def rxs_ok_init txs_ok_init)

theorem readChunk_safe_witness:
  "\<exists>n c' evs. readChunk 0 0 [0x40, 0, 0, 0, 0, 0, 1, 0, 7] 9 Connection_init = Some (n, c', evs) \<and> n \<le> 9"
proof -
  have "chunkType 0x40 = SmallPacket" by (simp add: chunkType_def get_bits_def code_type_def)
  then show ?thesis
    using readChunk_safe [of Connection_init 9 "[0x40, 0, 0, 0, 0, 0, 1, 0, 7]" 0 0] by fastforce
qed

subsection \<open>Where readChunk goes wrong\<close>

text \<open>
  C33. The guard of \<open>readChunk\<close> lets a chunk of 3 to 5 bytes through although it reads 6: a
  truncated acknowledgement is taken from the bytes that lie behind the datagram in the buffer, and
  more bytes are reported as consumed than were available.
\<close>

theorem truncated_ack_overreads:
  assumes "conn_ok c" "3 \<le> available_B" "unat available_B < g_chunkHeader_B"
  shows "\<exists>c' evs. readChunk now_us threshold_B
      (chunk_header (mk_smallPacket True True False B8) streamId packetId @ behind) available_B c
    = Some (g_chunkHeader_B, c', evs)"
proof -
  obtain t evs where "read_acknowledge (c_onDelivered c) now_us streamId packetId (c_txStreams c) = Some (t, evs)"
    using read_acknowledge_ok assms(1) by (fastforce simp: conn_ok_def)
  moreover have "\<not> available_B < 3" using assms(2) by simp
  ultimately show ?thesis
    by (simp add: readChunk_def chunk_header_def read_write read_smallPacket_def on_tx_def)
qed

theorem truncated_ack_overreads_witness:
  "\<exists>c' evs. readChunk 0 0 (chunk_header (mk_smallPacket True True False B8) 1 2 @ []) 4 Connection_init
    = Some (6, c', evs)"
  by (rule truncated_ack_overreads) simp_all

text \<open>
  C34. The range check of a piece, \<open>offset_B + pieceSize_B > packet.size_B\<close>, wraps around: with an
  offset close to \<open>UINT64_MAX\<close> a first piece moves the packet's offset there, and a second one is
  then copied to that offset, outside the packet's buffer.
\<close>

theorem piece_offset_wraps:
  assumes s: "i < length (rs_fifo s)" "p = rs_fifo s ! i" "rp_copy p \<noteq> []" "rp_size_B p \<noteq> 0"
    and off: "rp_offset_B p < offset_B" "2 ^ 64 \<le> unat offset_B + unat pieceSize_B"
      "offset_B + ucast pieceSize_B \<le> rp_size_B p" "length (rp_copy p) \<le> unat offset_B" "data \<noteq> []"
  shows "\<exists>s'. use_piece f now streamId packetId b offset_B pieceSize_B data i s r = Some (put_rx_stream streamId s' r, [])
    \<and> use_piece f now streamId packetId b offset_B pieceSize_B data i s' (put_rx_stream streamId s' r) = None"
proof -
  define q where "q = p\<lparr>rp_offset_B := offset_B, rp_offsetRepeat_B := offset_B, rp_sizeRepeat_B := 0\<rparr>"
  have n: "\<not> rp_size_B p < offset_B + ucast pieceSize_B" "\<not> offset_B < rp_offset_B p" "rp_offset_B p \<noteq> offset_B"
    using off by auto
  have "use_piece f now streamId packetId b offset_B pieceSize_B data i s r
      = Some (put_rx_stream streamId (set_rx_packet i q s) r, [])"
    unfolding use_piece_def Let_def s(2) [symmetric] q_def using s(4) n by simp
  moreover have "use_piece f now streamId packetId b offset_B pieceSize_B data i (set_rx_packet i q s)
      (put_rx_stream streamId (set_rx_packet i q s) r) = None"
  proof -
    have "rs_fifo (set_rx_packet i q s) ! i = q" using s(1) by simp
    moreover have "\<not> unat offset_B + length data \<le> length (rp_copy p)" using off(4,5) by (cases data) auto
    ultimately show ?thesis
      unfolding use_piece_def Let_def using s(3,4) n(1) by (simp add: q_def)
  qed
  ultimately show ?thesis by blast
qed

theorem piece_offset_wraps_witness:
  "let s = RxStream_init\<lparr>rs_fifo := [RxPacket_init\<lparr>rp_copy := replicate 100 0, rp_size_B := 100\<rparr>]\<rparr>
   in \<exists>s'. use_piece None 0 0 0 True 0xFFFFFFFFFFFFFFFB 10 (replicate 10 0) 0 s RxStreams_init
            = Some (put_rx_stream 0 s' RxStreams_init, [])
      \<and> use_piece None 0 0 0 True 0xFFFFFFFFFFFFFFFB 10 (replicate 10 0) 0 s'
          (put_rx_stream 0 s' RxStreams_init) = None"
  unfolding Let_def
  by (rule piece_offset_wraps [OF _ refl]) (simp_all add: RxPacket_init_def)

text \<open>A piece behind a gap: the offset is overwritten before the repeat request is computed from it, so
  that the request names an empty range behind the gap.\<close>

lemma use_piece_gap:
  assumes "p = rs_fifo s ! i" "rp_size_B p \<noteq> 0" "rp_offset_B p < offset_B" "offset_B + ucast pieceSize_B \<le> rp_size_B p"
  shows "use_piece f now streamId packetId b offset_B pieceSize_B data i s r
    = Some (put_rx_stream streamId (set_rx_packet i
        (p\<lparr>rp_offset_B := offset_B, rp_offsetRepeat_B := offset_B, rp_sizeRepeat_B := 0\<rparr>) s) r, [])"
proof -
  have "\<not> rp_size_B p < offset_B + ucast pieceSize_B" "\<not> offset_B < rp_offset_B p" "rp_offset_B p \<noteq> offset_B"
    using assms(3,4) by auto
  then show ?thesis unfolding use_piece_def Let_def assms(1) [symmetric] using assms(2) by simp
qed

subsection \<open>The transmit queues as an abstract queue\<close>

text \<open>What is still to be delivered at \<open>now_us\<close>: for each stream the identifiers of the packets that
  are neither acknowledged nor expired, in order. Sending and acknowledging are an append and a
  removal there.\<close>

definition pending :: "tick \<Rightarrow> TxStreams \<Rightarrow> u8 \<Rightarrow> u32 list" where
  "pending now_us t k = (case map_of (txs_map t) k of None \<Rightarrow> []
     | Some s \<Rightarrow> map tp_id (filter (tx_keep now_us) (ts_fifo s)))"

definition next_id :: "TxStreams \<Rightarrow> u8 \<Rightarrow> u32" where
  "next_id t k = (case map_of (txs_map t) k of None \<Rightarrow> 0 | Some s \<Rightarrow> ts_nextPacketId s)"

lemma pending_put [simp]:
  "pending now (put_tx_stream k s t) = (pending now t)(k := map tp_id (filter (tx_keep now) (ts_fifo s)))"
  by (rule ext) (simp add: pending_def put_tx_stream_def update_conv')

lemma pending_changed [simp]: "pending now (t\<lparr>txs_isStreamsChanged := b\<rparr>) = pending now t"
  by (rule ext) (simp add: pending_def)

lemma pending_stream: "pending now t k = map tp_id (filter (tx_keep now) (ts_fifo (tx_stream_at k t)))"
  by (simp add: pending_def tx_stream_at_def TxStream_init_def split: option.split)

lemma next_id_stream: "next_id t k = ts_nextPacketId (tx_stream_at k t)"
  by (simp add: next_id_def tx_stream_at_def TxStream_init_def split: option.split)

lemma pending_open [simp]: "pending now (open_tx_stream k t) = pending now t"
  by (rule ext) (simp add: open_tx_stream_def Let_def pending_stream [symmetric])

lemma pending_send:
  assumes "txs_ok t" "now' \<le> now + int (unat timeout_ms) * 1000"
  shows "pending now' (run_send ctx data size_B copy k timeout_ms now t)
    = (pending now' t)(k := pending now' t k @ [next_id t k])"
proof -
  have s: "tx_stream_at k (open_tx_stream k t) = (tx_stream_at k t)\<lparr>ts_isNew := False, ts_id := k\<rparr>"
    by (rule open_tx_stream_stored(2) [OF assms(1)])
  show ?thesis
    using assms(2) by (simp add: run_send_def Let_def s pending_stream next_id_stream tx_keep_def TxPacket_init_def)
qed

lemma keep_after_ack:
  assumes "distinct (map tp_id ps)" "i < length ps" "tp_id q = tp_id (ps ! i)" "tp_isAcknowledged q"
  shows "map tp_id (filter (tx_keep now) (ps[i := q])) = filter (\<lambda>n. n \<noteq> tp_id q) (map tp_id (filter (tx_keep now) ps))"
  using assms
proof (induction ps arbitrary: i)
  case (Cons p ps)
  show ?case
  proof (cases i)
    case 0
    have "filter (\<lambda>n. n \<noteq> tp_id p) (map tp_id (filter (tx_keep now) ps)) = map tp_id (filter (tx_keep now) ps)"
      using Cons.prems(1) by (intro filter_True) force
    moreover have "\<not> tx_keep now q" using Cons.prems(4) by (simp add: tx_keep_def)
    ultimately show ?thesis using 0 Cons.prems by simp
  next
    case (Suc j)
    then have "tp_id p \<noteq> tp_id q" using Cons.prems nth_mem [of j "map tp_id ps"] by auto
    then show ?thesis using Suc Cons by simp
  qed
qed simp

lemma pending_acknowledge:
  assumes t: "txs_ok t" and len: "\<And>s. map_of (txs_map t) k = Some s \<Longrightarrow> length (ts_fifo s) \<le> 2 ^ 32"
    and r: "read_acknowledge d now k packetId t = Some (t', evs)"
  shows "pending now t' = (pending now t)(k := filter (\<lambda>n. n \<noteq> packetId) (pending now t k))"
proof (cases "map_of (txs_map t) k")
  case None
  then show ?thesis using r by (simp add: read_acknowledge_def with_tx_packet_def pending_def fun_upd_idem)
next
  case (Some s)
  have s: "ts_fifoShadow s = map tp_id (ts_fifo s)" "consecutive (ts_fifoShadow s)"
    using txs_ok_lookup [OF t Some] by (auto simp: tx_ok_def)
  show ?thesis
  proof (cases "findPacketIdx (ts_fifoShadow s) packetId")
    case (Found i)
    let ?p = "(ts_fifo s ! i)\<lparr>tp_isAcknowledged := True\<rparr>"
    have i: "i < length (ts_fifo s)" "tp_id (ts_fifo s ! i) = packetId"
      using findPacketIdx_sound [of "ts_fifoShadow s" packetId] Found s(1) by auto
    have "distinct (map tp_id (ts_fifo s))" using consecutive_distinct [OF s(2)] len [OF Some] s(1) by simp
    note ack = keep_after_ack [OF this i(1), of ?p now]
    have "t' = put_tx_stream k (fst (processTxFifo d now (set_packet i ?p s))) t"
      using r Some Found i by (auto simp: read_acknowledge_def with_tx_packet_def case_prod_beta)
    moreover have "filter (tx_keep now) (dropWhile (\<lambda>p. \<not> tx_keep now p) xs) = filter (tx_keep now) xs" for xs
      by (induction xs) auto
    ultimately show ?thesis
      using ack i Some by (simp add: processTxFifo_eq Let_def set_packet_def pending_def)
  next
    case NotFound
    then have "packetId \<notin> set (map tp_id (ts_fifo s))"
      using findPacketIdx_complete [OF s(2)] len [OF Some] s(1) by (metis search_result.distinct(1) length_map)
    then have "filter (\<lambda>n. n \<noteq> packetId) (pending now t k) = pending now t k"
      using Some by (intro filter_True) (auto simp: pending_def)
    then show ?thesis using r Some NotFound by (simp add: read_acknowledge_def with_tx_packet_def fun_upd_idem)
  next
    case Trap
    then show ?thesis using findPacketIdx_sound by blast
  qed
qed

text \<open>
  C12. The transmit queues implement an abstract queue per stream. Seen as the identifiers still to be
  delivered, a queued \<open>send\<close> appends the stream's next identifier, until the packet expires, and an
  acknowledgement removes exactly the identifier it names and nothing else, in whatever order the
  acknowledgements come; no other stream changes.
\<close>

theorem tx_queue_refines:
  assumes "txs_ok t" "\<And>s. map_of (txs_map t) k = Some s \<Longrightarrow> length (ts_fifo s) \<le> 2 ^ 32"
  shows "(now' \<le> now + int (unat timeout_ms) * 1000 \<longrightarrow>
      pending now' (run_send ctx data size_B copy k timeout_ms now t)
        = (pending now' t)(k := pending now' t k @ [next_id t k]))
    \<and> (\<exists>t' evs. read_acknowledge d now k packetId t = Some (t', evs)
      \<and> pending now t' = (pending now t)(k := filter (\<lambda>n. n \<noteq> packetId) (pending now t k)))"
  using pending_send [OF assms(1)] pending_acknowledge [OF assms] read_acknowledge_ok [OF assms(1), of d now k packetId] by blast

theorem tx_queue_refines_witness:
  "pending 5 (run_send 0 [1] 1 True 3 10 2 TxStreams_init) 3 = [0]
   \<and> (\<exists>t' evs. read_acknowledge True 2 3 0 TxStreams_init = Some (t', evs) \<and> pending 2 t' 3 = [])"
proof -
  have "next_id TxStreams_init 3 = 0" "pending n TxStreams_init 3 = []" for n
    by (simp_all add: next_id_def pending_def TxStreams_init_def)
  moreover have "map_of (txs_map TxStreams_init) 3 = None" by (simp add: TxStreams_init_def)
  ultimately show ?thesis
    using tx_queue_refines [OF txs_ok_init, of 3 5 2 10 0 "[1]" 1 True True 0] by auto
qed

subsection \<open>Repeat requests\<close>

text \<open>The offset of a repeat request is not checked. A peer that asks for an offset behind the end of a
  reliable packet whose transmission has begun is believed, and the next piece of that packet is read
  from memory behind the packet's data.\<close>

lemma repeat_offset_unchecked:
  assumes s: "map_of (txs_map t) k = Some s" "findPacketIdx (ts_fifoShadow s) packetId = Found i" "i < length (ts_fifo s)"
    and p: "tx_packet_ok (ts_fifo s ! i)" "tp_isReliable (ts_fifo s ! i)" "tp_isStarted (ts_fifo s ! i)"
      "tp_size_B (ts_fifo s ! i) < off"
    and a: "17 \<le> unat a" "unat a < 65536"
  shows "\<exists>t' s'. read_repeatInfo k packetId off t = Some (t', []) \<and> map_of (txs_map t') k = Some s'
    \<and> write_selected d now m a priority k (s'\<lparr>ts_packetFifoIdx := i\<rparr>) t' = None"
proof -
  define p where "p = (ts_fifo s ! i)\<lparr>tp_offset_B := off\<rparr>"
  define n where "n = min (unat a - (6 + getNumberOfBytes (getNumberOfBits off) + 2 + 1) + 1) (unat (tp_size_B p - off))"
  have "off \<noteq> 0" using p(4) by auto
  then have r: "read_repeatInfo k packetId off t = Some (put_tx_stream k (set_packet i p s) t, [])"
    using s p(2) by (simp add: read_repeatInfo_def with_tx_packet_def p_def Let_def)
  have "getNumberOfBytes (getNumberOfBits off) \<le> 8" by (cases "getNumberOfBits off") auto
  moreover have "tp_size_B p - off \<noteq> 0" using p(4) by (auto simp: p_def)
  ultimately have n: "1 \<le> n" "n < 65536" using a by (auto simp: n_def unat_gt_0 Suc_le_eq)
  have bits: "getNumberOfBits (of_nat n) = B8 \<or> getNumberOfBits (of_nat n) = B16"
    using n unat_of_nat_small [of n, where 'a = 64] by (intro getNumberOfBits_small) simp
  have "mem_read (tp_pointer p) (unat off) n = None"
    using n p(1,4) by (simp add: mem_read_def p_def tx_packet_ok_def word_less_nat_alt)
  moreover have "write_selected d now m a priority k ((set_packet i p s)\<lparr>ts_packetFifoIdx := i\<rparr>) (put_tx_stream k (set_packet i p s) t) = None"
    if "mem_read (tp_pointer p) (unat off) n = None"
  proof -
    have "ts_fifo (set_packet i p s) ! i = p" "tp_isStarted p" "tp_offset_B p = off" using s(3) p(3) by (simp_all add: set_packet_def p_def)
    then show ?thesis using that bits a \<open>getNumberOfBytes (getNumberOfBits off) \<le> 8\<close>
      by (simp add: write_selected_def write_piece_def Let_def n_def)
  qed
  ultimately show ?thesis using r by (intro exI [of _ "put_tx_stream k (set_packet i p s) t"] exI [of _ "set_packet i p s"])
      (simp add: put_tx_stream_def update_conv')
qed

text \<open>Which operations keep the queued packets safe to send.\<close>

lemma with_tx_packet_safe:
  assumes "txs_safe t" "with_tx_packet k i f t = Some (t', evs)"
    and "\<And>s j. map_of (txs_map t) k = Some s \<Longrightarrow> tx_safe s \<Longrightarrow> j < length (ts_fifo s) \<Longrightarrow> tx_safe (fst (f j s))"
  shows "txs_safe t'"
  using assms by (fastforce simp: with_tx_packet_def case_prod_unfold txs_safe_def Let_def
      split: option.splits search_result.splits if_splits)

lemma tx_safe_nth: "tx_safe s \<Longrightarrow> j < length (ts_fifo s) \<Longrightarrow> tx_packet_safe (ts_fifo s ! j)"
  by (simp add: tx_safe_def list_all_length)

lemma read_acknowledge_safe: "txs_safe t \<Longrightarrow> read_acknowledge d now k i t = Some (t', evs) \<Longrightarrow> txs_safe t'"
  unfolding read_acknowledge_def
  by (erule with_tx_packet_safe, assumption) (intro tx_safe_processTxFifo tx_ok_set_packet, auto simp: tx_safe_nth)

lemma read_u8_hd: "read_u8 buffer = Some (b, rest) \<Longrightarrow> hd buffer = b"
  by (cases buffer) (auto simp: read_u8_def take_bytes_def split: if_splits)

lemma data_chunks_tx:
  "read_beginOfPacket now th b k i buffer a c = Some (n, c', evs) \<Longrightarrow> c_txStreams c' = c_txStreams c"
  "read_pieceOfPacket now b k i buffer a c = Some (n, c', evs) \<Longrightarrow> c_txStreams c' = c_txStreams c"
  by (auto simp: read_beginOfPacket_def read_pieceOfPacket_def on_rx_def Let_def split: if_splits Option.bind_splits)

lemma read_smallPacket_safe:
  "txs_safe (c_txStreams c) \<Longrightarrow> read_smallPacket now b k i buffer a c = Some (n, c', evs) \<Longrightarrow> txs_safe (c_txStreams c')"
  by (auto simp: read_smallPacket_def on_tx_def on_rx_def Let_def dest: read_acknowledge_safe split: if_splits Option.bind_splits)

lemma readChunk_safe_tx:
  assumes "txs_safe (c_txStreams c)" "readChunk now_us th buffer available_B c = Some (n, c', evs)"
    "chunkType (hd buffer) \<noteq> RepeatInfo"
  shows "txs_safe (c_txStreams c')"
  using assms read_smallPacket_safe [OF assms(1)]
  by (auto simp: readChunk_def split: if_splits Option.bind_splits ChunkType.splits) (metis data_chunks_tx read_u8_hd)+

lemma read_repeatInfo_safe:
  assumes "txs_safe t" "read_repeatInfo k i off t = Some (t', evs)"
    and "\<And>s p. map_of (txs_map t) k = Some s \<Longrightarrow> p \<in> set (ts_fifo s) \<Longrightarrow> off \<le> tp_size_B p"
  shows "txs_safe t'"
  using assms(1,2) unfolding read_repeatInfo_def
proof (rule with_tx_packet_safe)
  fix s j
  assume s: "map_of (txs_map t) k = Some s" "tx_safe s" "j < length (ts_fifo s)"
  then have "tx_packet_safe ((ts_fifo s ! j)\<lparr>tp_offset_B := off\<rparr>)" using assms(3) by (intro tx_packet_safe_offset tx_safe_nth) auto
  then show "tx_safe (fst (let p = ts_fifo s ! j in if \<not> tp_isReliable p then (s, [])
      else (set_packet j (p\<lparr>tp_offset_B := off, tp_isStarted := (if off = 0 then False else tp_isStarted p)\<rparr>) s, [])))"
    using s(2) by (simp add: Let_def tx_ok_set_packet)
qed

lemma run_send_safe:
  assumes "txs_safe t" "ts_isReliable (tx_stream_at k t) \<or> 65536 \<le> unat size_B"
  shows "txs_safe (run_send ctx data size_B copy k timeout_ms now t)"
proof -
  have s: "tx_safe (tx_stream_at k t)"
    using assms(1) tx_safe_init by (auto simp: txs_safe_def tx_stream_at_def split: option.splits)
  have "map_of (txs_map (open_tx_stream k t)) j = Some s' \<Longrightarrow> tx_safe s'" for j s'
    using assms(1) s by (auto simp: open_tx_stream_def Let_def put_tx_stream_def update_conv' txs_safe_def tx_safe_def split: if_splits)
  moreover have "tx_safe (tx_stream_at k (open_tx_stream k t))" "ts_isReliable (tx_stream_at k (open_tx_stream k t)) = ts_isReliable (tx_stream_at k t)"
    using s by (auto simp: open_tx_stream_def Let_def tx_stream_at_def put_tx_stream_def update_conv' tx_safe_def)
  ultimately show ?thesis
    using assms(2) by (auto simp: run_send_def Let_def put_tx_stream_def update_conv' txs_safe_def tx_safe_def tx_packet_safe_def
        TxPacket_init_def split: if_splits)
qed



end
