(* ===== verification/Udsp_Datagram.thy ===== *)
theory Udsp_Datagram
  imports Udsp_Read
begin

text \<open>
  Whole datagrams: \<open>nextDatagram\<close> of \<open>Stream.cpp\<close>; \<open>writePacket\<close>, \<open>writePMTUProbe\<close> and
  \<open>writeDisconnect\<close> of \<open>Connection.cpp\<close>, which build the next datagram in \<open>txBuffer\<close>; and the
  loop of \<open>onUdpReceived\<close> that reads the chunks of a received one. The clock is an argument.
\<close>

definition set_txPacketsCount :: "u32 \<Rightarrow> Connection \<Rightarrow> Connection" where
  "set_txPacketsCount n c = c\<lparr>c_cnt := (c_cnt c)\<lparr>n_txPacketsCount := n\<rparr>\<rparr>"

definition nextDatagram :: "Connection \<Rightarrow> Connection" where
  "nextDatagram c = set_txPacketsCount (n_txPacketsCount (c_cnt c) + 1) c"

subsection \<open>Writing\<close>

text \<open>The header of a data packet, stored over the first bytes of the buffer.\<close>

definition packet_header :: "tick \<Rightarrow> Connection \<Rightarrow> PacketHeader" where
  "packet_header now_us c =
     \<lparr>h_packetId = PacketId_TypeA, h_packetNumber = n_txPacketsCount (c_cnt c),
      h_connectionId = c_connectionId c, h_PMTUProbeSize_B = ucast (pm_PMTUProbeResponse_B (c_pmtu c)),
      h_packetsLoss_prc100 = n_rxPacketsLossInWindow_prc100 (c_cnt c),
      h_RTTDelay_us = (if r_RTTResponseTick_us (c_rtt c) \<noteq> 0
                       then of_int (now_us - r_RTTResponseTick_us (c_rtt c)) else 0),
      h_RTTRequest = r_RTTRequest (c_rtt c), h_RTTResponse = r_RTTResponse (c_rtt c)\<rparr>"

definition start_rtt_request :: "tick \<Rightarrow> Connection \<Rightarrow> Connection" where
  "start_rtt_request now_us c =
     (if r_RTTRequestTick_us (c_rtt c) = 0
      then c\<lparr>c_rtt := (c_rtt c)\<lparr>r_RTTRequestTick_us := now_us, r_RTTRequest := r_RTTRequest (c_rtt c) + 1\<rparr>\<rparr>
      else c)"

definition store_header :: "tick \<Rightarrow> bytes \<Rightarrow> Connection \<Rightarrow> Connection" where
  "store_header now_us buffer c =
     (let c = start_rtt_request now_us c
      in c\<lparr>c_txBuffer := header_bytes (packet_header now_us c) @ drop sizeof_PacketHeader buffer\<rparr>)"

definition writePacket :: "tick \<Rightarrow> bool \<Rightarrow> bool \<Rightarrow> Connection \<Rightarrow> (bool \<times> Connection \<times> event list) option" where
  "writePacket now_us isTestBandwidthEnabled forceSend c =
     (let PMTU_B = unat (pm_PMTU_B (c_pmtu c));
          start = take sizeof_PacketHeader (vec_resize PMTU_B (c_txBuffer c));
          c = nextDatagram c in
      if PMTU_B < sizeof_PacketHeader then None
      else do {
        (meta, c, evs1) \<leftarrow> fill (writeMetaChunk now_us) (PMTU_B - sizeof_PacketHeader) c;
        (data, c, evs2) \<leftarrow> fill (writeDataChunk now_us) (PMTU_B - sizeof_PacketHeader - length meta) c;
        let txBuffer = start @ meta @ data;
        let evs = evs1 @ evs2;
        if isTestBandwidthEnabled then Some (True, store_header now_us (vec_resize PMTU_B txBuffer) c, evs)
        else if forceSend then Some (True, store_header now_us txBuffer c, evs)
        else if length txBuffer = sizeof_PacketHeader
        then Some (False, (set_txPacketsCount (n_txPacketsCount (c_cnt c) - 1) c)\<lparr>c_txBuffer := txBuffer\<rparr>, evs)
        else Some (True, store_header now_us txBuffer c, evs)
      })"

definition probe_header :: "Connection \<Rightarrow> PacketHeader" where
  "probe_header c =
     \<lparr>h_packetId = PacketId_PMTUProbe, h_packetNumber = 0, h_connectionId = c_connectionId c,
      h_PMTUProbeSize_B = ucast (pm_PMTUProbeResponse_B (c_pmtu c)),
      h_packetsLoss_prc100 = n_rxPacketsLossInWindow_prc100 (c_cnt c), h_RTTDelay_us = 0,
      h_RTTRequest = r_RTTRequest (c_rtt c), h_RTTResponse = r_RTTResponse (c_rtt c)\<rparr>"

definition writePMTUProbe :: "Connection \<Rightarrow> Connection option" where
  "writePMTUProbe c =
     (let size_B = pm_PMTU_B (c_pmtu c) + of_int (pm_PMTUProbeStep_B (c_pmtu c));
          c = c\<lparr>c_pmtu := (c_pmtu c)\<lparr>pm_PMTUProbeSize_B := size_B\<rparr>\<rparr> in
      if unat size_B < sizeof_PacketHeader then None
      else Some (c\<lparr>c_txBuffer := header_bytes (probe_header c)
                   @ replicate (unat size_B - sizeof_PacketHeader) 0\<rparr>))"

definition writeDisconnect :: "Connection \<Rightarrow> Connection" where
  "writeDisconnect c = c\<lparr>c_txBuffer :=
     overwrite 0 (write_u32 PacketId_Disconnect) (vec_resize sizeof_PacketHeader (c_txBuffer c))\<rparr>"

subsection \<open>Reading\<close>

text \<open>The loop over the chunks of a datagram of \<open>size_B\<close> bytes in the receive buffer, from
  \<open>offset_B\<close> on. When a chunk reader consumes more than is available, the next
  \<open>available_B\<close> wraps around and the loop goes on behind the datagram; it still ends, at the
  latest at the end of the buffer.\<close>

lemma readChunk_nil: "readChunk now_us threshold_B [] available_B c = Some (n, c', evs) \<Longrightarrow> n = 0"
  by (auto simp: readChunk_def read_u8_def take_bytes_def split: if_splits)

function read_chunks ::
  "tick \<Rightarrow> u32 \<Rightarrow> bytes \<Rightarrow> u32 \<Rightarrow> nat \<Rightarrow> Connection \<Rightarrow> (Connection \<times> event list) option" where
  "read_chunks now_us threshold_B rxBuffer size_B offset_B c =
     (let available_B = size_B - of_nat offset_B in
      if available_B = 0 then Some (c, [])
      else case readChunk now_us threshold_B (drop offset_B rxBuffer) available_B c of
        None \<Rightarrow> None
      | Some (readed_B, c, evs) \<Rightarrow>
          if readed_B = 0 then Some (c, evs)
          else map_option (\<lambda>(c, evs'). (c, evs @ evs'))
            (read_chunks now_us threshold_B rxBuffer size_B (offset_B + readed_B) c))"
  by pat_completeness auto
termination
proof (relation "measure (\<lambda>(now_us, threshold_B, rxBuffer, size_B, offset_B, c). length rxBuffer - offset_B)",
    goal_cases)
  case 1
  then show ?case by simp
next
  case (2 now_us threshold_B rxBuffer size_B offset_B c available_B res readed_B res' c' evs)
  then have "drop offset_B rxBuffer \<noteq> []" using readChunk_nil by fastforce
  with 2 show ?case by auto
qed

declare read_chunks.simps [simp del]

subsection \<open>What writePacket leaves\<close>

lemma conn_inv_mono: "conn_inv n c \<Longrightarrow> m \<le> n \<Longrightarrow> conn_inv m c"
  by (auto simp: conn_inv_def)

text \<open>Writing a datagram changes the streams, the buffer, the round-trip request and the packet count,
  and nothing else.\<close>

definition frame :: "Connection \<Rightarrow> Connection" where
  "frame c = c\<lparr>c_rxStreams := RxStreams_init, c_txStreams := TxStreams_init, c_txBuffer := [], c_rtt := Rtt_init,
     c_cnt := (c_cnt c)\<lparr>n_txPacketsCount := 0\<rparr>\<rparr>"

lemma frame_updates [simp]:
  "frame (c\<lparr>c_rxStreams := r\<rparr>) = frame c" "frame (c\<lparr>c_txStreams := t\<rparr>) = frame c"
  "frame (c\<lparr>c_txBuffer := b\<rparr>) = frame c" "frame (c\<lparr>c_rtt := q\<rparr>) = frame c"
  "frame (set_txPacketsCount n c) = frame c" "frame (nextDatagram c) = frame c"
  "frame (start_rtt_request now c) = frame c" "frame (store_header now b c) = frame c"
  by (simp_all add: frame_def set_txPacketsCount_def nextDatagram_def store_header_def start_rtt_request_def Let_def)

lemma frame_simps:
  assumes "frame c' = frame c"
  shows "c_pmtu c' = c_pmtu c" "c_traffic c' = c_traffic c" "c_port c' = c_port c" "c_IPv4 c' = c_IPv4 c"
    "c_connectionId c' = c_connectionId c" "c_commands c' = c_commands c" "c_onDelivered c' = c_onDelivered c"
    "c_onReceived c' = c_onReceived c" "c_lastPacketTick_us c' = c_lastPacketTick_us c"
    "c_nextEraseTick_us c' = c_nextEraseTick_us c" "c_isDisconnectRequested c' = c_isDisconnectRequested c"
    "n_rxPacketsLossInWindow_prc100 (c_cnt c') = n_rxPacketsLossInWindow_prc100 (c_cnt c)"
proof -
  show "c_pmtu c' = c_pmtu c" "c_traffic c' = c_traffic c" "c_port c' = c_port c" "c_IPv4 c' = c_IPv4 c"
    "c_connectionId c' = c_connectionId c" "c_commands c' = c_commands c" "c_onDelivered c' = c_onDelivered c"
    "c_onReceived c' = c_onReceived c" "c_lastPacketTick_us c' = c_lastPacketTick_us c"
    "c_nextEraseTick_us c' = c_nextEraseTick_us c" "c_isDisconnectRequested c' = c_isDisconnectRequested c"
    "n_rxPacketsLossInWindow_prc100 (c_cnt c') = n_rxPacketsLossInWindow_prc100 (c_cnt c)"
    using arg_cong [OF assms, of c_pmtu] arg_cong [OF assms, of c_traffic] arg_cong [OF assms, of c_port]
      arg_cong [OF assms, of c_IPv4] arg_cong [OF assms, of c_connectionId] arg_cong [OF assms, of c_commands]
      arg_cong [OF assms, of c_onDelivered] arg_cong [OF assms, of c_onReceived]
      arg_cong [OF assms, of c_lastPacketTick_us] arg_cong [OF assms, of c_nextEraseTick_us]
      arg_cong [OF assms, of c_isDisconnectRequested]
      arg_cong [OF assms, of "\<lambda>c. n_rxPacketsLossInWindow_prc100 (c_cnt c)"]
    by (simp_all add: frame_def)
qed

lemma writers_frame:
  "writeMetaChunk now a c = Some (w, bs, c', evs) \<Longrightarrow> frame c' = frame c"
  "writeDataChunk now a c = Some (w, bs, c', evs) \<Longrightarrow> frame c' = frame c"
  "writeMetaChunk now a c = Some (w, bs, c', evs) \<Longrightarrow> c_cnt c' = c_cnt c"
  "writeDataChunk now a c = Some (w, bs, c', evs) \<Longrightarrow> c_cnt c' = c_cnt c"
  by (auto simp: writeMetaChunk_def writeDataChunk_def)

lemma fill_keeps:
  assumes wr: "\<And>a c w bs c' evs. wr a c = Some (w, bs, c', evs) \<Longrightarrow> g c' = g c"
    and "fill wr n c = Some (bs, c', evs)"
  shows "g c' = g c"
  using assms(2)
proof (induction n arbitrary: c bs c' evs rule: less_induct)
  case (less n)
  show ?case
  proof (cases "n = 0 \<or> wr (of_nat n) c = None")
    case True
    then show ?thesis using less.prems by (auto simp: fill.simps [of wr n] split: if_splits)
  next
    case False
    then obtain w b c1 e where w: "wr (of_nat n) c = Some (w, b, c1, e)" by (metis option.exhaust prod_cases4)
    show ?thesis
    proof (cases "w = 0")
      case True
      then show ?thesis using less.prems w False wr [OF w] by (simp add: fill.simps [of wr n])
    next
      case w0: False
      then obtain b2 c2 e2 where "fill wr (n - w) c1 = Some (b2, c2, e2)" "c' = c2"
        using less.prems w False by (auto simp: fill.simps [of wr n] split: if_splits)
      moreover have "n - w < n" using w0 False by simp
      ultimately show ?thesis using less.IH wr [OF w] by metis
    qed
  qed
qed

lemma writePacket_frame: "writePacket now test force c = Some (sent, c', evs) \<Longrightarrow> frame c' = frame c"
proof -
  assume w: "writePacket now test force c = Some (sent, c', evs)"
  define n where "n = unat (pm_PMTU_B (c_pmtu c)) - sizeof_PacketHeader"
  obtain meta c1 e1 data c2 e2 where f: "fill (writeMetaChunk now) n (nextDatagram c) = Some (meta, c1, e1)"
      "fill (writeDataChunk now) (n - length meta) c1 = Some (data, c2, e2)"
    using w by (auto simp: writePacket_def Let_def n_def split: if_splits Option.bind_splits)
  have "frame c2 = frame c"
    using fill_keeps [where g = frame, OF writers_frame(2) f(2)] fill_keeps [where g = frame, OF writers_frame(1) f(1)] by simp
  with w f show ?thesis by (auto simp: writePacket_def Let_def n_def split: if_splits)
qed


lemma conn_inv_simps [simp]:
  "conn_inv n (nextDatagram c) = conn_inv n c" "conn_inv n (store_header now b c) = conn_inv n c"
  "conn_inv n (set_txPacketsCount k c) = conn_inv n c" "conn_inv n (c\<lparr>c_txBuffer := b\<rparr>) = conn_inv n c"
  "conn_inv n (c\<lparr>c_cnt := cnt\<rparr>) = conn_inv n c" "conn_inv n (c\<lparr>c_pmtu := pm\<rparr>) = conn_inv n c"
  "conn_inv n (c\<lparr>c_rtt := q\<rparr>) = conn_inv n c" "conn_inv n (c\<lparr>c_traffic := tr\<rparr>) = conn_inv n c"
  "conn_inv n (c\<lparr>c_prevTick_us := x\<rparr>) = conn_inv n c" "conn_inv n (c\<lparr>c_lastPacketTick_us := x\<rparr>) = conn_inv n c"
  "conn_inv n (c\<lparr>c_nextKeepAliveTick_us := x\<rparr>) = conn_inv n c" "conn_inv n (c\<lparr>c_next1Hz_us := x\<rparr>) = conn_inv n c"
  by (simp_all add: conn_inv_def nextDatagram_def set_txPacketsCount_def store_header_def start_rtt_request_def Let_def)

lemma length_store_header:
  "length (c_txBuffer (store_header now b c)) = sizeof_PacketHeader + (length b - sizeof_PacketHeader)"
  by (simp add: store_header_def codec_header.length_enc Let_def)

text \<open>Its result in terms of what the two loops wrote.\<close>

lemma writePacket_parts:
  assumes "conn_inv (unat (pm_PMTU_B (c_pmtu c)) + m) c" "sizeof_PacketHeader \<le> unat (pm_PMTU_B (c_pmtu c))"
  obtains body c2 evs where
    "sizeof_PacketHeader \<le> length body" "length body \<le> unat (pm_PMTU_B (c_pmtu c))"
    "conn_inv (unat (pm_PMTU_B (c_pmtu c)) - length body + m) c2"
    "c_cnt c2 = c_cnt (nextDatagram c)" "frame c2 = frame c"
    "writePacket now test force c =
       (if test then Some (True, store_header now (vec_resize (unat (pm_PMTU_B (c_pmtu c))) body) c2, evs)
        else if force then Some (True, store_header now body c2, evs)
        else if length body = sizeof_PacketHeader
        then Some (False, (set_txPacketsCount (n_txPacketsCount (c_cnt c2) - 1) c2)\<lparr>c_txBuffer := body\<rparr>, evs)
        else Some (True, store_header now body c2, evs))"
proof -
  let ?n = "unat (pm_PMTU_B (c_pmtu c))"
  have n: "?n < 2 ^ 32" using unat_u32_less [of "pm_PMTU_B (c_pmtu c)"] by (simp del: unat_u32_less)
  have "conn_inv (?n - 26 + m) (nextDatagram c)" using conn_inv_mono [OF assms(1)] by simp
  then obtain meta c1 e1 where meta: "fill (writeMetaChunk now) (?n - 26) (nextDatagram c) = Some (meta, c1, e1)"
    "length meta \<le> ?n - 26" "conn_inv (?n - 26 - length meta + m) c1"
    using meta_writer.fill_within [where m = m] n by (metis less_imp_diff_less)
  then obtain data c2 e2 where data: "fill (writeDataChunk now) (?n - 26 - length meta) c1 = Some (data, c2, e2)"
    "length data \<le> ?n - 26 - length meta" "conn_inv (?n - 26 - length meta - length data + m) c2"
    using data_writer.fill_within [where m = m] n by (metis less_imp_diff_less)
  define body where "body = take 26 (vec_resize ?n (c_txBuffer c)) @ meta @ data"
  have len: "length body = 26 + length meta + length data" using assms(2) by (simp add: body_def)
  show thesis
  proof (rule that [of body c2 "e1 @ e2"])
    show "26 \<le> length body" "length body \<le> ?n" using len meta(2) data(2) assms(2) by auto
    show "conn_inv (?n - length body + m) c2" using data(3) by (simp add: len diff_diff_left)
    show "c_cnt c2 = c_cnt (nextDatagram c)"
      using fill_keeps [where g = c_cnt, OF writers_frame(4) data(1)] fill_keeps [where g = c_cnt, OF writers_frame(3) meta(1)]
      by simp
    show "frame c2 = frame c"
      using fill_keeps [where g = frame, OF writers_frame(2) data(1)] fill_keeps [where g = frame, OF writers_frame(1) meta(1)]
      by simp
  qed (use meta(1) data(1) assms(2) in \<open>simp add: writePacket_def Let_def body_def\<close>)
qed

lemma writePacket_within:
  assumes "conn_inv (unat (pm_PMTU_B (c_pmtu c)) + m) c" "sizeof_PacketHeader \<le> unat (pm_PMTU_B (c_pmtu c))"
  shows "\<exists>sent c' evs. writePacket now test force c = Some (sent, c', evs)
    \<and> sizeof_PacketHeader \<le> length (c_txBuffer c') \<and> length (c_txBuffer c') \<le> unat (pm_PMTU_B (c_pmtu c))
    \<and> conn_inv (unat (pm_PMTU_B (c_pmtu c)) - length (c_txBuffer c') + m) c'"
proof (rule writePacket_parts [OF assms, of now test force])
  fix body c2 evs
  let ?n = "unat (pm_PMTU_B (c_pmtu c))"
  assume "sizeof_PacketHeader \<le> length body" "length body \<le> ?n" and inv: "conn_inv (?n - length body + m) c2"
    and w: "writePacket now test force c =
       (if test then Some (True, store_header now (vec_resize ?n body) c2, evs)
        else if force then Some (True, store_header now body c2, evs)
        else if length body = sizeof_PacketHeader
        then Some (False, (set_txPacketsCount (n_txPacketsCount (c_cnt c2) - 1) c2)\<lparr>c_txBuffer := body\<rparr>, evs)
        else Some (True, store_header now body c2, evs))"
  moreover have "conn_inv m c2" using conn_inv_mono [OF inv] by simp
  ultimately show ?thesis using assms(2) by (auto simp: length_store_header)
qed



end
