(* ===== verification/Udsp_Control.thy ===== *)
theory Udsp_Control
  imports Udsp_Datagram "HOL-Library.Signed_Division"
begin

text \<open>
  Traffic control of one connection, from \<open>Connection.cpp\<close>: the search for the path MTU, pacing,
  the statistics of every second, and what \<open>onUdpReceived\<close> does with the header of a received
  datagram: round-trip measurement, congestion control, loss estimation. A function of the source
  is cut into its steps, in the order of the code; \<open>processConnection\<close> and \<open>receive_datagram\<close>
  compose them. What leaves the connection is a list of effects. Ticks are unbounded integers,
  counters keep their width. A clock reading that the code takes inside a call is an argument.
\<close>

subsection \<open>Effects\<close>

text \<open>A callback of the application, a call of \<open>udpSocket.send\<close> with its buffer, port and address,
  or one of the socket's two callbacks; a connection is named by its key in the socket's map.\<close>

datatype effect =
    App event
  | Sent bytes u16 u32
  | OnConnected u64
  | OnDisconnected u64 char

definition send_txBuffer :: "Connection \<Rightarrow> effect" where
  "send_txBuffer c = Sent (c_txBuffer c) (c_port c) (c_IPv4 c)"

subsection \<open>The search for the path MTU\<close>

abbreviation g_PMTUProbePeriod_us :: tick where "g_PMTUProbePeriod_us \<equiv> 1000000"
abbreviation g_PMTURaisePeriod_us :: tick where "g_PMTURaisePeriod_us \<equiv> 600000000"
abbreviation g_PMTUMaxProbes :: u32 where "g_PMTUMaxProbes \<equiv> 3"

text \<open>The next state of the search, and whether a probe is due. The step is a signed integer, halved
  with truncation.\<close>

definition pmtu_advance :: "tick \<Rightarrow> Pmtu \<Rightarrow> Pmtu \<times> bool" where
  "pmtu_advance now_us pm =
     (let pm = (if pm_PMTUProbeStep_B pm = 0 then pm\<lparr>pm_PMTUProbeStep_B := 128\<rparr>
                else let pm = pm\<lparr>pm_PMTUProbeCount := pm_PMTUProbeCount pm + 1\<rparr> in
                  if g_PMTUMaxProbes \<le> pm_PMTUProbeCount pm
                  then pm\<lparr>pm_PMTUProbeCount := 0, pm_PMTUProbeStep_B := pm_PMTUProbeStep_B pm sdiv 2\<rparr>
                  else pm)
      in if \<bar>pm_PMTUProbeStep_B pm\<bar> < 4
         then (pm\<lparr>pm_PMTUProbeStep_B := 0, pm_nextPMTUProbe_us := now_us + g_PMTURaisePeriod_us\<rparr>, False)
         else (pm\<lparr>pm_nextPMTUProbe_us := now_us + g_PMTUProbePeriod_us\<rparr>, True))"

definition pmtu_search :: "tick \<Rightarrow> Connection \<Rightarrow> (Connection \<times> effect list) option" where
  "pmtu_search now_us c =
     (if now_us < pm_nextPMTUProbe_us (c_pmtu c) then Some (c, [])
      else let (pm, probe) = pmtu_advance now_us (c_pmtu c); c = c\<lparr>c_pmtu := pm\<rparr> in
        if probe then map_option (\<lambda>c. (c, [send_txBuffer c])) (writePMTUProbe c)
        else Some (c, []))"

text \<open>The echo of a probe's size in the header of a received datagram.\<close>

definition pmtu_response :: "u16 \<Rightarrow> Pmtu \<Rightarrow> Pmtu" where
  "pmtu_response probeSize_B pm =
     (if 0 < pm_PMTUProbeSize_B pm \<and> ucast probeSize_B = pm_PMTUProbeSize_B pm
      then pm\<lparr>pm_PMTU_B := pm_PMTUProbeSize_B pm, pm_PMTUProbeSize_B := 0, pm_PMTUProbeCount := 0\<rparr>
      else pm)"

subsection \<open>Pacing\<close>

abbreviation g_keepAlivePeriod_us :: tick where "g_keepAlivePeriod_us \<equiv> 500000"
abbreviation g_connectionTimeout_us :: tick where "g_connectionTimeout_us \<equiv> 4000000"

definition stale_reset :: "tick \<Rightarrow> Connection \<Rightarrow> Connection" where
  "stale_reset now_us c =
     (if c_lastPacketTick_us c \<le> now_us - g_connectionTimeout_us div 2
         \<and> pm_PMTU_B (c_pmtu c) \<noteq> g_basePMTU_IPv4_B
      then partialReset c else c)"

text \<open>\<open>maxPortion_B\<close>. The factor \<open>uint32_t(256 * 0.65f)\<close> is 166.\<close>

definition max_portion :: "tick \<Rightarrow> Connection \<Rightarrow> u32 \<times> Connection" where
  "max_portion now_us c =
     (if c_prevTick_us c = 0 then (0, c\<lparr>c_prevTick_us := now_us\<rparr>)
      else let diff_us = now_us - c_prevTick_us c;
               portion = of_int ((diff_us * int (unat (t_txLimit_B_s (c_traffic c)))) sdiv 1000000) :: u32
           in (if t_isRTTProbing (c_traffic c) then portion * 166 div 256 else portion,
               c\<lparr>c_prevTick_us := now_us\<rparr>))"

text \<open>The loop that sends until the portion is used up or there is nothing to send; \<open>clock i\<close> is
  what the \<open>i\<close>-th call of \<open>writePacket\<close> reads. \<open>None\<close> also stands for a loop that does not end,
  which the wrap-around of the byte count does not exclude.\<close>

partial_function (option) pace ::
  "(nat \<Rightarrow> tick) \<Rightarrow> bool \<Rightarrow> u32 \<Rightarrow> u32 \<Rightarrow> nat \<Rightarrow> Connection \<Rightarrow> (u32 \<times> Connection \<times> effect list) option" where
  "pace clock isTestBandwidthEnabled maxPortion_B txCount_B i c =
     (if txCount_B < maxPortion_B then
        Option.bind (writePacket (clock i) isTestBandwidthEnabled False c) (\<lambda>(sent, c, evs).
          if \<not> sent then Some (txCount_B, c, map App evs)
          else Option.bind
            (pace clock isTestBandwidthEnabled maxPortion_B
               (txCount_B + of_nat (length (c_txBuffer c)) + g_headerSize_IPv4_B) (Suc i) c)
            (\<lambda>(n, c', outs). Some (n, c', map App evs @ send_txBuffer c # outs)))
      else Some (txCount_B, c, []))"

definition after_pacing :: "tick \<Rightarrow> u32 \<Rightarrow> Connection \<Rightarrow> Connection" where
  "after_pacing now_us txCount_B c =
     (if 0 < txCount_B
      then c\<lparr>c_cnt := (c_cnt c)\<lparr>n_txCount_B := 0, n_txCount_B_s := n_txCount_B_s (c_cnt c) + txCount_B\<rparr>,
             c_nextKeepAliveTick_us := now_us + g_keepAlivePeriod_us\<rparr>
      else c)"

text \<open>The datagram that is sent in any case: as a keep-alive and as the answer to a filled window.\<close>

definition force_send :: "tick \<Rightarrow> tick \<Rightarrow> Connection \<Rightarrow> (Connection \<times> effect list) option" where
  "force_send clock now_us c = do {
     (_, c, evs) \<leftarrow> writePacket clock False True c;
     let sent_B = of_nat (length (c_txBuffer c)) + g_headerSize_IPv4_B;
     Some (c\<lparr>c_nextKeepAliveTick_us := now_us + g_keepAlivePeriod_us,
             c_cnt := (c_cnt c)\<lparr>n_txCount_B := n_txCount_B (c_cnt c) + sent_B,
                                n_txCount_B_s := n_txCount_B_s (c_cnt c) + sent_B\<rparr>\<rparr>,
           map App evs @ [send_txBuffer c])
   }"

definition keep_alive :: "tick \<Rightarrow> tick \<Rightarrow> Connection \<Rightarrow> (Connection \<times> effect list) option" where
  "keep_alive clock now_us c =
     (if c_nextKeepAliveTick_us c \<le> now_us then force_send clock now_us c else Some (c, []))"

subsection \<open>The statistics of every second\<close>

text \<open>How many packets were to be expected between two packet numbers.\<close>

definition packets_expected :: "u32 \<Rightarrow> u32 \<Rightarrow> u32" where
  "packets_expected processed received =
     (if processed < received then received - processed
      else if processed - received < UINT32_MAX div 2 then 0
      else UINT32_MAX - processed + received)"

definition tx_loss_prc :: "u32 \<Rightarrow> u32 \<Rightarrow> rat" where
  "tx_loss_prc sum_prc100 count =
     (if count = 0 then 0 else round32 (round32 (of_nat (unat (sum_prc100 div count))) * round32 (1 / 100)))"

definition rx_loss_prc :: "u32 \<Rightarrow> u32 \<Rightarrow> rat" where
  "rx_loss_prc count expected =
     (if expected = 0 then 0
      else round32 (100 - round32 (round32 (round32 (of_nat (unat count)) * 100)
             / round32 (of_nat (unat expected)))))"

definition next_second :: "tick \<Rightarrow> tick \<Rightarrow> tick" where
  "next_second now_us next1Hz_us =
     (let next = next1Hz_us + 1000000 in if next \<le> now_us then now_us + 1000000 else next)"

definition limit_after_second :: "u32 \<Rightarrow> u32 \<Rightarrow> u32" where
  "limit_after_second txSpeed_B_s txLimit_B_s = min txLimit_B_s (max g_txLimitDefault_B_s (txSpeed_B_s * 4))"

definition second_counters :: "Counters \<Rightarrow> Counters" where
  "second_counters n = n\<lparr>
     n_txSpeed_B_s := n_txCount_B_s n, n_txCount_B_s := 0,
     n_rxSpeed_B_s := n_rxCount_B_s n, n_rxCount_B_s := 0,
     n_txPacketsLoss_prc := tx_loss_prc (n_txPacketsLossSum_prc100 n) (n_txPacketsLossSum_count n),
     n_txPacketsLossSum_prc100 := 0, n_txPacketsLossSum_count := 0,
     n_rxPacketNumberProcessed := n_rxPacketNumberReceived n,
     n_rxPacketsLoss_prc := rx_loss_prc (n_rxPacketsCountReceived n)
       (packets_expected (n_rxPacketNumberProcessed n) (n_rxPacketNumberReceived n)),
     n_rxPacketsCountReceived := 0\<rparr>"

text \<open>Also whether the second was over: then the socket's own counters are reset.\<close>

definition every_second :: "tick \<Rightarrow> Connection \<Rightarrow> Connection \<times> bool" where
  "every_second now_us c =
     (if now_us < c_next1Hz_us c then (c, False)
      else (c\<lparr>c_next1Hz_us := next_second now_us (c_next1Hz_us c),
              c_traffic := (c_traffic c)\<lparr>t_txLimit_B_s :=
                limit_after_second (n_txCount_B_s (c_cnt c)) (t_txLimit_B_s (c_traffic c))\<rparr>,
              c_cnt := second_counters (c_cnt c),
              c_txStreams := (c_txStreams c)\<lparr>txs_vec :=
                (\<lambda>p. (txs_vec (c_txStreams c) p)\<lparr>pm_countSent_B := 0\<rparr>)\<rparr>\<rparr>, True))"

definition processConnection ::
  "(nat \<Rightarrow> tick) \<Rightarrow> bool \<Rightarrow> tick \<Rightarrow> Connection \<Rightarrow> (Connection \<times> effect list \<times> bool) option" where
  "processConnection clock isTestBandwidthEnabled now_us c = do {
     (c, outs1) \<leftarrow> pmtu_search now_us (stale_reset now_us c);
     let (maxPortion_B, c) = max_portion now_us c;
     (txCount_B, c, outs2) \<leftarrow>
       pace clock isTestBandwidthEnabled maxPortion_B (n_txCount_B (c_cnt c)) 0 c;
     let (c, second) = every_second now_us (after_pacing now_us txCount_B c);
     Some (c, outs1 @ outs2, second)
   }"

subsection \<open>Congestion control\<close>

abbreviation g_RTTNewProbeLimit :: u8 where "g_RTTNewProbeLimit \<equiv> 8"
abbreviation g_RTTBadProbeLimit :: u8 where "g_RTTBadProbeLimit \<equiv> 16"
abbreviation g_RTTProbePeriod_us :: tick where "g_RTTProbePeriod_us \<equiv> 10000000"
abbreviation g_packetsWindowSize :: u32 where "g_packetsWindowSize \<equiv> 8"
abbreviation g_kAllowedRTT :: u32 where "g_kAllowedRTT \<equiv> 5"
abbreviation g_kIncStep :: u32 where "g_kIncStep \<equiv> 256"
abbreviation g_kDecStep :: u32 where "g_kDecStep \<equiv> 128"

definition tx_decrease :: "u32 \<Rightarrow> u32" where
  "tx_decrease txLimit_B_s = txLimit_B_s - txLimit_B_s div g_kDecStep"

definition tx_increase :: "u32 \<Rightarrow> u32 \<Rightarrow> u32" where
  "tx_increase desiredTxLimit_B_s txLimit_B_s = min
     (if txLimit_B_s div g_kIncStep \<le> g_packetsWindowSize * g_basePMTU_IPv4_B
      then txLimit_B_s + g_packetsWindowSize * g_basePMTU_IPv4_B
      else txLimit_B_s + txLimit_B_s div g_kIncStep) desiredTxLimit_B_s"

definition adjust_limit :: "bool \<Rightarrow> Traffic \<Rightarrow> Traffic" where
  "adjust_limit congested t = t\<lparr>t_txLimit_B_s :=
     (if congested then tx_decrease (t_txLimit_B_s t)
      else tx_increase (t_desiredTxLimit_B_s t) (t_txLimit_B_s t))\<rparr>"

definition min_rtt :: "int \<Rightarrow> u32 \<Rightarrow> u32" where
  "min_rtt RTT_us m =
     (if 0 < RTT_us \<and> RTT_us < int (unat UINT32_MAX) \<and> RTT_us < int (unat m) then of_int RTT_us else m)"

definition rtt_probing :: "tick \<Rightarrow> int \<Rightarrow> Traffic \<Rightarrow> Traffic" where
  "rtt_probing now_us RTT_us t =
     (let t = t\<lparr>t_nextMinRTT_us := min_rtt RTT_us (t_nextMinRTT_us t), t_RTTCount := t_RTTCount t + 1\<rparr> in
      if g_RTTNewProbeLimit \<le> t_RTTCount t
      then t\<lparr>t_RTTCount := 0, t_minRTT_us := t_nextMinRTT_us t, t_nextMinRTT_us := UINT32_MAX,
             t_isRTTProbing := False, t_nextRTTProbe_us := now_us + g_RTTProbePeriod_us\<rparr>
      else t)"

definition too_big_rtt :: "int \<Rightarrow> u32 \<Rightarrow> bool" where
  "too_big_rtt RTT_us minRTT_us \<longleftrightarrow>
     1000 < RTT_us \<and> (int (unat (minRTT_us * g_kAllowedRTT)) < RTT_us \<or> 100000 < RTT_us)"

definition rtt_congestion :: "tick \<Rightarrow> int \<Rightarrow> Traffic \<Rightarrow> Traffic" where
  "rtt_congestion now_us RTT_us t =
     (let tooBigRTT = too_big_rtt RTT_us (t_minRTT_us t);
          congested = tooBigRTT \<or> t_tooBigLoss t;
          t = adjust_limit congested t;
          t = (if \<not> congested then t\<lparr>t_RTTCount := 0\<rparr>
               else if t_nextRTTProbe_us t \<le> now_us
               then (let t = t\<lparr>t_RTTCount := t_RTTCount t + 1\<rparr> in
                     if g_RTTBadProbeLimit \<le> t_RTTCount t then t\<lparr>t_RTTCount := 0, t_isRTTProbing := True\<rparr>
                     else t)
               else t)
      in t\<lparr>t_tooBigRTT := tooBigRTT\<rparr>)"

text \<open>A completed round trip. \<open>None\<close> is the undefined conversion of the smoothed value.\<close>

definition rtt_sample :: "tick \<Rightarrow> int \<Rightarrow> Traffic \<Rightarrow> Traffic option" where
  "rtt_sample now_us RTT_us t =
     (let t = t\<lparr>t_minRTT_us := min_rtt RTT_us (t_minRTT_us t),
                t_RTTSmooth_us := holt_update (round32 (of_int RTT_us)) (t_RTTSmooth_us t)\<rparr> in
      map_option (\<lambda>r. let t = t\<lparr>t_RTT_us := r\<rparr> in
          if t_isRTTProbing t then rtt_probing now_us RTT_us t else rtt_congestion now_us RTT_us t)
        (float_to_u32 (holt_result (t_RTTSmooth_us t))))"

definition rtt_measure :: "tick \<Rightarrow> PacketHeader \<Rightarrow> Connection \<Rightarrow> Connection option" where
  "rtt_measure now_us h c =
     (if h_RTTResponse h = r_RTTRequest (c_rtt c) \<and> 0 < r_RTTRequestTick_us (c_rtt c) then
        (let RTT_us = now_us - r_RTTRequestTick_us (c_rtt c) - int (unat (h_RTTDelay_us h));
             RTT_us = (if RTT_us \<le> 0 then 400 else RTT_us)
         in map_option (\<lambda>t. c\<lparr>c_rtt := (c_rtt c)\<lparr>r_RTTRequestTick_us := 0\<rparr>, c_traffic := t\<rparr>)
              (rtt_sample now_us RTT_us (c_traffic c)))
      else Some c)"

definition rtt_response :: "tick \<Rightarrow> PacketHeader \<Rightarrow> Connection \<Rightarrow> Connection" where
  "rtt_response now_us h c =
     (if r_RTTResponse (c_rtt c) \<noteq> h_RTTRequest h
      then c\<lparr>c_rtt := (c_rtt c)\<lparr>r_RTTResponse := h_RTTRequest h, r_RTTResponseTick_us := now_us\<rparr>\<rparr>
      else c)"

text \<open>The loss the peer reports, taken into account once per window of sent packets.\<close>

definition loss_congestion :: "u16 \<Rightarrow> Traffic \<Rightarrow> Traffic" where
  "loss_congestion loss_prc100 t =
     (if t_isRTTProbing t then t
      else let tooBigLoss = (100 < loss_prc100 \<and> loss_prc100 < 10100)
           in (adjust_limit (tooBigLoss \<or> t_tooBigRTT t) t)\<lparr>t_tooBigLoss := tooBigLoss\<rparr>)"

definition tx_window :: "PacketHeader \<Rightarrow> Connection \<Rightarrow> Connection" where
  "tx_window h c =
     (let windowIdx = n_txPacketsCount (c_cnt c) div g_packetsWindowSize in
      if n_txPacketsWindowIdx (c_cnt c) = windowIdx then c
      else c\<lparr>c_cnt := (c_cnt c)\<lparr>n_txPacketsWindowIdx := windowIdx,
               n_txPacketsLossSum_prc100 := n_txPacketsLossSum_prc100 (c_cnt c) + ucast (h_packetsLoss_prc100 h),
               n_txPacketsLossSum_count := n_txPacketsLossSum_count (c_cnt c) + 1\<rparr>,
             c_traffic := loss_congestion (h_packetsLoss_prc100 h) (c_traffic c)\<rparr>)"

subsection \<open>Loss of received packets\<close>

definition count_received :: "u32 \<Rightarrow> PacketHeader \<Rightarrow> Counters \<Rightarrow> Counters" where
  "count_received size_B h n = n\<lparr>
     n_rxCount_B_s := n_rxCount_B_s n + (size_B + g_headerSize_IPv4_B),
     n_rxPacketNumberReceived := h_packetNumber h,
     n_rxPacketsCountReceived := n_rxPacketsCountReceived n + 1,
     n_rxPacketsCountInWindow := n_rxPacketsCountInWindow n + 1\<rparr>"

definition window_loss :: "u32 \<Rightarrow> u32 \<Rightarrow> u16" where
  "window_loss count expected =
     (if count < expected then ucast (10000 - count * 10000 div expected) else 0)"

text \<open>The end of a window of received packets, and whether it was one: then a datagram is due.\<close>

definition rx_window :: "PacketHeader \<Rightarrow> Counters \<Rightarrow> Counters \<times> bool" where
  "rx_window h n =
     (let windowIdx = h_packetNumber h div g_packetsWindowSize in
      if n_rxPacketsWindowIdx n = windowIdx then (n, False)
      else let n = n\<lparr>n_rxPacketsWindowIdx := windowIdx\<rparr>;
               expected = packets_expected (n_rxPacketNumberInWindowProcessed n) (h_packetNumber h)
           in (if 0 < expected
               then n\<lparr>n_rxPacketsLossInWindow_prc100 := window_loss (n_rxPacketsCountInWindow n) expected,
                      n_rxPacketsCountInWindow := 0, n_rxPacketNumberInWindowProcessed := h_packetNumber h\<rparr>
               else n, True))"

subsection \<open>A datagram for a connection\<close>

text \<open>\<open>onUdpReceived\<close> once the connection is known: \<open>key\<close> names it and \<open>onConnected\<close> says whether
  that callback is set.\<close>

definition mark_connected :: "tick \<Rightarrow> bool \<Rightarrow> u64 \<Rightarrow> Connection \<Rightarrow> Connection \<times> effect list" where
  "mark_connected now_us onConnected key c =
     (if c_lastPacketTick_us c = INT64_MAX
      then (c\<lparr>c_rtt := (c_rtt c)\<lparr>r_RTTRequestTick_us := now_us\<rparr>, c_lastPacketTick_us := now_us\<rparr>,
            if onConnected then [OnConnected key] else [])
      else (c\<lparr>c_lastPacketTick_us := now_us\<rparr>, []))"

definition receive_header :: "tick \<Rightarrow> PacketHeader \<Rightarrow> Connection \<Rightarrow> Connection option" where
  "receive_header now_us h c = do {
     c \<leftarrow> rtt_measure now_us h c;
     let c = rtt_response now_us h c;
     let c = c\<lparr>c_pmtu := pmtu_response (h_PMTUProbeSize_B h) (c_pmtu c)\<rparr>;
     Some (tx_window h c)
   }"

definition receive_data ::
  "tick \<Rightarrow> tick \<Rightarrow> u32 \<Rightarrow> PacketHeader \<Rightarrow> bytes \<Rightarrow> u32 \<Rightarrow> Connection \<Rightarrow> (Connection \<times> effect list) option" where
  "receive_data clock now_us threshold_B h rxBuffer size_B c = do {
     (c, evs) \<leftarrow> read_chunks now_us threshold_B rxBuffer size_B sizeof_PacketHeader c;
     let (n, windowEnd) = rx_window h (count_received size_B h (c_cnt c));
     let c = c\<lparr>c_cnt := n\<rparr>;
     if windowEnd
     then map_option (\<lambda>(c, outs). (c, map App evs @ outs)) (force_send clock now_us c)
     else Some (c, map App evs)
   }"

definition receive_datagram ::
  "tick \<Rightarrow> tick \<Rightarrow> bool \<Rightarrow> u32 \<Rightarrow> u64 \<Rightarrow> PacketHeader \<Rightarrow> bytes \<Rightarrow> u32 \<Rightarrow> Connection
   \<Rightarrow> (Connection \<times> effect list) option" where
  "receive_datagram clock now_us onConnected threshold_B key h rxBuffer size_B c = do {
     let (c, outs) = mark_connected now_us onConnected key c;
     c \<leftarrow> receive_header now_us h c;
     if h_packetId h = PacketId_TypeA
     then map_option (\<lambda>(c, outs'). (c, outs @ outs'))
            (receive_data clock now_us threshold_B h rxBuffer size_B c)
     else Some (c\<lparr>c_pmtu := (c_pmtu c)\<lparr>pm_PMTUProbeResponse_B := size_B\<rparr>\<rparr>, outs)
   }"

subsection \<open>The path MTU\<close>

definition probe_steps :: "int set" where
  "probe_steps = {0, 4, 8, 16, 32, 64, 128}"

definition pmtu_ok :: "Pmtu \<Rightarrow> bool" where
  "pmtu_ok pm \<longleftrightarrow> 1172 \<le> unat (pm_PMTU_B pm) \<and> unat (pm_PMTU_B pm) \<le> 65535
     \<and> (pm_PMTUProbeSize_B pm = 0 \<or> 1172 \<le> unat (pm_PMTUProbeSize_B pm))
     \<and> pm_PMTUProbeStep_B pm \<in> probe_steps \<and> pm_PMTUProbeCount pm < 3"

lemma sdiv_2: "0 \<le> x \<Longrightarrow> x sdiv 2 = (x :: int) div 2"
  by (simp add: signed_divide_int_def sgn_if)

lemma count_cases: "(n :: u32) < 3 \<Longrightarrow> n = 0 \<or> n = 1 \<or> n = 2"
proof -
  assume "n < 3"
  then have "unat n < 3" by (simp add: word_less_nat_alt)
  then have "unat n = unat (0 :: u32) \<or> unat n = unat (1 :: u32) \<or> unat n = unat (2 :: u32)" by auto
  then show ?thesis by (simp only: word_unat_eq_iff [symmetric])
qed

text \<open>One due call of the search: the first probe of a search, another probe of the same size, a
  probe with half the step, or the end.\<close>

lemma pmtu_advance_start:
  "pm_PMTUProbeStep_B pm = 0 \<Longrightarrow> pmtu_advance now pm =
     (pm\<lparr>pm_PMTUProbeStep_B := 128, pm_nextPMTUProbe_us := now + 1000000\<rparr>, True)"
  by (simp add: pmtu_advance_def)

lemma pmtu_advance_again:
  assumes "4 \<le> pm_PMTUProbeStep_B pm" "unat (pm_PMTUProbeCount pm) < 2"
  shows "pmtu_advance now pm =
     (pm\<lparr>pm_PMTUProbeCount := pm_PMTUProbeCount pm + 1, pm_nextPMTUProbe_us := now + 1000000\<rparr>, True)"
proof -
  have "unat (pm_PMTUProbeCount pm + 1) = Suc (unat (pm_PMTUProbeCount pm))"
    using assms(2) by (intro unat_plus_1 [of _ 2]) (simp add: word_less_nat_alt)
  then have "\<not> 3 \<le> pm_PMTUProbeCount pm + 1" using assms(2) by (simp add: word_le_nat_alt)
  then show ?thesis using assms(1) by (simp add: pmtu_advance_def Let_def)
qed

lemma pmtu_advance_halve:
  assumes "pm_PMTUProbeStep_B pm \<noteq> 0" "pm_PMTUProbeCount pm = 2"
  shows "pmtu_advance now pm =
     (if \<bar>pm_PMTUProbeStep_B pm sdiv 2\<bar> < 4
      then (pm\<lparr>pm_PMTUProbeCount := 0, pm_PMTUProbeStep_B := 0, pm_nextPMTUProbe_us := now + 600000000\<rparr>, False)
      else (pm\<lparr>pm_PMTUProbeCount := 0, pm_PMTUProbeStep_B := pm_PMTUProbeStep_B pm sdiv 2,
               pm_nextPMTUProbe_us := now + 1000000\<rparr>, True))"
  using assms by (simp add: pmtu_advance_def Let_def)

lemma probe_steps_half:
  "x \<in> probe_steps \<Longrightarrow> x \<noteq> 0 \<Longrightarrow> x \<noteq> 4 \<Longrightarrow> x sdiv 2 \<in> probe_steps \<and> 4 \<le> x sdiv 2 \<and> 2 * (x sdiv 2) = x"
  "x \<in> probe_steps \<Longrightarrow> x \<noteq> 0 \<Longrightarrow> 4 \<le> x" "x \<in> probe_steps \<Longrightarrow> 0 \<le> x \<and> x \<le> 128"
  by (auto simp: probe_steps_def sdiv_2)

lemma count_2: "pm_PMTUProbeCount pm < 3 \<Longrightarrow> \<not> unat (pm_PMTUProbeCount pm) < 2 \<Longrightarrow> pm_PMTUProbeCount pm = 2"
  using count_cases [of "pm_PMTUProbeCount pm"] by auto

lemma pmtu_advance_cases [consumes 1, case_names start again halve finish]:
  assumes "pmtu_ok pm"
    and start: "pm_PMTUProbeStep_B pm = 0 \<Longrightarrow>
      P (pm\<lparr>pm_PMTUProbeStep_B := 128, pm_nextPMTUProbe_us := now + 1000000\<rparr>, True)"
    and again: "4 \<le> pm_PMTUProbeStep_B pm \<Longrightarrow> unat (pm_PMTUProbeCount pm) < 2 \<Longrightarrow>
      unat (pm_PMTUProbeCount pm + 1) = Suc (unat (pm_PMTUProbeCount pm)) \<Longrightarrow>
      P (pm\<lparr>pm_PMTUProbeCount := pm_PMTUProbeCount pm + 1, pm_nextPMTUProbe_us := now + 1000000\<rparr>, True)"
    and halve: "\<And>x. pm_PMTUProbeStep_B pm = 2 * x \<Longrightarrow> 4 \<le> x \<Longrightarrow> x \<in> probe_steps \<Longrightarrow> pm_PMTUProbeCount pm = 2 \<Longrightarrow>
      P (pm\<lparr>pm_PMTUProbeCount := 0, pm_PMTUProbeStep_B := x, pm_nextPMTUProbe_us := now + 1000000\<rparr>, True)"
    and finish: "pm_PMTUProbeStep_B pm = 4 \<Longrightarrow> pm_PMTUProbeCount pm = 2 \<Longrightarrow>
      P (pm\<lparr>pm_PMTUProbeCount := 0, pm_PMTUProbeStep_B := 0, pm_nextPMTUProbe_us := now + 600000000\<rparr>, False)"
  shows "P (pmtu_advance now pm)"
proof -
  have step: "pm_PMTUProbeStep_B pm \<in> probe_steps" and cnt: "pm_PMTUProbeCount pm < 3"
    using assms(1) by (auto simp: pmtu_ok_def)
  consider "pm_PMTUProbeStep_B pm = 0" | "pm_PMTUProbeStep_B pm \<noteq> 0" "unat (pm_PMTUProbeCount pm) < 2"
    | "pm_PMTUProbeStep_B pm = 4" "pm_PMTUProbeCount pm = 2"
    | "pm_PMTUProbeStep_B pm \<noteq> 0" "pm_PMTUProbeStep_B pm \<noteq> 4" "pm_PMTUProbeCount pm = 2"
    using count_2 [OF cnt] by blast
  then show ?thesis
  proof cases
    case 1
    then show ?thesis using start by (simp add: pmtu_advance_start)
  next
    case 2
    have "pm_PMTUProbeCount pm < 2" using 2 by (simp add: word_less_nat_alt)
    from unat_plus_1 [OF this] 2 show ?thesis
      using again probe_steps_half(2) [OF step] by (simp add: pmtu_advance_again)
  next
    case 3
    then show ?thesis using finish by (simp add: pmtu_advance_halve sdiv_2)
  next
    case 4
    then show ?thesis using halve probe_steps_half(1) [OF step] by (simp add: pmtu_advance_halve)
  qed
qed

lemma pmtu_advance_ok: "pmtu_ok pm \<Longrightarrow> pmtu_ok (fst (pmtu_advance now pm))"
  by (rule pmtu_advance_cases [where P = "\<lambda>r. pmtu_ok (fst r)"])
    (auto simp: pmtu_ok_def probe_steps_def word_less_nat_alt)

lemma pmtu_advance_frame:
  assumes "pmtu_ok pm"
  shows "pm_PMTU_B (fst (pmtu_advance now pm)) = pm_PMTU_B pm"
    "pm_PMTUProbeSize_B (fst (pmtu_advance now pm)) = pm_PMTUProbeSize_B pm"
    "snd (pmtu_advance now pm) \<Longrightarrow> 4 \<le> pm_PMTUProbeStep_B (fst (pmtu_advance now pm))
       \<and> pm_PMTUProbeStep_B (fst (pmtu_advance now pm)) \<le> 128"
proof -
  have step: "pm_PMTUProbeStep_B pm \<le> 128" using assms probe_steps_half(3) by (simp add: pmtu_ok_def)
  show "pm_PMTU_B (fst (pmtu_advance now pm)) = pm_PMTU_B pm"
    by (rule pmtu_advance_cases [OF assms, where P = "\<lambda>r. pm_PMTU_B (fst r) = pm_PMTU_B pm"]) simp_all
  show "pm_PMTUProbeSize_B (fst (pmtu_advance now pm)) = pm_PMTUProbeSize_B pm"
    by (rule pmtu_advance_cases [OF assms, where P = "\<lambda>r. pm_PMTUProbeSize_B (fst r) = pm_PMTUProbeSize_B pm"]) simp_all
  have "snd (pmtu_advance now pm) \<longrightarrow> 4 \<le> pm_PMTUProbeStep_B (fst (pmtu_advance now pm))
       \<and> pm_PMTUProbeStep_B (fst (pmtu_advance now pm)) \<le> 128"
    by (rule pmtu_advance_cases [OF assms, where P = "\<lambda>r. snd r \<longrightarrow> 4 \<le> pm_PMTUProbeStep_B (fst r)
        \<and> pm_PMTUProbeStep_B (fst r) \<le> 128"]) (use step in auto)
  then show "snd (pmtu_advance now pm) \<Longrightarrow> 4 \<le> pm_PMTUProbeStep_B (fst (pmtu_advance now pm))
       \<and> pm_PMTUProbeStep_B (fst (pmtu_advance now pm)) \<le> 128" by simp
qed

lemma pmtu_response_ok: "pmtu_ok pm \<Longrightarrow> pmtu_ok (pmtu_response n pm)"
proof -
  assume "pmtu_ok pm"
  moreover have "unat (ucast n :: u32) \<le> 65535" using unat_u16_less [of n] by (simp add: unat_ucast_mod del: unat_u16_less)
  ultimately show ?thesis by (auto simp: pmtu_ok_def pmtu_response_def)
qed


subsection \<open>The search finds the path MTU\<close>

text \<open>One period of the search on a path that carries datagrams of up to \<open>L\<close> bytes: the due call, and
  when its probe arrives, the header of the peer's next datagram, which echoes the probe's size.\<close>

definition probe_round :: "nat \<Rightarrow> Connection \<Rightarrow> Connection" where
  "probe_round L c =
     (case pmtu_search (pm_nextPMTUProbe_us (c_pmtu c)) c of
        Some (c', [Sent b _ _]) \<Rightarrow>
          if length b \<le> L
          then c'\<lparr>c_pmtu := pmtu_response (ucast (of_nat (length b) :: u32)) (c_pmtu c')\<rparr> else c'
      | Some (c', _) \<Rightarrow> c'
      | None \<Rightarrow> c)"

lemma writePMTUProbe_size:
  assumes "pmtu_ok (c_pmtu c)" "4 \<le> pm_PMTUProbeStep_B (c_pmtu c)" "pm_PMTUProbeStep_B (c_pmtu c) \<le> 128"
    "size_B = pm_PMTU_B (c_pmtu c) + of_int (pm_PMTUProbeStep_B (c_pmtu c))"
  shows "unat size_B = unat (pm_PMTU_B (c_pmtu c)) + nat (pm_PMTUProbeStep_B (c_pmtu c))"
    "\<exists>b. writePMTUProbe c = Some (c\<lparr>c_pmtu := (c_pmtu c)\<lparr>pm_PMTUProbeSize_B := size_B\<rparr>, c_txBuffer := b\<rparr>)
       \<and> length b = unat size_B"
proof -
  define n where "n = nat (pm_PMTUProbeStep_B (c_pmtu c))"
  have n: "of_int (pm_PMTUProbeStep_B (c_pmtu c)) = (of_nat n :: u32)" "n \<le> 128"
    using assms(2,3) by (simp_all add: n_def)
  have P: "unat (pm_PMTU_B (c_pmtu c)) \<le> 65535" "1172 \<le> unat (pm_PMTU_B (c_pmtu c))"
    using assms(1) by (auto simp: pmtu_ok_def)
  have "unat (of_nat n :: u32) = n" using n(2) by (intro unat_of_nat_small) simp
  then have "unat size_B = unat (pm_PMTU_B (c_pmtu c)) + n"
    unfolding assms(4) n(1) using P n(2) by (simp add: unat_word_ariths)
  then show u: "unat size_B = unat (pm_PMTU_B (c_pmtu c)) + nat (pm_PMTUProbeStep_B (c_pmtu c))"
    by (simp add: n_def)
  then have "26 \<le> unat size_B" using P by linarith
  then show "\<exists>b. writePMTUProbe c = Some (c\<lparr>c_pmtu := (c_pmtu c)\<lparr>pm_PMTUProbeSize_B := size_B\<rparr>, c_txBuffer := b\<rparr>)
       \<and> length b = unat size_B"
    using assms(4) by (auto simp: writePMTUProbe_def Let_def length_header_bytes intro!: exI)
qed

lemma probe_round_pmtu:
  assumes "pmtu_ok (c_pmtu c)" "L \<le> 65507" "pmtu_advance (pm_nextPMTUProbe_us (c_pmtu c)) (c_pmtu c) = (pm, probe)"
  shows "\<exists>size_B. (probe \<longrightarrow> unat size_B = unat (pm_PMTU_B (c_pmtu c)) + nat (pm_PMTUProbeStep_B pm))
    \<and> c_pmtu (probe_round L c) =
      (if \<not> probe then pm
       else if unat size_B \<le> L then pm\<lparr>pm_PMTU_B := size_B, pm_PMTUProbeSize_B := 0, pm_PMTUProbeCount := 0\<rparr>
       else pm\<lparr>pm_PMTUProbeSize_B := size_B\<rparr>)"
proof (cases probe)
  case True
  define size_B where "size_B = pm_PMTU_B pm + of_int (pm_PMTUProbeStep_B pm)"
  have pm: "pmtu_ok pm" "pm_PMTU_B pm = pm_PMTU_B (c_pmtu c)" "4 \<le> pm_PMTUProbeStep_B pm" "pm_PMTUProbeStep_B pm \<le> 128"
    using pmtu_advance_ok [OF assms(1)] pmtu_advance_frame [OF assms(1)] assms(3) True by (metis fst_conv snd_conv)+
  let ?c = "c\<lparr>c_pmtu := pm\<rparr>"
  obtain b where w: "writePMTUProbe ?c = Some (?c\<lparr>c_pmtu := pm\<lparr>pm_PMTUProbeSize_B := size_B\<rparr>, c_txBuffer := b\<rparr>)"
    "length b = unat size_B" and size: "unat size_B = unat (pm_PMTU_B pm) + nat (pm_PMTUProbeStep_B pm)"
    using writePMTUProbe_size [of ?c size_B] pm by (auto simp: size_B_def)
  have search: "pmtu_search (pm_nextPMTUProbe_us (c_pmtu c)) c =
      Some (?c\<lparr>c_pmtu := pm\<lparr>pm_PMTUProbeSize_B := size_B\<rparr>, c_txBuffer := b\<rparr>, [Sent b (c_port c) (c_IPv4 c)])"
    using assms(3) w(1) True by (simp add: pmtu_search_def send_txBuffer_def)
  have "0 < size_B" using size pm(1) by (simp add: pmtu_ok_def word_less_nat_alt)
  moreover have "ucast (ucast size_B :: u16) = size_B" if "unat size_B \<le> L"
    using that assms(2) by (simp add: word_unat_eq_iff unat_ucast_mod)
  ultimately have "c_pmtu (probe_round L c) =
      (if unat size_B \<le> L then pm\<lparr>pm_PMTU_B := size_B, pm_PMTUProbeSize_B := 0, pm_PMTUProbeCount := 0\<rparr>
       else pm\<lparr>pm_PMTUProbeSize_B := size_B\<rparr>)"
    by (simp add: probe_round_def search pmtu_response_def w(2))
  with size pm(2) True show ?thesis by (intro exI [of _ size_B]) simp
next
  case False
  then show ?thesis using assms(3) by (simp add: probe_round_def pmtu_search_def)
qed


text \<open>What holds between two periods: the current size fits the path, and once a size has been probed
  again it has failed before.\<close>

definition searching :: "nat \<Rightarrow> Pmtu \<Rightarrow> bool" where
  "searching L pm \<longleftrightarrow> pmtu_ok pm \<and> unat (pm_PMTU_B pm) \<le> L
     \<and> (pm_PMTUProbeStep_B pm \<noteq> 0 \<longrightarrow> pm_PMTUProbeCount pm = 0
          \<or> L < unat (pm_PMTU_B pm) + nat (pm_PMTUProbeStep_B pm))"

definition search_rank :: "nat \<Rightarrow> Pmtu \<Rightarrow> nat" where
  "search_rank L pm = (L - unat (pm_PMTU_B pm)) * 1000 + nat (pm_PMTUProbeStep_B pm) * 4
     + (3 - unat (pm_PMTUProbeCount pm))"

definition found :: "nat \<Rightarrow> Pmtu \<Rightarrow> bool" where
  "found L pm \<longleftrightarrow> pm_PMTUProbeStep_B pm = 0 \<and> unat (pm_PMTU_B pm) \<le> L \<and> L < unat (pm_PMTU_B pm) + 4"

lemma probe_round_ok:
  assumes "pmtu_ok (c_pmtu c)" "L \<le> 65507"
  shows "pmtu_ok (c_pmtu (probe_round L c))"
proof -
  obtain pm probe where adv: "pmtu_advance (pm_nextPMTUProbe_us (c_pmtu c)) (c_pmtu c) = (pm, probe)" by fastforce
  have pm: "pmtu_ok pm" using pmtu_advance_ok [OF assms(1), of "pm_nextPMTUProbe_us (c_pmtu c)"] adv by simp
  have P: "1172 \<le> unat (pm_PMTU_B (c_pmtu c))" using assms(1) by (simp add: pmtu_ok_def)
  obtain size_B where size: "probe \<longrightarrow> unat size_B = unat (pm_PMTU_B (c_pmtu c)) + nat (pm_PMTUProbeStep_B pm)"
    "c_pmtu (probe_round L c) =
      (if \<not> probe then pm
       else if unat size_B \<le> L then pm\<lparr>pm_PMTU_B := size_B, pm_PMTUProbeSize_B := 0, pm_PMTUProbeCount := 0\<rparr>
       else pm\<lparr>pm_PMTUProbeSize_B := size_B\<rparr>)"
    using probe_round_pmtu [OF assms adv] by blast
  show ?thesis using pm P size(1) assms(2) unfolding size(2) by (auto simp: pmtu_ok_def)
qed

lemma probe_round_sent:
  assumes "pmtu_ok (c_pmtu c)" "L \<le> 65507" "pmtu_advance (pm_nextPMTUProbe_us (c_pmtu c)) (c_pmtu c) = (pm, True)"
  shows "pm_PMTUProbeStep_B (c_pmtu (probe_round L c)) = pm_PMTUProbeStep_B pm \<and>
    (if unat (pm_PMTU_B (c_pmtu c)) + nat (pm_PMTUProbeStep_B pm) \<le> L
     then unat (pm_PMTU_B (c_pmtu (probe_round L c))) = unat (pm_PMTU_B (c_pmtu c)) + nat (pm_PMTUProbeStep_B pm)
       \<and> pm_PMTUProbeCount (c_pmtu (probe_round L c)) = 0
     else pm_PMTU_B (c_pmtu (probe_round L c)) = pm_PMTU_B (c_pmtu c)
       \<and> pm_PMTUProbeCount (c_pmtu (probe_round L c)) = pm_PMTUProbeCount pm)"
proof -
  have "pm_PMTU_B pm = pm_PMTU_B (c_pmtu c)" using pmtu_advance_frame(1) [OF assms(1)] assms(3) by (metis fst_conv)
  then show ?thesis
    using probe_round_pmtu [OF assms]
    by (cases "unat (pm_PMTU_B (c_pmtu c)) + nat (pm_PMTUProbeStep_B pm) \<le> L") auto
qed

lemma probe_round_start:
  assumes "searching L (c_pmtu c)" "L \<le> 65507" "pm_PMTUProbeStep_B (c_pmtu c) = 0"
  shows "searching L (c_pmtu (probe_round L c)) \<and> pm_PMTUProbeStep_B (c_pmtu (probe_round L c)) = 128"
proof -
  have ok: "pmtu_ok (c_pmtu c)" and "unat (pm_PMTU_B (c_pmtu c)) \<le> L" using assms(1) by (auto simp: searching_def)
  then show ?thesis
    using probe_round_sent [OF ok assms(2) pmtu_advance_start [OF assms(3)]] probe_round_ok [OF ok assms(2)]
    by (auto simp: searching_def split: if_splits)
qed

lemma probe_round_progress:
  assumes "searching L (c_pmtu c)" "L \<le> 65507" "pm_PMTUProbeStep_B (c_pmtu c) \<noteq> 0"
  shows "found L (c_pmtu (probe_round L c))
    \<or> searching L (c_pmtu (probe_round L c)) \<and> pm_PMTUProbeStep_B (c_pmtu (probe_round L c)) \<noteq> 0
      \<and> search_rank L (c_pmtu (probe_round L c)) < search_rank L (c_pmtu c)" (is ?goal)
proof -
  let ?pm = "c_pmtu c" and ?pm' = "c_pmtu (probe_round L c)"
  let ?P = "unat (pm_PMTU_B ?pm)" and ?t = "pm_nextPMTUProbe_us (c_pmtu c)"
  have ok: "pmtu_ok ?pm" and P: "?P \<le> L"
    and failed: "pm_PMTUProbeCount ?pm = 0 \<or> L < ?P + nat (pm_PMTUProbeStep_B ?pm)"
    using assms(1,3) by (auto simp: searching_def)
  note ok' = probe_round_ok [OF ok assms(2)] and sent = probe_round_sent [OF ok assms(2)]
  have "pmtu_advance ?t ?pm = r \<longrightarrow> ?goal" if "r = pmtu_advance ?t ?pm" for r
    unfolding that
  proof (rule pmtu_advance_cases [OF ok, where now = ?t and P = "\<lambda>r. pmtu_advance ?t ?pm = r \<longrightarrow> ?goal"]; intro impI)
    assume "pm_PMTUProbeStep_B ?pm = 0"
    then show ?goal using assms(3) by simp
  next
    let ?q = "?pm\<lparr>pm_PMTUProbeCount := pm_PMTUProbeCount ?pm + 1, pm_nextPMTUProbe_us := ?t + 1000000\<rparr>"
    assume step: "4 \<le> pm_PMTUProbeStep_B ?pm" and cnt: "unat (pm_PMTUProbeCount ?pm) < 2"
      "unat (pm_PMTUProbeCount ?pm + 1) = Suc (unat (pm_PMTUProbeCount ?pm))" and q: "pmtu_advance ?t ?pm = (?q, True)"
    show ?goal using sent [OF q] ok' P step cnt by (auto simp: searching_def search_rank_def split: if_splits)
  next
    fix x
    let ?q = "?pm\<lparr>pm_PMTUProbeCount := 0, pm_PMTUProbeStep_B := x, pm_nextPMTUProbe_us := ?t + 1000000\<rparr>"
    assume x: "pm_PMTUProbeStep_B ?pm = 2 * x" "4 \<le> x" "pm_PMTUProbeCount ?pm = 2" and q: "pmtu_advance ?t ?pm = (?q, True)"
    show ?goal using sent [OF q] ok' P x by (auto simp: searching_def search_rank_def split: if_splits)
  next
    assume "pm_PMTUProbeStep_B ?pm = 4" "pm_PMTUProbeCount ?pm = 2" and q: "pmtu_advance ?t ?pm =
      (?pm\<lparr>pm_PMTUProbeCount := 0, pm_PMTUProbeStep_B := 0, pm_nextPMTUProbe_us := ?t + 600000000\<rparr>, False)"
    then show ?goal using probe_round_pmtu [OF ok assms(2) q] failed P by (auto simp: found_def)
  qed
  then show ?thesis by blast
qed

lemma search_ends:
  assumes "searching L (c_pmtu c)" "L \<le> 65507" "pm_PMTUProbeStep_B (c_pmtu c) \<noteq> 0"
  shows "\<exists>n. found L (c_pmtu ((probe_round L ^^ n) c))"
  using assms
proof (induction "search_rank L (c_pmtu c)" arbitrary: c rule: less_induct)
  case less
  from probe_round_progress [OF less.prems] show ?case
  proof
    assume "found L (c_pmtu (probe_round L c))"
    then have "found L (c_pmtu ((probe_round L ^^ 1) c))" by simp
    then show ?thesis by blast
  next
    assume "searching L (c_pmtu (probe_round L c)) \<and> pm_PMTUProbeStep_B (c_pmtu (probe_round L c)) \<noteq> 0
      \<and> search_rank L (c_pmtu (probe_round L c)) < search_rank L (c_pmtu c)"
    then obtain n where "found L (c_pmtu ((probe_round L ^^ n) (probe_round L c)))" using less.hyps less.prems(2) by blast
    then have "found L (c_pmtu ((probe_round L ^^ Suc n) c))" by (simp add: funpow_swap1)
    then show ?thesis by blast
  qed
qed

text \<open>
  C16. The search for the path MTU ends and finds it. On a path that carries datagrams of up to \<open>L\<close>
  bytes, where the echo of each probe that fits arrives before the next one is due, a search that
  starts from the base size (or any size that fits) completes after finitely many periods, with a size
  that fits the path and is less than four bytes below its limit.
\<close>

theorem pmtu_search_finds:
  assumes "pmtu_ok (c_pmtu c)" "pm_PMTUProbeStep_B (c_pmtu c) = 0"
    "unat (pm_PMTU_B (c_pmtu c)) \<le> L" "L \<le> 65507"
  shows "\<exists>n. 0 < n \<and> (let pm = c_pmtu ((probe_round L ^^ n) c) in
    pm_PMTUProbeStep_B pm = 0 \<and> unat (pm_PMTU_B pm) \<le> L \<and> L < unat (pm_PMTU_B pm) + 4)"
proof -
  have "searching L (c_pmtu c)" using assms by (simp add: searching_def)
  from probe_round_start [OF this assms(4,2)] obtain n where "found L (c_pmtu ((probe_round L ^^ n) (probe_round L c)))"
    using search_ends [OF _ assms(4)] by fastforce
  then have "found L (c_pmtu ((probe_round L ^^ Suc n) c))" by (simp add: funpow_swap1)
  then show ?thesis unfolding found_def Let_def by blast
qed

definition pmtu_pre :: "Pmtu \<Rightarrow> bool" where
  "pmtu_pre pm \<longleftrightarrow> (pm_PMTUProbeSize_B pm = 0 \<or> 1172 \<le> unat (pm_PMTUProbeSize_B pm)) \<and> pm_PMTUProbeCount pm < 3"

lemma pmtu_ok_pre: "pmtu_ok pm \<Longrightarrow> pmtu_pre pm"
  by (simp add: pmtu_ok_def pmtu_pre_def)

lemma partialReset_pmtu [simp]:
  "pmtu_pre (c_pmtu c) \<Longrightarrow> pmtu_ok (c_pmtu (partialReset c))" "pm_PMTUProbeStep_B (c_pmtu (partialReset c)) = 0"
  "pm_PMTU_B (c_pmtu (partialReset c)) = 1172"
  by (simp_all add: partialReset_def pmtu_ok_def pmtu_pre_def probe_steps_def)

lemma pmtu_ok_fresh: "pmtu_ok (c_pmtu (partialReset Connection_init))"
  by (simp add: partialReset_def Connection_init_def Pmtu_init_def pmtu_ok_def probe_steps_def)

theorem pmtu_search_finds_witness:
  "\<exists>n. 0 < n \<and> (let pm = c_pmtu ((probe_round 1472 ^^ n) (partialReset Connection_init)) in
    pm_PMTUProbeStep_B pm = 0 \<and> unat (pm_PMTU_B pm) \<le> 1472 \<and> 1472 < unat (pm_PMTU_B pm) + 4)"
  by (rule pmtu_search_finds) (simp_all add: pmtu_ok_fresh)

subsection \<open>Loss estimation\<close>

lemma u32_modulus: "(4294967296 :: u32) = 0"
  by (simp add: word_eq_iff_unsigned)

lemma unat_uminus: "d \<noteq> 0 \<Longrightarrow> unat (- d :: u32) = 2 ^ 32 - unat d"
proof -
  assume "d \<noteq> 0"
  have "unat (UINT32_MAX - d) = unat UINT32_MAX - unat d" by (rule unat_sub) (simp add: word_le_nat_alt)
  moreover have "UINT32_MAX - d < UINT32_MAX"
    using calculation unat_gt_0 [of d] \<open>d \<noteq> 0\<close> by (simp add: word_less_nat_alt)
  ultimately have "unat (UINT32_MAX - d + 1) = 2 ^ 32 - unat d"
    using unat_plus_1 [of "UINT32_MAX - d" UINT32_MAX] unat_u32_less [of d] by (simp del: unat_u32_less)
  moreover have "UINT32_MAX - d + 1 = - d" using u32_modulus by simp
  ultimately show ?thesis by simp
qed

text \<open>The number of packets expected between two packet numbers, against serial-number arithmetic
  (the difference modulo \<open>2 ^ 32\<close>). When the received number is ahead by less than half the range,
  the result is the difference, except that it is one too small when the numbering wrapped around in
  between. When it is behind by less than half the range, nothing is expected, except that a late
  packet from before the wrap-around counts as the whole, huge difference.\<close>

lemma packets_expected_serial:
  assumes "unat d < 2 ^ 31 - 1"
  shows "packets_expected p (p + d) = (if d = 0 then 0 else if p < p + d then d else d - 1)
    \<and> packets_expected p (p - d) = (if p < p - d then - d else 0)"
proof -
  have d: "d < UINT32_MAX div 2" using assms by (simp add: word_less_nat_alt)
  have "\<not> - d < UINT32_MAX div 2" if "d \<noteq> 0"
    using assms unat_uminus [OF that] by (simp add: word_less_nat_alt)
  then show ?thesis using d by (auto simp: packets_expected_def)
qed

lemma window_loss_bound:
  assumes "(count :: u32) < expected"
  shows "unat (count * 10000 div expected) \<le> 10000"
proof -
  have e: "0 < unat expected" using assms by (auto simp: word_less_nat_alt)
  have "unat (count * 10000) \<le> unat count * 10000"
    by (simp add: unat_word_ariths)
  also have "\<dots> \<le> unat expected * 10000" using assms by (simp add: word_less_nat_alt)
  finally have "unat (count * 10000) div unat expected \<le> 10000"
    using e by (metis div_le_mono nonzero_mult_div_cancel_left less_numeral_extra(3))
  then show ?thesis by (simp add: unat_div)
qed

lemma window_loss_eq:
  "count < expected \<Longrightarrow> unat (window_loss count expected) = 10000 - unat (count * 10000 div expected)"
proof -
  assume lt: "count < expected"
  let ?q = "count * 10000 div expected"
  have q: "unat ?q \<le> 10000" by (rule window_loss_bound [OF lt])
  then have "unat (10000 - ?q) = 10000 - unat ?q" by (subst unat_sub) (simp_all add: word_le_nat_alt)
  then show "unat (window_loss count expected) = 10000 - unat ?q"
    using lt by (simp add: window_loss_def unat_ucast_mod)
qed

lemma window_loss_le: "unat (window_loss count expected) \<le> 10000"
  by (cases "count < expected") (simp_all add: window_loss_eq, simp add: window_loss_def)

text \<open>The loss reported to the peer never exceeds 10000, even where the 32-bit product wraps around; where
  it does not, it is the share of the expected packets that did not arrive, rounded up.\<close>

lemma window_loss_is_percentage:
  "unat (window_loss count expected) \<le> 10000
   \<and> (unat count * 10000 < 2 ^ 32 \<longrightarrow> count < expected \<longrightarrow>
        unat (window_loss count expected) = 10000 - unat count * 10000 div unat expected)"
  using window_loss_le window_loss_eq by (simp add: unat_div unat_word_ariths)

lemma rx_window_loss:
  "unat (n_rxPacketsLossInWindow_prc100 n) \<le> 10000 \<Longrightarrow>
   unat (n_rxPacketsLossInWindow_prc100 (fst (rx_window h n))) \<le> 10000"
  using window_loss_le by (auto simp: rx_window_def Let_def)

subsection \<open>The send limit\<close>

text \<open>One step of congestion control. Decreasing never raises the limit and never takes it to zero;
  increasing never lowers it and never exceeds the limit the application asked for, as long as that is
  at most \<open>0xFF000000\<close> bytes per second, below which the 32-bit sum cannot wrap around.\<close>

lemma adjust_limit_bounds:
  assumes "0 < t_txLimit_B_s t" "t_txLimit_B_s t \<le> t_desiredTxLimit_B_s t" "t_desiredTxLimit_B_s t \<le> 0xFF000000"
  shows "0 < t_txLimit_B_s (adjust_limit congested t)
    \<and> t_txLimit_B_s (adjust_limit congested t) \<le> t_desiredTxLimit_B_s t
    \<and> (if congested then t_txLimit_B_s (adjust_limit congested t) \<le> t_txLimit_B_s t
       else t_txLimit_B_s t \<le> t_txLimit_B_s (adjust_limit congested t))"
proof -
  define x where "x = t_txLimit_B_s t"
  define d where "d = t_desiredTxLimit_B_s t"
  have x: "0 < unat x" "unat x \<le> unat d" "unat d \<le> 0xFF000000"
    using assms by (simp_all add: x_def d_def word_less_nat_alt word_le_nat_alt)
  have dec: "unat (tx_decrease x) = unat x - unat x div 128"
    unfolding tx_decrease_def by (subst unat_sub) (simp_all add: word_le_nat_alt unat_div)
  have "unat x + unat x div 256 < 4294967296" using x by linarith
  then have a: "unat (x + x div 256) = unat x + unat x div 256"
    by (simp add: unat_word_ariths unat_div)
  have b: "unat (x + 9376) = unat x + 9376" if "x div 256 \<le> 9376"
  proof -
    have "unat x div 256 \<le> 9376" using that by (simp add: word_le_nat_alt unat_div)
    then have "unat x + 9376 < 4294967296" by linarith
    then show ?thesis by (simp add: unat_word_ariths)
  qed
  have "x \<le> tx_increase d x" unfolding tx_increase_def
    using a b x by (intro min.boundedI) (auto simp: word_le_nat_alt)
  moreover have "tx_increase d x \<le> d" by (simp add: tx_increase_def)
  moreover have "0 < tx_decrease x \<and> tx_decrease x \<le> x"
    using dec x(1) by (simp add: word_less_nat_alt word_le_nat_alt)
  moreover have "x \<le> d" using x(2) by (simp add: word_le_nat_alt)
  ultimately show ?thesis
    using assms(1) by (auto simp: adjust_limit_def x_def [symmetric] d_def [symmetric])
qed

text \<open>Every second the send limit is cut to four times the measured speed, but not below the default.
  The product is computed in 32 bits: below \<open>2 ^ 30\<close> bytes per second the cut is as meant, at
  exactly that speed the product is zero and the limit falls to the default of 262144.\<close>

lemma limit_after_second_wraps:
  "(unat speed < 2 ^ 30 \<longrightarrow> unat (limit_after_second speed limit) = min (unat limit) (max 262144 (4 * unat speed)))
   \<and> limit_after_second 0x40000000 limit = min limit 262144"
proof -
  have "unat (speed * 4) = 4 * unat speed" if "unat speed < 2 ^ 30"
    using that by (simp add: unat_word_ariths)
  moreover have "(0x40000000 * 4 :: u32) = 0" by (simp add: word_eq_iff_unsigned)
  ultimately show ?thesis
    by (auto simp: limit_after_second_def min_def max_def word_le_nat_alt)
qed

subsection \<open>Looking for a new minimal round-trip time\<close>

lemma min_rtt_eq:
  assumes "0 < r" "r < int (unat UINT32_MAX)"
  shows "int (unat (min_rtt r m)) = min r (int (unat m))"
proof -
  have "int (unat (of_int r :: u32)) = r" using assms by (simp add: uint_word_of_int take_bit_int_eq_self)
  then show ?thesis using assms by (simp add: min_rtt_def)
qed

lemma rtt_probing_more:
  assumes "t_isRTTProbing t" "unat (t_RTTCount t) < 7"
  shows "t_isRTTProbing (rtt_probing now r t)" "unat (t_RTTCount (rtt_probing now r t)) = Suc (unat (t_RTTCount t))"
    "t_nextMinRTT_us (rtt_probing now r t) = min_rtt r (t_nextMinRTT_us t)"
proof -
  have "unat (t_RTTCount t + 1) = Suc (unat (t_RTTCount t))"
    using assms(2) by (intro unat_plus_1 [of _ 7]) (simp add: word_less_nat_alt)
  moreover from this have "\<not> 8 \<le> t_RTTCount t + 1" using assms(2) by (simp add: word_le_nat_alt)
  ultimately show "t_isRTTProbing (rtt_probing now r t)"
      "unat (t_RTTCount (rtt_probing now r t)) = Suc (unat (t_RTTCount t))"
      "t_nextMinRTT_us (rtt_probing now r t) = min_rtt r (t_nextMinRTT_us t)"
    using assms(1) by (simp_all add: rtt_probing_def Let_def)
qed

lemma rtt_probing_last:
  assumes "unat (t_RTTCount t) = 7"
  shows "rtt_probing now r t = t\<lparr>t_RTTCount := 0, t_minRTT_us := min_rtt r (t_nextMinRTT_us t),
    t_nextMinRTT_us := UINT32_MAX, t_isRTTProbing := False, t_nextRTTProbe_us := now + 10000000\<rparr>"
proof -
  have "t_RTTCount t = 7" using assms by (simp add: word_unat_eq_iff)
  then show ?thesis by (simp add: rtt_probing_def Let_def)
qed

lemma rtt_probing_fold:
  assumes "t_isRTTProbing t" "unat (t_RTTCount t) + length rs \<le> 7"
    "\<forall>r \<in> set rs. 0 < r \<and> r < int (unat UINT32_MAX)"
  shows "t_isRTTProbing (fold (rtt_probing now) rs t)
    \<and> unat (t_RTTCount (fold (rtt_probing now) rs t)) = unat (t_RTTCount t) + length rs
    \<and> int (unat (t_nextMinRTT_us (fold (rtt_probing now) rs t))) = Min (insert (int (unat (t_nextMinRTT_us t))) (set rs))"
  using assms
proof (induction rs arbitrary: t)
  case Nil
  then show ?case by simp
next
  case (Cons r rs)
  let ?t = "rtt_probing now r t"
  have more: "t_isRTTProbing ?t" "unat (t_RTTCount ?t) = Suc (unat (t_RTTCount t))"
    "int (unat (t_nextMinRTT_us ?t)) = min r (int (unat (t_nextMinRTT_us t)))"
    using rtt_probing_more [of t now r] min_rtt_eq [of r] Cons.prems by auto
  have "Min (insert (min r (int (unat (t_nextMinRTT_us t)))) (set rs)) =
      Min (insert (int (unat (t_nextMinRTT_us t))) (set (r # rs)))"
    by (cases "rs = []") (simp_all add: min.assoc min.commute min.left_commute)
  then show ?case using Cons.IH [of ?t] more Cons.prems by simp
qed

text \<open>A search for a new minimal round-trip time ends with the eighth measurement, and the new minimum
  is the least of the eight.\<close>

lemma rtt_probing_ends:
  assumes "t_isRTTProbing t" "t_RTTCount t = 0" "t_nextMinRTT_us t = UINT32_MAX"
    "length rs = 8" "\<forall>r \<in> set rs. 0 < r \<and> r < int (unat UINT32_MAX)"
  shows "let t' = fold (rtt_probing now) rs t in \<not> t_isRTTProbing t' \<and> t_RTTCount t' = 0
    \<and> int (unat (t_minRTT_us t')) = Min (set rs) \<and> t_nextMinRTT_us t' = UINT32_MAX
    \<and> t_nextRTTProbe_us t' = now + 10000000"
proof -
  define xs where "xs = butlast rs"
  define r where "r = last rs"
  have "rs \<noteq> []" using assms(4) by auto
  then have rs: "rs = xs @ [r]" by (simp add: xs_def r_def)
  let ?t = "fold (rtt_probing now) xs t"
  have f: "unat (t_RTTCount ?t) = 7" "int (unat (t_nextMinRTT_us ?t)) = Min (insert (int (unat UINT32_MAX)) (set xs))"
    using rtt_probing_fold [of t xs now] assms rs by auto
  have "xs \<noteq> []" using assms(4) rs by auto
  have "int (unat (min_rtt r (t_nextMinRTT_us ?t))) = min r (Min (insert (int (unat UINT32_MAX)) (set xs)))"
    using min_rtt_eq [of r] assms(5) rs f(2) by simp
  also have "\<dots> = Min (set rs)"
    using assms(5) rs \<open>xs \<noteq> []\<close> by (auto simp: min.commute min.left_commute intro!: arg_cong2 [where f = min])
  finally show ?thesis using rtt_probing_last [OF f(1), of now r] by (simp add: rs Let_def)
qed

subsection \<open>Pacing ends\<close>

text \<open>Room for the connection's counters of sent bytes and for the loop's own count.\<close>

definition pace_room :: "u32 \<Rightarrow> u32 \<Rightarrow> Connection \<Rightarrow> bool" where
  "pace_room maxPortion_B txCount_B c \<longleftrightarrow>
     conn_inv (unat (pm_PMTU_B (c_pmtu c)) + (unat maxPortion_B - unat txCount_B)) c
     \<and> sizeof_PacketHeader \<le> unat (pm_PMTU_B (c_pmtu c))
     \<and> unat maxPortion_B + unat (pm_PMTU_B (c_pmtu c)) + 28 < 2 ^ 32"

definition pmtu_sized :: "nat \<Rightarrow> effect list \<Rightarrow> bool" where
  "pmtu_sized n = list_all (\<lambda>e. case e of Sent b _ _ \<Rightarrow> sizeof_PacketHeader \<le> length b \<and> length b \<le> n | _ \<Rightarrow> True)"

lemma pmtu_sized_simps [simp]:
  "pmtu_sized n []" "pmtu_sized n (map App evs)"
  "pmtu_sized n (outs @ outs') \<longleftrightarrow> pmtu_sized n outs \<and> pmtu_sized n outs'"
  "pmtu_sized n (Sent b port ip # outs) \<longleftrightarrow> sizeof_PacketHeader \<le> length b \<and> length b \<le> n \<and> pmtu_sized n outs"
  by (induction evs) (auto simp: pmtu_sized_def)

lemma pmtu_sized_mono: "pmtu_sized n outs \<Longrightarrow> n \<le> m \<Longrightarrow> pmtu_sized m outs"
  unfolding pmtu_sized_def by (erule list.pred_mono_strong) (auto split: effect.splits)

text \<open>A packet that is sent leaves room for the rest of the loop, or ends it.\<close>

lemma pace_room_step:
  assumes room: "pace_room maxPortion_B txCount_B c" and lt: "txCount_B < maxPortion_B"
    and w: "writePacket now test False c = Some (sent, c1, evs)"
  shows "unat (txCount_B + of_nat (length (c_txBuffer c1)) + 28) = unat txCount_B + length (c_txBuffer c1) + 28"
    "26 \<le> length (c_txBuffer c1)" "length (c_txBuffer c1) \<le> unat (pm_PMTU_B (c_pmtu c))" "conn_inv 0 c1"
    "txCount_B + of_nat (length (c_txBuffer c1)) + 28 < maxPortion_B
      \<Longrightarrow> pace_room maxPortion_B (txCount_B + of_nat (length (c_txBuffer c1)) + 28) c1"
proof -
  let ?P = "unat (pm_PMTU_B (c_pmtu c))" and ?L = "length (c_txBuffer c1)"
  let ?t = "txCount_B + of_nat ?L + 28"
  have r: "conn_inv (?P + (unat maxPortion_B - unat txCount_B)) c" "26 \<le> ?P" "unat maxPortion_B + ?P + 28 < 2 ^ 32"
    using room by (auto simp: pace_room_def)
  have lt': "unat txCount_B < unat maxPortion_B" using lt by (simp add: word_less_nat_alt)
  have L: "26 \<le> ?L" "?L \<le> ?P" "conn_inv (?P - ?L + (unat maxPortion_B - unat txCount_B)) c1"
    using writePacket_within [OF r(1,2), of now test False] w by auto
  show "26 \<le> ?L" "?L \<le> ?P" "conn_inv 0 c1" using L conn_inv_mono [OF L(3), of 0] by simp_all
  have "unat (of_nat ?L :: u32) = ?L" using L(2) r(3) by (intro unat_of_nat_small) simp
  then show t: "unat ?t = unat txCount_B + ?L + 28" using lt' L(2) r(3) by (simp add: unat_word_ariths)
  show "pace_room maxPortion_B ?t c1" if "?t < maxPortion_B"
    using that r L lt' t frame_simps(1) [OF writePacket_frame [OF w]]
      conn_inv_mono [OF L(3), of "?P + (unat maxPortion_B - unat ?t)"]
    by (auto simp: pace_room_def word_less_nat_alt)
qed

lemma pace_total:
  assumes "pace_room maxPortion_B txCount_B c"
  shows "\<exists>n c' outs. pace clock test maxPortion_B txCount_B i c = Some (n, c', outs)
    \<and> conn_inv 0 c' \<and> frame c' = frame c \<and> pmtu_sized (unat (pm_PMTU_B (c_pmtu c))) outs
    \<and> unat n \<le> max (unat txCount_B) (unat maxPortion_B + unat (pm_PMTU_B (c_pmtu c)) + 28)"
  using assms
proof (induction "unat maxPortion_B - unat txCount_B" arbitrary: txCount_B c i rule: less_induct)
  case less
  let ?P = "unat (pm_PMTU_B (c_pmtu c))"
  have room: "conn_inv (?P + 0) c" "26 \<le> ?P" using less.prems conn_inv_mono by (auto simp: pace_room_def)
  show ?case
  proof (cases "txCount_B < maxPortion_B")
    case False
    then show ?thesis using conn_inv_mono [OF room(1), of 0] by (simp add: pace.simps)
  next
    case True
    obtain sent c1 evs where w: "writePacket (clock i) test False c = Some (sent, c1, evs)"
      using writePacket_within [OF room, of "clock i" test False] by blast
    note step = pace_room_step [OF less.prems True w] and same = frame_simps(1) [OF writePacket_frame [OF w]]
    have lt: "unat txCount_B < unat maxPortion_B" using True by (simp add: word_less_nat_alt)
    let ?t = "txCount_B + of_nat (length (c_txBuffer c1)) + 28"
    have "\<exists>n c' outs. pace clock test maxPortion_B ?t (Suc i) c1 = Some (n, c', outs)
        \<and> conn_inv 0 c' \<and> frame c' = frame c1 \<and> pmtu_sized ?P outs \<and> unat n \<le> max (unat ?t) (unat maxPortion_B + ?P + 28)"
    proof (cases "?t < maxPortion_B")
      case True
      then show ?thesis using less.hyps [of ?t c1 "Suc i"] step lt same by simp
    next
      case False
      then show ?thesis using step(4) by (simp add: pace.simps)
    qed
    then obtain n c' outs where "pace clock test maxPortion_B ?t (Suc i) c1 = Some (n, c', outs)"
        "conn_inv 0 c'" "frame c' = frame c1" "pmtu_sized ?P outs" "unat n \<le> unat maxPortion_B + ?P + 28"
      using step(1,3) lt by fastforce
    then show ?thesis using True w step(2,3,4) lt writePacket_frame [OF w]
      by (cases sent) (simp_all add: pace.simps [of clock test maxPortion_B txCount_B] send_txBuffer_def)
  qed
qed

lemma stale_reset_keeps:
  "conn_inv n (stale_reset now c) = conn_inv n c"
  "pmtu_ok (c_pmtu c) \<Longrightarrow> pmtu_ok (c_pmtu (stale_reset now c))"
  "c_prevTick_us (stale_reset now c) = 0 \<or> c_prevTick_us (stale_reset now c) = c_prevTick_us c"
  by (auto simp: stale_reset_def pmtu_ok_pre) (simp_all add: partialReset_def conn_inv_def)

lemma pmtu_search_total:
  assumes "pmtu_ok (c_pmtu c)"
  shows "\<exists>pm b outs. pmtu_search now c = Some (c\<lparr>c_pmtu := pm, c_txBuffer := b\<rparr>, outs) \<and> pmtu_ok pm
    \<and> pmtu_sized 65663 outs"
proof (cases "now < pm_nextPMTUProbe_us (c_pmtu c)")
  case True
  then show ?thesis using assms by (intro exI [of _ "c_pmtu c"] exI [of _ "c_txBuffer c"]) (simp add: pmtu_search_def)
next
  case False
  obtain pm probe where adv: "pmtu_advance now (c_pmtu c) = (pm, probe)" by fastforce
  have pm: "pmtu_ok pm" using pmtu_advance_ok [OF assms, of now] adv by simp
  show ?thesis
  proof (cases probe)
    case True
    let ?c = "c\<lparr>c_pmtu := pm\<rparr>"
    define size_B where "size_B = pm_PMTU_B pm + of_int (pm_PMTUProbeStep_B pm)"
    have step: "4 \<le> pm_PMTUProbeStep_B pm" "pm_PMTUProbeStep_B pm \<le> 128"
      using pmtu_advance_frame(3) [OF assms, of now] adv True by auto
    obtain b where w: "writePMTUProbe ?c = Some (?c\<lparr>c_pmtu := pm\<lparr>pm_PMTUProbeSize_B := size_B\<rparr>, c_txBuffer := b\<rparr>)"
      "length b = unat size_B" and size: "unat size_B = unat (pm_PMTU_B pm) + nat (pm_PMTUProbeStep_B pm)"
      using writePMTUProbe_size [of ?c size_B] pm step by (auto simp: size_B_def)
    have bounds: "1172 \<le> unat size_B" "unat size_B \<le> 65663" using size step pm by (auto simp: pmtu_ok_def)
    then have "pmtu_ok (pm\<lparr>pm_PMTUProbeSize_B := size_B\<rparr>)" using pm by (simp add: pmtu_ok_def)
    then show ?thesis using w(1) bounds w(2) adv True False
      by (intro exI [of _ "pm\<lparr>pm_PMTUProbeSize_B := size_B\<rparr>"] exI [of _ b]) (simp add: pmtu_search_def send_txBuffer_def)
  next
    case no: False
    then show ?thesis using False adv pm
      by (intro exI [of _ pm] exI [of _ "c_txBuffer c"]) (simp add: pmtu_search_def)
  qed
qed

lemma max_portion_bound:
  assumes "c_prevTick_us c = 0 \<or> 0 \<le> now - c_prevTick_us c \<and> now - c_prevTick_us c \<le> 250000"
  shows "unat (fst (max_portion now c)) \<le> 2 ^ 30"
proof (cases "c_prevTick_us c = 0")
  case True
  then show ?thesis by (simp add: max_portion_def)
next
  case False
  define d where "d = now - c_prevTick_us c"
  define l where "l = int (unat (t_txLimit_B_s (c_traffic c)))"
  have d: "0 \<le> d" "d \<le> 250000" using assms False by (simp_all add: d_def)
  have l: "0 \<le> l" "l \<le> 4294967295"
    using unat_u32_le [of "t_txLimit_B_s (c_traffic c)"] unfolding l_def by linarith+
  have "0 \<le> d * l" using d l by simp
  moreover have "d * l \<le> 250000 * 4294967295" using d l by (intro mult_mono) auto
  ultimately have q: "0 \<le> (d * l) sdiv 1000000" "(d * l) sdiv 1000000 \<le> 2 ^ 30"
    by (auto simp: signed_divide_int_def sgn_if)
  then obtain n where n: "(d * l) sdiv 1000000 = int n" "n \<le> 2 ^ 30" using nonneg_int_cases by fastforce
  then have "unat (of_int ((d * l) sdiv 1000000) :: u32) \<le> 2 ^ 30"
    using unat_of_nat_small [of n, where 'a = 32] by simp
  moreover have "unat ((x :: u32) div 256) \<le> 2 ^ 30" for x
    using unat_u32_less [of x] by (simp add: unat_div del: unat_u32_less)
  ultimately show ?thesis using False by (simp add: max_portion_def Let_def d_def l_def)
qed

lemma txs_ok_reset_sent [simp]:
  "txs_ok (t\<lparr>txs_vec := \<lambda>p. (txs_vec t p)\<lparr>pm_countSent_B := 0\<rparr>\<rparr>) = txs_ok t"
  by (simp add: txs_ok_def)

lemma conn_inv_every_second: "conn_inv n c \<Longrightarrow> conn_inv n (fst (every_second now c))"
  by (auto simp: every_second_def conn_inv_def txs_safe_def sent_total_def)

lemma max_portion_keeps [simp]:
  "conn_inv n (snd (max_portion now c)) = conn_inv n c" "c_pmtu (snd (max_portion now c)) = c_pmtu c"
  by (simp_all add: max_portion_def Let_def)

lemma after_pacing_keeps [simp]:
  "conn_inv n (after_pacing now k c) = conn_inv n c" "c_pmtu (after_pacing now k c) = c_pmtu c"
  by (simp_all add: after_pacing_def)

lemma every_second_pmtu [simp]: "c_pmtu (fst (every_second now c)) = c_pmtu c"
  by (simp add: every_second_def)

text \<open>
  C7. A round of the worker thread for a connection ends. Suppose the last round was at most a quarter of
  a second ago, less than \<open>2 ^ 31\<close> bytes were counted as sent in the current second, the streams are well-formed,
  and every queued packet can be sent safely: no repeat request of the peer has moved its offset behind its
  data, and it is reliable or too large for a datagram. Then \<open>processConnection\<close> returns, for every send limit:
  the pacing loop stops before its byte counter can wrap around, no access is out of bounds, every datagram has at
  least the 26 bytes of a header and at most 65663, and the conditions on the streams and the invariant of the
  path MTU search hold afterwards.
\<close>

theorem processConnection_returns:
  assumes "pmtu_ok (c_pmtu c)" "rxs_ok (c_rxStreams c)" "txs_ok (c_txStreams c)" "txs_safe (c_txStreams c)"
    "sent_total (c_txStreams c) + 2 ^ 31 + 1 < 2 ^ 32" "0 \<le> now - c_prevTick_us c" "now - c_prevTick_us c \<le> 250000"
  shows "\<exists>c' outs second. processConnection clock test now c = Some (c', outs, second)
    \<and> pmtu_ok (c_pmtu c') \<and> conn_inv 0 c' \<and> pmtu_sized 65663 outs"
proof -
  have "conn_inv (2 ^ 31) c" using assms(2-5) by (simp add: conn_inv_def)
  then have c0: "pmtu_ok (c_pmtu (stale_reset now c))" "conn_inv (2 ^ 31) (stale_reset now c)"
    using stale_reset_keeps assms(1) by auto
  obtain c1 outs1 where c1: "pmtu_search now (stale_reset now c) = Some (c1, outs1)" "pmtu_ok (c_pmtu c1)"
      "conn_inv (2 ^ 31) c1" "pmtu_sized 65663 outs1" "c_prevTick_us c1 = c_prevTick_us (stale_reset now c)"
    using pmtu_search_total [OF c0(1), of now] c0(2) by fastforce
  obtain p c2 where p: "max_portion now c1 = (p, c2)" by fastforce
  have "c_prevTick_us c1 = 0 \<or> c_prevTick_us c1 = c_prevTick_us c" using stale_reset_keeps(3) c1(5) by metis
  then have small: "unat p \<le> 2 ^ 30" using max_portion_bound [of c1 now] assms(6,7) p by auto
  have c2: "pmtu_ok (c_pmtu c2)" "conn_inv (2 ^ 31) c2"
    using max_portion_keeps(1) [of "2 ^ 31" now c1] max_portion_keeps(2) [of now c1] c1(2,3) p by simp_all
  have P: "unat (pm_PMTU_B (c_pmtu c2)) \<le> 65535" "1172 \<le> unat (pm_PMTU_B (c_pmtu c2))"
    using c2(1) by (auto simp: pmtu_ok_def)
  have "pace_room p (n_txCount_B (c_cnt c2)) c2"
    using P small conn_inv_mono [OF c2(2)] by (simp add: pace_room_def)
  then obtain n c3 outs3 where c3: "pace clock test p (n_txCount_B (c_cnt c2)) 0 c2 = Some (n, c3, outs3)"
      "conn_inv 0 c3" "frame c3 = frame c2" "pmtu_sized (unat (pm_PMTU_B (c_pmtu c2))) outs3"
    using pace_total by blast
  have "pmtu_sized 65663 outs3" using pmtu_sized_mono [OF c3(4)] P(1) by simp
  moreover have "pmtu_ok (c_pmtu c3)" using frame_simps(1) [OF c3(3)] c2(1) by simp
  moreover have "conn_inv 0 (fst (every_second now (after_pacing now n c3)))"
    using conn_inv_every_second c3(2) by simp
  ultimately show ?thesis
    using c1(1,4) p c3(1) by (simp add: processConnection_def case_prod_beta)
qed

theorem processConnection_returns_witness:
  "\<exists>c' outs second. processConnection (\<lambda>_. 150000) False 150000 (example_busy\<lparr>c_prevTick_us := 100000\<rparr>) = Some (c', outs, second)
    \<and> pmtu_ok (c_pmtu c') \<and> conn_inv 0 c' \<and> pmtu_sized 65663 outs"
proof (rule processConnection_returns)
  show "pmtu_ok (c_pmtu (example_busy\<lparr>c_prevTick_us := 100000\<rparr>))" using pmtu_ok_fresh by (simp add: example_busy_inv(2))
qed (use example_busy_inv(1) [of "2 ^ 31"] in \<open>simp_all add: conn_inv_def\<close>)

end
