(* ===== verification/Udsp_Address.thy ===== *)
theory Udsp_Address
  imports Udsp_Wire
begin

text \<open>
  \<open>UdpSocket.hpp\<close> and \<open>UdpSocket.cpp\<close>: byte order and the class \<open>IPAddress\<close>. The C library's \<open>inet_pton\<close>
  and \<open>inet_ntop\<close> are arguments: conversions that may fail. The host is little endian.
\<close>

subsection \<open>Byte order\<close>

definition byteswap16 :: "u16 \<Rightarrow> u16" where
  "byteswap16 value = of_nat (le_decode (rev (le_encode 2 (unat value))))"

definition byteswap32 :: "u32 \<Rightarrow> u32" where
  "byteswap32 value = of_nat (le_decode (rev (le_encode 4 (unat value))))"

definition byteswap64 :: "u64 \<Rightarrow> u64" where
  "byteswap64 value = of_nat (le_decode (rev (le_encode 8 (unat value))))"

definition bigEndian16 :: "u16 \<Rightarrow> u16" where
  "bigEndian16 value = byteswap16 value"

definition bigEndian32 :: "u32 \<Rightarrow> u32" where
  "bigEndian32 value = byteswap32 value"

text \<open>\<open>bigEndian<uint32_t>(data)\<close>: the four bytes at \<open>data\<close>.\<close>

definition bigEndian32_at :: "bytes \<Rightarrow> u32" where
  "bigEndian32_at data = bigEndian32 (of_nat (le_decode (take 4 data)))"

definition littleEndian32 :: "u32 \<Rightarrow> u32" where
  "littleEndian32 value = value"

definition littleEndian32_at :: "bytes \<Rightarrow> u32" where
  "littleEndian32_at data = littleEndian32 (of_nat (le_decode (take 4 data)))"

subsection \<open>IPAddress\<close>

datatype Variant = Invalid | V4 | V4inV6 | V6

record IPAddress =
  m_bytes :: bytes
  m_variant :: Variant

definition IPAddress_init :: IPAddress where
  "IPAddress_init = \<lparr>m_bytes = replicate 16 0, m_variant = Invalid\<rparr>"

text \<open>The ten zero bytes and two \<open>0xFF\<close> bytes in front of an IPv4 address.\<close>

definition mapped_prefix :: bytes where
  "mapped_prefix = replicate 10 0 @ [0xFF, 0xFF]"

definition IPAddress_of_integer :: "u32 \<Rightarrow> IPAddress" where
  "IPAddress_of_integer IPv4 =
     \<lparr>m_bytes = mapped_prefix @ write_u32 (bigEndian32 IPv4), m_variant = V4\<rparr>"

definition IPAddress_of_bytes :: "u8 \<Rightarrow> u8 \<Rightarrow> u8 \<Rightarrow> u8 \<Rightarrow> IPAddress" where
  "IPAddress_of_bytes byte0 byte1 byte2 byte3 =
     \<lparr>m_bytes = mapped_prefix @ [byte0, byte1, byte2, byte3], m_variant = V4\<rparr>"

text \<open>\<open>size_B = 0\<close> stands for a null-terminated string, which is then the whole of it.\<close>

definition IPAddress_of_string ::
  "(string \<Rightarrow> bytes option) \<Rightarrow> (string \<Rightarrow> bytes option) \<Rightarrow> string \<Rightarrow> nat \<Rightarrow> IPAddress" where
  "IPAddress_of_string pton6 pton4 str size_B =
     (let nullTerminated = (if 0 < size_B then take size_B str else str) in
      case pton6 nullTerminated of
        Some b \<Rightarrow> \<lparr>m_bytes = b, m_variant = (if take 12 b = mapped_prefix then V4inV6 else V6)\<rparr>
      | None \<Rightarrow>
          (case pton4 nullTerminated of
             Some b \<Rightarrow> \<lparr>m_bytes = mapped_prefix @ b, m_variant = V4\<rparr>
           | None \<Rightarrow> IPAddress_init))"

definition isV4 :: "IPAddress \<Rightarrow> bool" where
  "isV4 a \<longleftrightarrow> m_variant a = V4"

definition isV4inV6 :: "IPAddress \<Rightarrow> bool" where
  "isV4inV6 a \<longleftrightarrow> m_variant a = V4inV6"

definition isV6 :: "IPAddress \<Rightarrow> bool" where
  "isV6 a \<longleftrightarrow> m_variant a = V4inV6 \<or> m_variant a = V6"

definition IPAddress_toString ::
  "(bytes \<Rightarrow> string option) \<Rightarrow> (bytes \<Rightarrow> string option) \<Rightarrow> IPAddress \<Rightarrow> string" where
  "IPAddress_toString ntop6 ntop4 a =
     (if m_variant a = Invalid then ''''
      else case (if isV4 a then ntop4 (take 4 (drop 12 (m_bytes a))) else ntop6 (m_bytes a)) of
        None \<Rightarrow> '''' | Some s \<Rightarrow> s)"

definition toIntegerV4 :: "IPAddress \<Rightarrow> u32" where
  "toIntegerV4 a = bigEndian32_at (drop 12 (m_bytes a))"

definition toBytesV6 :: "IPAddress \<Rightarrow> bytes" where
  "toBytesV6 a = m_bytes a"

abbreviation INADDR_LOOPBACK :: u32 where "INADDR_LOOPBACK \<equiv> 0x7F000001"
abbreviation INADDR_BROADCAST :: u32 where "INADDR_BROADCAST \<equiv> 0xFFFFFFFF"
abbreviation INADDR_ANY :: u32 where "INADDR_ANY \<equiv> 0"

definition localHostV4 :: IPAddress where "localHostV4 = IPAddress_of_integer INADDR_LOOPBACK"

definition broadcastV4 :: IPAddress where "broadcastV4 = IPAddress_of_integer INADDR_BROADCAST"

definition anyV4 :: IPAddress where "anyV4 = IPAddress_of_integer INADDR_ANY"

definition localHostV6 :: "(string \<Rightarrow> bytes option) \<Rightarrow> (string \<Rightarrow> bytes option) \<Rightarrow> IPAddress" where
  "localHostV6 pton6 pton4 = IPAddress_of_string pton6 pton4 ''::1'' 0"

definition anyV6 :: "(string \<Rightarrow> bytes option) \<Rightarrow> (string \<Rightarrow> bytes option) \<Rightarrow> IPAddress" where
  "anyV6 pton6 pton4 = IPAddress_of_string pton6 pton4 ''::'' 0"

text \<open>\<open>operator==\<close>.\<close>

definition IPAddress_eq :: "IPAddress \<Rightarrow> IPAddress \<Rightarrow> bool" where
  "IPAddress_eq a b \<longleftrightarrow> m_variant a = m_variant b \<and> m_bytes a = m_bytes b"

subsection \<open>Byte order and addresses\<close>

lemma u8_256 [simp]: "(256 :: u8) = 0"
  by (simp add: word_eq_iff_unsigned)

lemma le_encode_decode: "length bs = n \<Longrightarrow> le_encode n (le_decode bs) = bs"
  by (induction bs arbitrary: n) auto

lemma byteswap_involution: "byteswap16 (byteswap16 v) = v" "byteswap32 (byteswap32 w) = w"
proof -
  let ?b = "rev (le_encode 2 (unat v))" and ?c = "rev (le_encode 4 (unat w))"
  have "le_decode ?b < 2 ^ 16" using le_decode_less [of ?b] by simp
  then have "unat (byteswap16 v) = le_decode ?b" by (simp add: byteswap16_def unat_of_nat_small)
  then show "byteswap16 (byteswap16 v) = v"
    by (simp add: byteswap16_def [of "byteswap16 v"] le_encode_decode le_decode_encode)
  have "le_decode ?c < 2 ^ 32" using le_decode_less [of ?c] by simp
  then have "unat (byteswap32 w) = le_decode ?c" by (simp add: byteswap32_def unat_of_nat_small)
  then show "byteswap32 (byteswap32 w) = w"
    by (simp add: byteswap32_def [of "byteswap32 w"] le_encode_decode le_decode_encode)
qed

lemma byteswap64_involution: "byteswap64 (byteswap64 v) = v"
proof -
  let ?b = "rev (le_encode 8 (unat v))"
  have "le_decode ?b < 2 ^ 64" using le_decode_less [of ?b] by simp
  then have "unat (byteswap64 v) = le_decode ?b" by (simp add: byteswap64_def unat_of_nat_small)
  then show ?thesis by (simp add: byteswap64_def [of "byteswap64 v"] le_encode_decode le_decode_encode)
qed

lemma IPAddress_eq_iff [simp]: "IPAddress_eq a b \<longleftrightarrow> a = b"
  by (cases a; cases b) (auto simp: IPAddress_eq_def)

lemma drop_mapped_prefix [simp]: "drop 12 (mapped_prefix @ bs) = bs" "length mapped_prefix = 12"
  by (simp_all add: mapped_prefix_def)

lemma toIntegerV4_of_integer [simp]: "toIntegerV4 (IPAddress_of_integer v) = v"
  by (simp add: toIntegerV4_def IPAddress_of_integer_def bigEndian32_at_def le_decode_write
      bigEndian32_def byteswap_involution)

lemma le_zero [simp]: "le_encode n 0 = replicate n 0" "le_decode (replicate n 0) = 0"
  by (induction n) auto

lemma toIntegerV4_init [simp]: "toIntegerV4 IPAddress_init = 0"
  by (simp add: toIntegerV4_def IPAddress_init_def bigEndian32_at_def bigEndian32_def byteswap32_def)

lemma unat_of_le_decode: "length bs = 4 \<Longrightarrow> unat (of_nat (le_decode bs) :: u32) = le_decode bs"
  using le_decode_less [of bs] by (intro unat_of_nat_small) simp

lemma write_bigEndian32: "length bs = 4 \<Longrightarrow> write_u32 (bigEndian32 (of_nat (le_decode bs))) = rev bs"
  by (simp add: write_u32_def bigEndian32_def byteswap32_def unat_of_le_decode le_encode_decode)

lemma IPAddress_of_integer_inject: "IPAddress_of_integer v = IPAddress_of_integer w \<longleftrightarrow> v = w"
  using toIntegerV4_of_integer by metis

text \<open>The three ways to build an IPv4 address agree and \<open>toIntegerV4\<close> undoes them: the integer comes
  back unchanged, two integers give equal addresses only when they are equal, and four bytes give the
  address of the integer that has them from the most to the least significant one.\<close>

lemma IPAddress_integer_roundtrip:
  "toIntegerV4 (IPAddress_of_integer v) = v
   \<and> (IPAddress_of_integer v = IPAddress_of_integer w \<longleftrightarrow> v = w)
   \<and> IPAddress_of_bytes b0 b1 b2 b3 = IPAddress_of_integer
       (of_nat (unat b0 * 2 ^ 24 + unat b1 * 2 ^ 16 + unat b2 * 2 ^ 8 + unat b3))"
proof -
  have "unat b0 * 2 ^ 24 + unat b1 * 2 ^ 16 + unat b2 * 2 ^ 8 + unat b3 = le_decode [b3, b2, b1, b0]" by simp
  moreover have "IPAddress_of_bytes b0 b1 b2 b3 = IPAddress_of_integer (of_nat (le_decode [b3, b2, b1, b0]))"
    unfolding IPAddress_of_bytes_def IPAddress_of_integer_def by (subst write_bigEndian32) simp_all
  ultimately show ?thesis by (metis toIntegerV4_of_integer)
qed

subsection \<open>Strings\<close>

definition address_ok :: "IPAddress \<Rightarrow> bool" where
  "address_ok a \<longleftrightarrow> length (m_bytes a) = 16 \<and> m_variant a \<noteq> Invalid
     \<and> (m_variant a \<noteq> V6 \<longleftrightarrow> take 12 (m_bytes a) = mapped_prefix)"

lemma address_ok_integer: "address_ok (IPAddress_of_integer v)"
  by (simp add: address_ok_def IPAddress_of_integer_def write_u32_def)

text \<open>
  C31. Printing and parsing: for every address that a constructor builds, IPv4, IPv4-mapped or IPv6,
  the address parsed from \<open>toString\<close> is the address itself, its variant included. This rests on
  \<open>inet_pton\<close> reading back what \<open>inet_ntop\<close> prints, and on the dotted form of an IPv4 address not
  being an IPv6 address.
\<close>

theorem IPAddress_string_roundtrip:
  assumes "\<forall>b. length b = 4 \<longrightarrow> (\<exists>s. ntop4 b = Some s \<and> pton4 s = Some b \<and> pton6 s = None)"
    and "\<forall>b. length b = 16 \<longrightarrow> (\<exists>s. ntop6 b = Some s \<and> pton6 s = Some b)"
    and "address_ok a"
  shows "IPAddress_of_string pton6 pton4 (IPAddress_toString ntop6 ntop4 a) 0 = a"
proof (cases "m_variant a = V4")
  case True
  have "length (take 4 (drop 12 (m_bytes a))) = 4" using assms(3) by (simp add: address_ok_def)
  then obtain s where s: "ntop4 (take 4 (drop 12 (m_bytes a))) = Some s"
    "pton4 s = Some (take 4 (drop 12 (m_bytes a)))" "pton6 s = None"
    using assms(1) by blast
  have "take 12 (m_bytes a) = mapped_prefix" "drop 12 (m_bytes a) = take 4 (drop 12 (m_bytes a))"
    using assms(3) True by (auto simp: address_ok_def)
  then have "mapped_prefix @ take 4 (drop 12 (m_bytes a)) = m_bytes a" by (metis append_take_drop_id)
  then show ?thesis using s True by (simp add: IPAddress_of_string_def IPAddress_toString_def isV4_def)
next
  case False
  obtain s where "ntop6 (m_bytes a) = Some s" "pton6 s = Some (m_bytes a)"
    using assms(2,3) by (auto simp: address_ok_def)
  moreover have "m_variant a = (if take 12 (m_bytes a) = mapped_prefix then V4inV6 else V6)"
    using assms(3) False by (cases "m_variant a") (auto simp: address_ok_def)
  ultimately show ?thesis using assms(3)
    by (simp add: IPAddress_of_string_def IPAddress_toString_def isV4_def address_ok_def split: if_splits)
qed

definition example_ntop :: "char \<Rightarrow> bytes \<Rightarrow> string option" where
  "example_ntop tag b = Some (tag # map (\<lambda>x. char_of (unat x)) b)"

definition example_pton :: "char \<Rightarrow> nat \<Rightarrow> string \<Rightarrow> bytes option" where
  "example_pton tag n s = (case s of [] \<Rightarrow> None
     | c # cs \<Rightarrow> if c = tag \<and> length cs = n then Some (map (\<lambda>c. of_nat (of_char c)) cs) else None)"

lemma example_pton_ntop: "length b = n \<Longrightarrow> example_ntop tag b = Some s \<Longrightarrow> example_pton tag n s = Some b"
proof -
  have "of_nat (of_char (char_of (unat x) :: char)) = (x :: u8)" for x
    by (simp add: unat_u8_less)
  then show "length b = n \<Longrightarrow> example_ntop tag b = Some s \<Longrightarrow> example_pton tag n s = Some b"
    by (auto simp: example_ntop_def example_pton_def map_idI)
qed

theorem IPAddress_string_roundtrip_witness:
  "IPAddress_of_string (example_pton CHR ''6'' 16) (example_pton CHR ''4'' 4)
     (IPAddress_toString (example_ntop CHR ''6'') (example_ntop CHR ''4'') (IPAddress_of_integer 0x7F000001)) 0
   = IPAddress_of_integer 0x7F000001"
proof (rule IPAddress_string_roundtrip)
  show "\<forall>b. length b = 4 \<longrightarrow> (\<exists>s. example_ntop CHR ''4'' b = Some s \<and> example_pton CHR ''4'' 4 s = Some b
      \<and> example_pton CHR ''6'' 16 s = None)"
    by (auto simp: example_pton_ntop example_ntop_def) (auto simp: example_pton_def)
  show "\<forall>b. length b = 16 \<longrightarrow> (\<exists>s. example_ntop CHR ''6'' b = Some s \<and> example_pton CHR ''6'' 16 s = Some b)"
    using example_pton_ntop by (metis example_ntop_def)
qed (rule address_ok_integer)

text \<open>
  C30. The class invariant of \<open>IPAddress\<close>: whatever a constructor makes is either the invalid address, sixteen
  zero bytes, or sixteen bytes whose variant agrees with them, IPv4 and IPv4-mapped exactly when they
  start with the mapped prefix. A string gives the invalid address exactly when it is neither an IPv6 nor
  an IPv4 address. This rests on \<open>inet_pton\<close> writing sixteen bytes for the one and four for the other.
\<close>

theorem IPAddress_typed:
  assumes "\<forall>s b. pton6 s = Some b \<longrightarrow> length b = 16" "\<forall>s b. pton4 s = Some b \<longrightarrow> length b = 4"
    and "a \<in> {IPAddress_init, IPAddress_of_integer v, IPAddress_of_bytes b0 b1 b2 b3, IPAddress_of_string pton6 pton4 str n}"
  shows "(a = IPAddress_init \<or> address_ok a) \<and> length (toBytesV6 a) = 16
    \<and> (m_variant (IPAddress_of_string pton6 pton4 str 0) = Invalid \<longleftrightarrow> pton6 str = None \<and> pton4 str = None)"
proof -
  have "IPAddress_of_string pton6 pton4 str n = IPAddress_init \<or> address_ok (IPAddress_of_string pton6 pton4 str n)"
    using assms(1,2) by (auto simp: IPAddress_of_string_def address_ok_def Let_def split: option.splits)
  moreover have "address_ok (IPAddress_of_bytes b0 b1 b2 b3)" by (simp add: address_ok_def IPAddress_of_bytes_def)
  ultimately have ok: "a = IPAddress_init \<or> address_ok a" using assms(3) address_ok_integer by auto
  moreover have "length (toBytesV6 a) = 16" using ok by (auto simp: toBytesV6_def address_ok_def IPAddress_init_def)
  ultimately show ?thesis by (auto simp: IPAddress_of_string_def IPAddress_init_def Let_def split: option.splits)
qed

theorem IPAddress_typed_witness:
  "address_ok (IPAddress_of_string (example_pton CHR ''6'' 16) (example_pton CHR ''4'' 4) ''4abcd'' 0)"
proof -
  let ?a = "IPAddress_of_string (example_pton CHR ''6'' 16) (example_pton CHR ''4'' 4) ''4abcd'' 0"
  have len: "\<forall>s b. example_pton t k s = Some b \<longrightarrow> length b = k" for t k
    by (auto simp: example_pton_def split: list.splits if_splits)
  have "?a = IPAddress_init \<or> address_ok ?a"
    by (rule conjunct1 [OF IPAddress_typed [OF len [of "CHR ''6''" 16] len [of "CHR ''4''" 4], where str = "''4abcd''" and n = 0]]) simp
  moreover have "?a \<noteq> IPAddress_init"
    by (simp add: IPAddress_of_string_def IPAddress_init_def example_pton_def)
  ultimately show ?thesis by simp
qed

end
