(* ===== verification/Udsp_Socket.thy ===== *)
theory Udsp_Socket
  imports Udsp_Control Udsp_Address
begin

text \<open>
  The socket: \<open>UDSPSocket::Impl\<close> and the class \<open>UDSPSocket\<close> of \<open>Impl.cpp\<close>, the loop of the worker
  thread and \<open>onUdpReceived\<close> of \<open>Connection.cpp\<close>. A connection is an entry of the association list
  \<open>i_connections\<close> in the iteration order of the map; its key is also what the application's pointer
  to it stands for. Clock readings, the random connection identifier and the answers of the operating
  system are arguments. A callback is an effect; what it queues or sets in turn are steps of their own.
\<close>

subsection \<open>Data\<close>

record Impl =
  i_connections :: "(u64 \<times> Connection) list"
  i_onConnected :: bool
  i_onDisconnected :: bool
  i_rxPacketBufferSizeThreshold_B :: u32
  i_spent_us :: tick
  i_TPS :: u32
  i_localPort :: u16
  i_isRunning :: bool
  i_isServer :: bool
  i_isTestBandwidthEnabled :: bool

definition Impl_init :: Impl where
  "Impl_init = \<lparr>i_connections = [], i_onConnected = False, i_onDisconnected = False,
     i_rxPacketBufferSizeThreshold_B = 0x100000, i_spent_us = 0, i_TPS = 0, i_localPort = 0,
     i_isRunning = True, i_isServer = False, i_isTestBandwidthEnabled = False\<rparr>"

definition put_connection :: "u64 \<Rightarrow> Connection \<Rightarrow> Impl \<Rightarrow> Impl" where
  "put_connection key c i = i\<lparr>i_connections := AList.update key c (i_connections i)\<rparr>"

definition notify_disconnected :: "bool \<Rightarrow> u64 \<Rightarrow> char \<Rightarrow> effect list" where
  "notify_disconnected onDisconnected key reason =
     (if onDisconnected then [OnDisconnected key reason] else [])"

subsection \<open>Connecting and listening\<close>

definition clientConnection :: "Impl \<Rightarrow> (u64 \<times> Connection) option" where
  "clientConnection i = (case i_connections i of [] \<Rightarrow> None | kc # _ \<Rightarrow> Some kc)"

definition serverConnection :: "u64 \<Rightarrow> Impl \<Rightarrow> Connection" where
  "serverConnection connectionId i =
     (case map_of (i_connections i) connectionId of Some c \<Rightarrow> c | None \<Rightarrow> Connection_init)"

definition initConnection :: "u16 \<Rightarrow> u32 \<Rightarrow> Connection \<Rightarrow> Connection" where
  "initConnection port IPv4 c = partialReset (c\<lparr>c_port := port, c_IPv4 := IPv4\<rparr>)"

text \<open>\<open>dontFragment\<close> is the answer of \<open>setIpDontFragment\<close>, \<open>newId\<close> what the random generator gives.\<close>

definition impl_connect :: "bool \<Rightarrow> u64 \<Rightarrow> u16 \<Rightarrow> u32 \<Rightarrow> Impl \<Rightarrow> bool \<times> Impl \<times> effect list" where
  "impl_connect dontFragment newId port IPv4 i =
     (if \<not> dontFragment then (False, i, [])
      else let i = i\<lparr>i_localPort := 0, i_isServer := False\<rparr>;
               i = (if i_connections i = [] then i\<lparr>i_connections := [(0, Connection_init)]\<rparr> else i);
               (key, c) = hd (i_connections i) in
        if c_connectionId c = 0
        then (True, put_connection key (initConnection port IPv4 (c\<lparr>c_connectionId := newId\<rparr>)) i, [])
        else if c_port c \<noteq> port \<or> c_IPv4 c \<noteq> IPv4
        then (let (c, evs) = conn_onDisconnected c
              in (True, put_connection key (initConnection port IPv4 (c\<lparr>c_connectionId := newId\<rparr>)) i, map App evs))
        else (True, i, []))"

definition impl_isConnected :: "Impl \<Rightarrow> bool" where
  "impl_isConnected i =
     (if i_isServer i then False
      else case clientConnection i of None \<Rightarrow> False | Some (_, c) \<Rightarrow> conn_isConnected c)"

definition impl_disconnect :: "Impl \<Rightarrow> bool \<times> Impl" where
  "impl_disconnect i =
     (if \<not> impl_isConnected i then (False, i)
      else (True, case clientConnection i of None \<Rightarrow> i
                  | Some (key, c) \<Rightarrow> put_connection key (c\<lparr>c_isDisconnectRequested := True\<rparr>) i))"

definition impl_listen :: "bool \<Rightarrow> bool \<Rightarrow> u16 \<Rightarrow> Impl \<Rightarrow> bool \<times> Impl \<times> effect list" where
  "impl_listen bound dontFragment localPort i =
     (if \<not> bound \<or> \<not> dontFragment then (False, i, [])
      else let (i, evs) = (if \<not> i_isServer i \<and> i_connections i \<noteq> []
               then (i\<lparr>i_connections := []\<rparr>, snd (conn_onDisconnected (snd (hd (i_connections i)))))
               else (i, []))
           in (True, i\<lparr>i_localPort := localPort, i_isServer := True\<rparr>, map App evs))"

definition stop_connection :: "bool \<Rightarrow> u64 \<Rightarrow> Connection \<Rightarrow> Connection \<times> effect list" where
  "stop_connection onDisconnected key c =
     (if \<not> conn_isConnected c then (c, [])
      else let c = writeDisconnect (c\<lparr>c_lastPacketTick_us := INT64_MAX\<rparr>); (c', evs) = conn_onDisconnected c
           in (c', send_txBuffer c # map App evs @ notify_disconnected onDisconnected key CHR ''i''))"

definition impl_stop :: "Impl \<Rightarrow> Impl \<times> effect list" where
  "impl_stop i =
     (i\<lparr>i_isRunning := False, i_connections :=
          map (\<lambda>(key, c). (key, fst (stop_connection (i_onDisconnected i) key c))) (i_connections i)\<rparr>,
      concat (map (\<lambda>(key, c). snd (stop_connection (i_onDisconnected i) key c)) (i_connections i)))"

subsection \<open>The worker thread\<close>

text \<open>One connection of \<open>process_ts\<close>; \<open>None\<close> when it is erased from the map.\<close>

definition process_ts_connection ::
  "tick \<Rightarrow> bool \<Rightarrow> bool \<Rightarrow> u64 \<Rightarrow> Connection \<Rightarrow> Connection option \<times> effect list" where
  "process_ts_connection now_us isServer onDisconnected key c =
     (let c = doCommands c in
      if c_isDisconnectRequested c then
        (let c = writeDisconnect c; evs = snd (conn_onDisconnected c)
         in (None, send_txBuffer c # map App evs @ notify_disconnected onDisconnected key CHR ''c''))
      else if c_nextEraseTick_us c = INT64_MAX then
        (if c_lastPacketTick_us c \<le> now_us - g_connectionTimeout_us
         then (let (c, evs) = conn_onDisconnected
                     (c\<lparr>c_nextEraseTick_us := now_us + 2000000, c_lastPacketTick_us := INT64_MAX\<rparr>)
               in (Some c, map App evs @ notify_disconnected onDisconnected key CHR ''t''))
         else (Some c, []))
      else if c_nextEraseTick_us c \<le> now_us then
        (if isServer then (None, [])
         else (Some ((partialReset c)\<lparr>c_nextEraseTick_us := INT64_MAX, c_lastPacketTick_us := INT64_MAX\<rparr>), []))
      else (Some c, []))"

definition process_ts :: "tick \<Rightarrow> Impl \<Rightarrow> Impl \<times> effect list" where
  "process_ts now_us i =
     (let run = (\<lambda>(key, c). process_ts_connection now_us (i_isServer i) (i_onDisconnected i) key c)
      in (i\<lparr>i_connections := List.map_filter (\<lambda>(key, c). map_option (Pair key) (fst (run (key, c))))
              (i_connections i)\<rparr>,
          concat (map (\<lambda>kc. snd (run kc)) (i_connections i))))"

text \<open>The clock readings for one connection: at the start, by the packets that pacing writes, by the
  keep-alive packet, and at the end.\<close>

record Clocks =
  k_now :: tick
  k_pace :: "nat \<Rightarrow> tick"
  k_keepAlive :: tick
  k_end :: tick

definition process_connection ::
  "Clocks \<Rightarrow> bool \<Rightarrow> Connection \<Rightarrow> (Connection \<times> effect list \<times> bool) option" where
  "process_connection k isTestBandwidthEnabled c = do {
     (c, outs, second) \<leftarrow>
       (if c_lastPacketTick_us c \<noteq> INT64_MAX
        then processConnection (k_pace k) isTestBandwidthEnabled (k_now k) c else Some (c, [], False));
     (c, outs') \<leftarrow> keep_alive (k_keepAlive k) (k_now k) c;
     Some (c, outs @ outs', second)
   }"

text \<open>The loop over the connections, with \<open>TPS\<close> and \<open>spent_us\<close>.\<close>

primrec process_connections ::
  "(u64 \<Rightarrow> Clocks) \<Rightarrow> (u64 \<times> Connection) list \<Rightarrow> Impl \<Rightarrow> (Impl \<times> effect list) option" where
  "process_connections clocks [] i = Some (i, [])"
| "process_connections clocks (kc # kcs) i =
     (case kc of (key, c) \<Rightarrow> do {
        (c, outs, second) \<leftarrow> process_connection (clocks key) (i_isTestBandwidthEnabled i) c;
        let i = put_connection key c i;
        let i = (if second then i\<lparr>i_TPS := 0, i_spent_us := 0\<rparr> else i);
        let i = i\<lparr>i_spent_us := i_spent_us i + (k_end (clocks key) - k_now (clocks key))\<rparr>;
        (i, outs') \<leftarrow> process_connections clocks kcs i;
        Some (i, outs @ outs')
      })"

definition process_all :: "(u64 \<Rightarrow> Clocks) \<Rightarrow> Impl \<Rightarrow> (Impl \<times> effect list) option" where
  "process_all clocks i = process_connections clocks (i_connections i) i"

subsection \<open>onUdpReceived\<close>

definition receive_disconnect :: "tick \<Rightarrow> u64 \<Rightarrow> Impl \<Rightarrow> Impl \<times> effect list" where
  "receive_disconnect now_us connectionId i =
     (case map_of (i_connections i) connectionId of
        None \<Rightarrow> (i, [])
      | Some c \<Rightarrow>
          if c_nextEraseTick_us c \<noteq> INT64_MAX then (i, [])
          else let (c, evs) = conn_onDisconnected ((partialReset c)\<lparr>
                       c_nextEraseTick_us := now_us + 2000000, c_lastPacketTick_us := INT64_MAX\<rparr>)
               in (put_connection connectionId c i,
                   map App evs @ notify_disconnected (i_onDisconnected i) connectionId CHR ''c''))"

text \<open>The connection a data packet or a probe is for; \<open>None\<close> when a client has none.\<close>

definition select_connection :: "u64 \<Rightarrow> u16 \<Rightarrow> u32 \<Rightarrow> Impl \<Rightarrow> (u64 \<times> Connection) option" where
  "select_connection connectionId port IPv4 i =
     (if i_isServer i
      then (let c = serverConnection connectionId i
            in Some (connectionId, if c_IPv4 c = 0 then initConnection port IPv4 (c\<lparr>c_connectionId := connectionId\<rparr>) else c))
      else clientConnection i)"

definition receive_selected ::
  "tick \<Rightarrow> tick \<Rightarrow> PacketHeader \<Rightarrow> bytes \<Rightarrow> u32 \<Rightarrow> u16 \<Rightarrow> u32 \<Rightarrow> Impl \<Rightarrow> (Impl \<times> effect list) option" where
  "receive_selected clock now_us h data size_B port IPv4 i =
     (case select_connection (h_connectionId h) port IPv4 i of
        None \<Rightarrow> Some (i, [])
      | Some (key, c) \<Rightarrow>
          map_option (\<lambda>(c, outs). (put_connection key c i, outs))
            (receive_datagram clock now_us (i_onConnected i) (i_rxPacketBufferSizeThreshold_B i) key h data size_B c))"

definition onUdpReceived ::
  "tick \<Rightarrow> tick \<Rightarrow> bytes \<Rightarrow> u32 \<Rightarrow> u16 \<Rightarrow> u32 \<Rightarrow> Impl \<Rightarrow> (Impl \<times> effect list) option" where
  "onUdpReceived clock now_us data size_B port IPv4 i =
     (if unat size_B < sizeof_PacketHeader then Some (i, [])
      else case read_header data of None \<Rightarrow> None | Some (h, _) \<Rightarrow>
        if h_packetId h = PacketId_Disconnect then Some (receive_disconnect now_us (h_connectionId h) i)
        else if h_packetId h = PacketId_TypeA \<or> h_packetId h = PacketId_PMTUProbe then
          (case map_of (i_connections i) (h_connectionId h) of
             Some c \<Rightarrow>
               if c_nextEraseTick_us c \<noteq> INT64_MAX then Some (i, [])
               else receive_selected clock now_us h data size_B port IPv4 i
           | None \<Rightarrow> receive_selected clock now_us h data size_B port IPv4 i)
        else Some (i, []))"

text \<open>The datagrams one call of \<open>udpSocket.process\<close> delivers, each with the two clock readings of
  \<open>onUdpReceived\<close>.\<close>

primrec receive_all ::
  "((tick \<times> tick) \<times> bytes \<times> u32 \<times> u16 \<times> u32) list \<Rightarrow> Impl \<Rightarrow> (Impl \<times> effect list) option" where
  "receive_all [] i = Some (i, [])"
| "receive_all (d # ds) i =
     (case d of ((clock, now_us), data, size_B, port, IPv4) \<Rightarrow> do {
        (i, outs) \<leftarrow> onUdpReceived clock now_us data size_B port IPv4 i;
        (i, outs') \<leftarrow> receive_all ds i;
        Some (i, outs @ outs')
      })"

text \<open>One round of the worker thread's loop.\<close>

definition process_round ::
  "((tick \<times> tick) \<times> bytes \<times> u32 \<times> u16 \<times> u32) list \<Rightarrow> tick \<Rightarrow> (u64 \<Rightarrow> Clocks) \<Rightarrow> Impl
   \<Rightarrow> (Impl \<times> effect list) option" where
  "process_round ds now_us clocks i = do {
     let i = i\<lparr>i_TPS := i_TPS i + 1\<rparr>;
     (i, outs1) \<leftarrow> receive_all ds i;
     let (i, outs2) = process_ts now_us i;
     (i, outs3) \<leftarrow> process_all clocks i;
     Some (i, outs1 @ outs2 @ outs3)
   }"

subsection \<open>The class UDSPSocket\<close>

definition socket_connect :: "bool \<Rightarrow> u64 \<Rightarrow> u16 \<Rightarrow> IPAddress \<Rightarrow> Impl \<Rightarrow> bool \<times> Impl \<times> effect list" where
  "socket_connect dontFragment newId port address i =
     (if \<not> isV4 address then (False, i, [])
      else impl_connect dontFragment newId port (toIntegerV4 address) i)"

definition setOnConnected :: "bool \<Rightarrow> Impl \<Rightarrow> Impl" where
  "setOnConnected onConnected i = i\<lparr>i_onConnected := onConnected\<rparr>"

definition setOnDisconnected :: "bool \<Rightarrow> Impl \<Rightarrow> Impl" where
  "setOnDisconnected onDisconnected i = i\<lparr>i_onDisconnected := onDisconnected\<rparr>"

definition setRxPacketBufferSizeThreshold_B :: "u32 \<Rightarrow> Impl \<Rightarrow> Impl" where
  "setRxPacketBufferSizeThreshold_B threshold_B i = i\<lparr>i_rxPacketBufferSizeThreshold_B := threshold_B\<rparr>"

definition setTestBandwidthState :: "bool \<Rightarrow> Impl \<Rightarrow> Impl" where
  "setTestBandwidthState isEnabled i = i\<lparr>i_isTestBandwidthEnabled := isEnabled\<rparr>"

definition getPeerAddress :: "Connection \<Rightarrow> IPAddress" where
  "getPeerAddress c = IPAddress_of_integer (c_IPv4 c)"

definition getPeerPort :: "Connection \<Rightarrow> u16" where
  "getPeerPort c = c_port c"

text \<open>The accessors of a connection; \<open>None\<close> is the null pointer.\<close>

definition setTxSpeedLimit_B_s :: "u32 \<Rightarrow> Connection option \<Rightarrow> Connection option" where
  "setTxSpeedLimit_B_s limit_B_s c = map_option (\<lambda>c.
     c\<lparr>c_traffic := (c_traffic c)\<lparr>t_desiredTxLimit_B_s := limit_B_s\<rparr>\<rparr>) c"

definition getTxSpeedLimit_B_s :: "Connection option \<Rightarrow> u32" where
  "getTxSpeedLimit_B_s c = (case c of None \<Rightarrow> 0 | Some c \<Rightarrow> t_desiredTxLimit_B_s (c_traffic c))"

definition getRxSpeed_B_s :: "Connection option \<Rightarrow> u32" where
  "getRxSpeed_B_s c = (case c of None \<Rightarrow> 0 | Some c \<Rightarrow> n_rxSpeed_B_s (c_cnt c))"

definition getTxSpeed_B_s :: "Connection option \<Rightarrow> u32" where
  "getTxSpeed_B_s c = (case c of None \<Rightarrow> 0 | Some c \<Rightarrow> n_txSpeed_B_s (c_cnt c))"

definition getRxLoss_prc :: "Connection option \<Rightarrow> rat" where
  "getRxLoss_prc c = (case c of None \<Rightarrow> 0 | Some c \<Rightarrow> n_rxPacketsLoss_prc (c_cnt c))"

definition getTxLoss_prc :: "Connection option \<Rightarrow> rat" where
  "getTxLoss_prc c = (case c of None \<Rightarrow> 0 | Some c \<Rightarrow> n_txPacketsLoss_prc (c_cnt c))"

definition getRTT_us :: "Connection option \<Rightarrow> u32" where
  "getRTT_us c = (case c of None \<Rightarrow> 0 | Some c \<Rightarrow> t_RTT_us (c_traffic c))"

end
