(* ===== verification/Udsp_Keep.thy ===== *)
theory Udsp_Keep
  imports Udsp_Control
begin

text \<open>
  The stream invariants under hostile input: every operation that returns, whatever the datagrams it
  read and whatever offsets a peer made it take, keeps the invariants of all streams. On top of them,
  the invariant of a whole connection, \<open>conn_good\<close>, under everything that the worker thread does with
  a connection, together with what becomes of the fields that decide its life, \<open>life\<close>.
\<close>

subsection \<open>Writing\<close>

definition kept :: "TxStream \<Rightarrow> TxStream \<Rightarrow> bool" where
  "kept s s' \<longleftrightarrow> ts_id s' = ts_id s \<and> ts_isNew s' = ts_isNew s \<and> ts_priority s' = ts_priority s \<and> tx_ok s'"

lemma kept_put: "txs_ok t \<Longrightarrow> map_of (txs_map t) k = Some s \<Longrightarrow> kept s s' \<Longrightarrow> txs_ok (put_tx_stream k s' t)"
  by (auto simp: kept_def intro: txs_ok_replace)

lemma kept_processTxFifo: "kept s s1 \<Longrightarrow> kept s (fst (processTxFifo d now s1))"
  using tx_ok_processTxFifo [of s1 d now] processTxFifo_frame [of d now s1] by (simp add: kept_def)

lemma kept_set_packet:
  "kept s s1 \<Longrightarrow> tp_id p = tp_id (ts_fifo s1 ! i) \<Longrightarrow> tp_pointer p = tp_pointer (ts_fifo s1 ! i) \<Longrightarrow>
   tp_size_B p = tp_size_B (ts_fifo s1 ! i) \<Longrightarrow> kept s (set_packet i p s1)"
  by (simp add: kept_def tx_ok_set_packet)

lemma kept_refl: "tx_ok s \<Longrightarrow> kept s s"
  by (simp add: kept_def)

lemma sent_small_kept: "tx_ok s \<Longrightarrow> sent_small d now m s = Some (s', evs) \<Longrightarrow> kept s s'"
  by (auto simp: sent_small_def Let_def case_prod_beta split: if_splits intro!: kept_set_packet kept_processTxFifo kept_refl)

lemma sent_piece_kept: "tx_ok s \<Longrightarrow> kept s (fst (sent_piece d now m n s))"
  by (auto simp: sent_piece_def Let_def intro!: kept_set_packet kept_processTxFifo kept_refl)

lemma write_selected_kept:
  assumes "txs_ok t" "map_of (txs_map t) k = Some s"
    "write_selected d now m a priority k s t = Some (w, bs, t', evs)"
  shows "txs_ok t'"
proof -
  have s: "tx_ok s" using txs_ok_lookup [OF assms(1,2)] by simp
  have small: "txs_ok t'" if "write_small d now m priority k s t = Some (w, bs, t', evs)"
    using that kept_put [OF assms(1,2) sent_small_kept [OF s]] assms(1)
    by (auto simp: write_small_def Let_def case_prod_beta split: if_splits option.splits)
  have first: "txs_ok t'" if "write_begin now priority k s t = Some (w, bs, t', evs)"
    using that kept_put [OF assms(1,2)] kept_set_packet [OF kept_refl [OF s]]
    by (auto simp: write_begin_def Let_def)
  have piece: "txs_ok t'" if "write_piece d now m a priority k s t = Some (w, bs, t', evs)"
    using that kept_put [OF assms(1,2) sent_piece_kept [OF s]] assms(1)
    by (auto simp: write_piece_def Let_def case_prod_beta split: if_splits option.splits)
  show ?thesis
    using assms(1,3) small first piece by (auto simp: write_selected_def Let_def split: if_splits)
qed

lemma data_chunk_kept:
  assumes "txs_ok t" "data_chunk d now R m a t = Some (w, bs, t', evs)"
  shows "txs_ok t'"
proof (cases "unat a \<le> g_chunkHeader_B")
  case True
  then show ?thesis using assms by (simp add: data_chunk_def)
next
  case False
  have "scan_inv (update_streams t)" using assms(1) by (simp add: scan_inv_def tx_inv_intros)
  then obtain sel t1 e1 where scan: "scan_priorities all_priorities d now R m (update_streams t)
      = Some (sel, t1, e1)" "scan_frame (set all_priorities) (update_streams t) t1"
    using scan_priorities_spec [of "update_streams t" all_priorities] by fastforce
  then have t1: "txs_ok t1" by (simp add: scan_frame_def scan_inv_def)
  show ?thesis
    using assms(2) False scan(1) t1 write_selected_kept [of "next_vecIdx _ t1"]
    by (auto simp: data_chunk_def simp del: scan_priorities.simps split: if_splits option.splits)
qed

lemma writers_kept:
  "conn_ok c \<Longrightarrow> writeMetaChunk now a c = Some (w, bs, c', evs) \<Longrightarrow> conn_ok c'"
  "conn_ok c \<Longrightarrow> writeDataChunk now a c = Some (w, bs, c', evs) \<Longrightarrow> conn_ok c'"
proof -
  show "conn_ok c'" if "conn_ok c" "writeMetaChunk now a c = Some (w, bs, c', evs)"
    using that meta_chunk_spec [of "c_rxStreams c" "c_onReceived c" now "n_txPacketsCount (c_cnt c)" a]
    by (auto simp: writeMetaChunk_def conn_ok_def)
  show "conn_ok c'" if "conn_ok c" "writeDataChunk now a c = Some (w, bs, c', evs)"
    using that data_chunk_kept by (auto simp: writeDataChunk_def conn_ok_def)
qed

lemma fill_kept:
  assumes wr: "\<And>a c w bs c' evs. P c \<Longrightarrow> wr a c = Some (w, bs, c', evs) \<Longrightarrow> P c'"
    and "P c" "fill wr n c = Some (bs, c', evs)"
  shows "P c'"
  using assms(2,3)
proof (induction n arbitrary: c bs c' evs rule: less_induct)
  case (less n)
  show ?case
  proof (cases "n = 0 \<or> wr (of_nat n) c = None")
    case True
    then show ?thesis using less.prems by (auto simp: fill.simps [of wr n] split: if_splits)
  next
    case False
    then obtain w b c1 e where w: "wr (of_nat n) c = Some (w, b, c1, e)" by (metis option.exhaust prod_cases4)
    show ?thesis
    proof (cases "w = 0")
      case True
      then show ?thesis using less.prems w False wr [OF _ w] by (simp add: fill.simps [of wr n])
    next
      case w0: False
      then obtain b2 c2 e2 where "fill wr (n - w) c1 = Some (b2, c2, e2)" "c' = c2"
        using less.prems w False by (auto simp: fill.simps [of wr n] split: if_splits)
      moreover have "n - w < n" using w0 False by simp
      ultimately show ?thesis using less.IH wr [OF less.prems(1) w] by metis
    qed
  qed
qed

lemma conn_ok_simps [simp]:
  "conn_ok (nextDatagram c) = conn_ok c" "conn_ok (store_header now b c) = conn_ok c"
  "conn_ok (set_txPacketsCount k c) = conn_ok c" "conn_ok (c\<lparr>c_txBuffer := b\<rparr>) = conn_ok c"
  "conn_ok (c\<lparr>c_cnt := cnt\<rparr>) = conn_ok c" "conn_ok (c\<lparr>c_pmtu := pm\<rparr>) = conn_ok c"
  "conn_ok (c\<lparr>c_rtt := q\<rparr>) = conn_ok c" "conn_ok (c\<lparr>c_traffic := tr\<rparr>) = conn_ok c"
  "conn_ok (c\<lparr>c_prevTick_us := x\<rparr>) = conn_ok c" "conn_ok (c\<lparr>c_lastPacketTick_us := x\<rparr>) = conn_ok c"
  "conn_ok (c\<lparr>c_nextKeepAliveTick_us := x\<rparr>) = conn_ok c" "conn_ok (c\<lparr>c_next1Hz_us := x\<rparr>) = conn_ok c"
  "conn_ok (c\<lparr>c_nextEraseTick_us := x\<rparr>) = conn_ok c" "conn_ok (c\<lparr>c_connectionId := i\<rparr>) = conn_ok c"
  "conn_ok (c\<lparr>c_port := p\<rparr>) = conn_ok c" "conn_ok (c\<lparr>c_IPv4 := a\<rparr>) = conn_ok c"
  "conn_ok (c\<lparr>c_isDisconnectRequested := f\<rparr>) = conn_ok c" "conn_ok (c\<lparr>c_commands := cs\<rparr>) = conn_ok c"
  "conn_ok (partialReset c) = conn_ok c"
  by (simp_all add: conn_ok_def nextDatagram_def set_txPacketsCount_def store_header_def start_rtt_request_def
      partialReset_def Let_def)

lemma writePacket_kept:
  assumes "conn_ok c" "writePacket now test force c = Some (sent, c', evs)"
  shows "conn_ok c'"
proof -
  define n where "n = unat (pm_PMTU_B (c_pmtu c)) - sizeof_PacketHeader"
  obtain meta c1 e1 data c2 e2 where f: "fill (writeMetaChunk now) n (nextDatagram c) = Some (meta, c1, e1)"
      "fill (writeDataChunk now) (n - length meta) c1 = Some (data, c2, e2)"
    using assms(2) by (auto simp: writePacket_def Let_def n_def split: if_splits Option.bind_splits)
  have "conn_ok c1" using fill_kept [of conn_ok, OF writers_kept(1) _ f(1)] assms(1) by simp
  then have "conn_ok c2" using fill_kept [of conn_ok, OF writers_kept(2) _ f(2)] by simp
  with assms(2) f show ?thesis by (auto simp: writePacket_def Let_def n_def split: if_splits)
qed


subsection \<open>Reading\<close>

text \<open>A handler made total: where it has no result it leaves the streams alone.\<close>

definition tolerant ::
  "(nat \<Rightarrow> RxStream \<Rightarrow> RxStreams \<Rightarrow> (RxStreams \<times> event list) option)
   \<Rightarrow> nat \<Rightarrow> RxStream \<Rightarrow> RxStreams \<Rightarrow> (RxStreams \<times> event list) option" where
  "tolerant use i s r = (case use i s r of None \<Rightarrow> Some (r, []) | Some x \<Rightarrow> Some x)"

lemma rx_chunk_tolerant:
  "rx_chunk now R k packetId front old use r = Some x \<Longrightarrow> rx_chunk now R k packetId front old (tolerant use) r = Some x"
  by (auto simp: rx_chunk_def tolerant_def Let_def case_prod_beta split: if_splits)

lemma use_piece_kept:
  assumes r: "rxs_ok r" and s: "rx_ok s" "rs_id s = k" "i < length (rs_fifo s)"
    and u: "use_piece f now k packetId rel offset_B pieceSize_B data i s r = Some (r', evs)"
  shows "rxs_ok r'"
proof -
  define p where "p = rs_fifo s ! i"
  let ?till = "offset_B + ucast pieceSize_B"
  have p: "rx_packet_ok p" "rp_id p = rp_id (rs_fifo s ! i)"
    using s by (simp_all add: p_def rx_ok_def list_all_length)
  have leave: "rxs_ok (put_rx_stream k (set_rx_packet i q s) r)"
    if "rp_id q = rp_id p" "rp_copy q = rp_copy p" "rp_size_B q = rp_size_B p" for q
    using r s p that by (intro rxs_ok_put rx_ok_set_rx_packet) (auto simp: rx_packet_ok_def)
  have taken: "rxs_ok (fst (piece_taken f now k packetId ?till i q s r))"
    if "rp_id q = rp_id p" "rx_packet_ok q" for q
    using piece_taken_ok [OF r s(1,2), of q i f now packetId ?till] p that by simp
  have copy: "rx_packet_ok (p\<lparr>rp_copy := overwrite (unat offset_B) data (rp_copy p)\<rparr>)"
    if "unat offset_B + length data \<le> length (rp_copy p)" "rp_copy p \<noteq> []"
    using that p(1) length_overwrite [of "unat offset_B" data "rp_copy p"] by (simp add: rx_packet_ok_def)
  have "rx_packet_ok (p\<lparr>rp_context := x\<rparr>)" for x using p(1) by (simp add: rx_packet_ok_def)
  note ctx = taken [of "p\<lparr>rp_context := _\<rparr>", OF _ this]
  show ?thesis
    using u leave taken [OF refl p(1)] taken [OF _ copy] ctx
    unfolding use_piece_def Let_def p_def [symmetric]
    by (auto simp: case_prod_beta split: if_splits option.splits)
qed

interpretation piece_keeper:
  rx_handler "tolerant (use_piece f now k packetId isReliable offset_B pieceSize_B data)" k packetId True
  for f now k packetId isReliable offset_B pieceSize_B data
  by unfold_locales (auto simp: tolerant_def use_piece_kept split: option.split)

lemma rx_chunk_piece_kept:
  assumes "rxs_ok r"
    "rx_chunk now R k packetId front old (use_piece f now' k packetId rel offset_B pieceSize_B data) r = Some (r', evs)"
  shows "rxs_ok r'"
  using piece_keeper.rx_chunk_ok [OF TrueI assms(1)] rx_chunk_tolerant [OF assms(2)] by (metis option.inject prod.inject)

lemma rx_chunk_small_kept:
  assumes "rxs_ok r" "length data = unat size_B"
    "rx_chunk now R k packetId front old (use_small f now' k packetId rel size_B data) r = Some (r', evs)"
  shows "rxs_ok r'"
  using small_handler.rx_chunk_ok [OF assms(2,1)] assms(3) by (metis option.inject prod.inject)

lemma rx_chunk_begin_kept:
  assumes "rxs_ok r"
    "rx_chunk now R k packetId front old (use_begin f now' th k packetId rel size_B crc) r = Some (r', evs)"
  shows "rxs_ok r'"
  using begin_handler.rx_chunk_ok [OF TrueI assms(1)] assms(2) by (metis option.inject prod.inject)

lemma read_tx_kept:
  "txs_ok t \<Longrightarrow> read_acknowledge d now k packetId t = Some (t', evs) \<Longrightarrow> txs_ok t'"
  "txs_ok t \<Longrightarrow> read_repeatInfo k packetId off t = Some (t', evs) \<Longrightarrow> txs_ok t'"
  using read_acknowledge_ok [of t d now k packetId] read_repeatInfo_ok [of t k packetId off] by auto

lemma take_bytes_length: "take_bytes n bs = Some (xs, ys) \<Longrightarrow> length xs = n"
  by (auto simp: take_bytes_def split: if_splits)

lemma readChunk_kept:
  assumes c: "conn_ok c" and rd: "readChunk now th b a c = Some (n, c', evs)"
  shows "conn_ok c'"
proof -
  have ok: "rxs_ok (c_rxStreams c)" "txs_ok (c_txStreams c)" using c by (auto simp: conn_ok_def)
  have small: "conn_ok c'" if "read_smallPacket now id k packetId b' a c = Some (n, c', evs)" for id k packetId b'
    using that c ok rx_chunk_small_kept [OF ok(1) take_bytes_length] read_tx_kept(1) [OF ok(2)]
    by (auto simp: read_smallPacket_def Let_def on_tx_def on_rx_def conn_ok_def split: if_splits Option.bind_splits)
  have first: "conn_ok c'" if "read_beginOfPacket now th id k packetId b' a c = Some (n, c', evs)" for id k packetId b'
    using that c ok rx_chunk_begin_kept [OF ok(1)]
    by (auto simp: read_beginOfPacket_def Let_def on_rx_def conn_ok_def split: if_splits Option.bind_splits)
  have piece: "conn_ok c'" if "read_pieceOfPacket now id k packetId b' a c = Some (n, c', evs)" for id k packetId b'
    using that c ok rx_chunk_piece_kept [OF ok(1)]
    by (auto simp: read_pieceOfPacket_def Let_def on_rx_def conn_ok_def split: if_splits Option.bind_splits)
  have repeat: "conn_ok c'" if "read_repeatInfo_chunk id k packetId b' a c = Some (n, c', evs)" for id k packetId b'
    using that c ok read_tx_kept(2) [OF ok(2)]
    by (auto simp: read_repeatInfo_chunk_def Let_def on_tx_def conn_ok_def split: if_splits Option.bind_splits)
  show ?thesis
    using rd c small first piece repeat
    by (auto simp: readChunk_def split: if_splits Option.bind_splits ChunkType.splits)
qed

lemma read_chunks_kept:
  "conn_ok c \<Longrightarrow> read_chunks now th buf size_B off c = Some (c', evs) \<Longrightarrow> conn_ok c'"
proof (induction now th buf size_B off c arbitrary: c' evs rule: read_chunks.induct)
  case (1 now th buf size_B off c)
  show ?case
  proof (cases "size_B - of_nat off = 0")
    case True
    then show ?thesis using "1.prems" by (subst (asm) read_chunks.simps) simp
  next
    case False
    then obtain n c1 e1 where rd: "readChunk now th (drop off buf) (size_B - of_nat off) c = Some (n, c1, e1)"
      using "1.prems"(2) by (auto simp: read_chunks.simps [of now th buf size_B off] Let_def split: option.splits)
    note c1 = readChunk_kept [OF "1.prems"(1) rd]
    show ?thesis
      using "1.IH" [OF refl False rd refl refl _ c1] "1.prems"(2) rd c1 False
      by (auto simp: read_chunks.simps [of now th buf size_B off] Let_def split: if_splits)
  qed
qed

lemma readChunk_frame:
  assumes "readChunk now th b a c = Some (n, c', evs)"
  shows "frame c' = frame c \<and> c_cnt c' = c_cnt c"
  using assms
  by (auto simp: readChunk_def read_smallPacket_def read_beginOfPacket_def read_pieceOfPacket_def
      read_repeatInfo_chunk_def on_tx_def on_rx_def Let_def split: if_splits Option.bind_splits ChunkType.splits)

lemma read_chunks_frame:
  "read_chunks now th buf size_B off c = Some (c', evs) \<Longrightarrow> frame c' = frame c \<and> c_cnt c' = c_cnt c"
proof (induction now th buf size_B off c arbitrary: c' evs rule: read_chunks.induct)
  case (1 now th buf size_B off c)
  show ?case
  proof (cases "size_B - of_nat off = 0")
    case True
    then show ?thesis using "1.prems" by (subst (asm) read_chunks.simps) simp
  next
    case False
    then obtain n c1 e1 where rd: "readChunk now th (drop off buf) (size_B - of_nat off) c = Some (n, c1, e1)"
      using "1.prems" by (auto simp: read_chunks.simps [of now th buf size_B off] Let_def split: option.splits)
    show ?thesis
      using "1.IH" [OF refl False rd refl refl] "1.prems" rd readChunk_frame [OF rd] False
      by (auto simp: read_chunks.simps [of now th buf size_B off] Let_def split: if_splits)
  qed
qed

subsection \<open>The invariant of a connection\<close>

text \<open>Queued commands to send name as many bytes as they have, and less than \<open>2 ^ 63\<close>.\<close>

definition cmd_ok :: "command \<Rightarrow> bool" where
  "cmd_ok cmd \<longleftrightarrow> (case cmd of
     Cmd_send ctx data size_B copy k timeout_ms now_us \<Rightarrow>
       length data = unat size_B \<and> size_B \<noteq> 0 \<and> unat size_B < 2 ^ 63
   | Cmd_setTxStreamPriority k p priority \<Rightarrow> p \<noteq> NoPriority
   | _ \<Rightarrow> True)"

definition conn_good :: "Connection \<Rightarrow> bool" where
  "conn_good c \<longleftrightarrow> conn_ok c \<and> pmtu_ok (c_pmtu c) \<and> list_all cmd_ok (c_commands c)
     \<and> unat (n_rxPacketsLossInWindow_prc100 (c_cnt c)) \<le> 10000"

text \<open>What identifies a connection and its place in the life cycle.\<close>

definition life :: "Connection \<Rightarrow> tick \<times> tick \<times> bool \<times> u64" where
  "life c = (c_lastPacketTick_us c, c_nextEraseTick_us c, c_isDisconnectRequested c, c_connectionId c)"

text \<open>Effects other than the socket's own callbacks.\<close>

definition quiet :: "effect list \<Rightarrow> bool" where
  "quiet outs \<longleftrightarrow> list_all (\<lambda>e. case e of App _ \<Rightarrow> True | Sent _ _ _ \<Rightarrow> True | _ \<Rightarrow> False) outs"

lemma quiet_simps [simp]:
  "quiet []" "quiet (App e # outs) = quiet outs" "quiet (send_txBuffer c # outs) = quiet outs"
  "quiet (xs @ ys) = (quiet xs \<and> quiet ys)" "quiet (map App evs)"
  by (auto simp: quiet_def send_txBuffer_def list_all_iff)

lemma writePacket_good:
  assumes "conn_good c" "writePacket now test force c = Some (sent, c', evs)"
  shows "conn_good c' \<and> life c' = life c"
  using writePacket_kept [OF _ assms(2)] frame_simps [OF writePacket_frame [OF assms(2)]] assms(1)
  by (simp add: conn_good_def life_def)

lemma conn_good_simps [simp]:
  "conn_good (c\<lparr>c_txBuffer := b\<rparr>) = conn_good c" "conn_good (c\<lparr>c_rtt := q\<rparr>) = conn_good c"
  "conn_good (c\<lparr>c_traffic := tr\<rparr>) = conn_good c" "conn_good (c\<lparr>c_prevTick_us := x\<rparr>) = conn_good c"
  "conn_good (c\<lparr>c_lastPacketTick_us := x\<rparr>) = conn_good c" "conn_good (c\<lparr>c_nextKeepAliveTick_us := x\<rparr>) = conn_good c"
  "conn_good (c\<lparr>c_next1Hz_us := x\<rparr>) = conn_good c" "conn_good (c\<lparr>c_nextEraseTick_us := x\<rparr>) = conn_good c"
  "conn_good (c\<lparr>c_connectionId := i\<rparr>) = conn_good c" "conn_good (c\<lparr>c_port := p\<rparr>) = conn_good c"
  "conn_good (c\<lparr>c_IPv4 := a\<rparr>) = conn_good c" "conn_good (c\<lparr>c_isDisconnectRequested := f\<rparr>) = conn_good c"
  by (simp_all add: conn_good_def)

lemma conn_good_cnt:
  "conn_good c \<Longrightarrow> unat (n_rxPacketsLossInWindow_prc100 n) \<le> 10000 \<Longrightarrow> conn_good (c\<lparr>c_cnt := n\<rparr>)"
  by (simp add: conn_good_def)

lemma conn_good_reset: "conn_good c \<Longrightarrow> conn_good (partialReset c)"
  by (simp add: conn_good_def pmtu_ok_pre) (simp add: partialReset_def)

lemma force_send_good:
  assumes "conn_good c" "force_send clock now c = Some (c', outs)"
  shows "conn_good c' \<and> life c' = life c \<and> quiet outs"
proof -
  obtain sent c1 evs where w: "writePacket clock False True c = Some (sent, c1, evs)"
    "c' = c1\<lparr>c_nextKeepAliveTick_us := now + 500000, c_cnt := (c_cnt c1)\<lparr>
       n_txCount_B := n_txCount_B (c_cnt c1) + (of_nat (length (c_txBuffer c1)) + 28),
       n_txCount_B_s := n_txCount_B_s (c_cnt c1) + (of_nat (length (c_txBuffer c1)) + 28)\<rparr>\<rparr>"
    "quiet outs"
    using assms(2) by (auto simp: force_send_def Let_def split: Option.bind_splits)
  note good = writePacket_good [OF assms(1) w(1)]
  then show ?thesis using w(3) unfolding w(2) by (simp add: life_def conn_good_def)
qed

lemma keep_alive_good:
  "conn_good c \<Longrightarrow> keep_alive clock now c = Some (c', outs) \<Longrightarrow> conn_good c' \<and> life c' = life c \<and> quiet outs"
  using force_send_good by (auto simp: keep_alive_def split: if_splits)

lemma pace_good:
  assumes "pace clock test mx n i c = Some (k, c', outs)"
  shows "(conn_good c \<longrightarrow> conn_good c' \<and> life c' = life c) \<and> quiet outs"
proof -
  have "case y of (k, c', outs) \<Rightarrow> (conn_good c \<longrightarrow> conn_good c' \<and> life c' = life c) \<and> quiet outs"
    if "pace clock test mx n i c = Some y" for y
    using that
  proof (rule pace.raw_induct [rotated])
    fix pc clock test mx n i c y
    assume IH: "\<And>clock test mx n i c y. pc clock test mx n i c = Some y \<Longrightarrow>
        case y of (k, c', outs) \<Rightarrow> (conn_good c \<longrightarrow> conn_good c' \<and> life c' = life c) \<and> quiet outs"
      and step: "(if n < mx then
          Option.bind (writePacket (clock i) test False c) (\<lambda>(sent, c, evs).
            if \<not> sent then Some (n, c, map App evs)
            else Option.bind (pc clock test mx (n + of_nat (length (c_txBuffer c)) + 28) (Suc i) c)
              (\<lambda>(n, c', outs). Some (n, c', map App evs @ send_txBuffer c # outs)))
          else Some (n, c, [])) = Some y"
    show "case y of (k, c', outs) \<Rightarrow> (conn_good c \<longrightarrow> conn_good c' \<and> life c' = life c) \<and> quiet outs"
    proof (cases "n < mx")
      case False
      then show ?thesis using step by auto
    next
      case True
      then obtain sent c1 evs where w: "writePacket (clock i) test False c = Some (sent, c1, evs)"
        using step by (auto split: Option.bind_splits)
      show ?thesis
        using step True w writePacket_good [OF _ w] IH
        by (fastforce split: if_splits Option.bind_splits)
    qed
  qed
  with assms show ?thesis by fastforce
qed

lemma stale_reset_good: "conn_good c \<Longrightarrow> conn_good (stale_reset now c) \<and> life (stale_reset now c) = life c"
  by (simp add: stale_reset_def conn_good_reset) (simp add: partialReset_def life_def)

lemma pmtu_search_good:
  assumes "conn_good c" "pmtu_search now c = Some (c', outs)"
  shows "conn_good c' \<and> life c' = life c \<and> quiet outs"
proof -
  have "pmtu_ok (c_pmtu c)" using assms(1) by (simp add: conn_good_def)
  from pmtu_search_total [OF this, of now] obtain pm b where "c' = c\<lparr>c_pmtu := pm, c_txBuffer := b\<rparr>" "pmtu_ok pm"
    using assms(2) by auto
  moreover have "quiet outs"
    using assms(2) by (auto simp: pmtu_search_def Let_def case_prod_beta split: if_splits)
  ultimately show ?thesis using assms(1) by (simp add: conn_good_def life_def)
qed

lemma max_portion_good: "conn_good (snd (max_portion now c)) = conn_good c" "life (snd (max_portion now c)) = life c"
  by (simp_all add: max_portion_def Let_def life_def)

lemma after_pacing_good: "conn_good c \<Longrightarrow> conn_good (after_pacing now n c)" "life (after_pacing now n c) = life c"
  by (simp_all add: after_pacing_def life_def) (simp add: conn_good_def)

lemma every_second_good:
  "conn_good c \<Longrightarrow> conn_good (fst (every_second now c))" "life (fst (every_second now c)) = life c"
  by (simp_all add: every_second_def life_def conn_good_def conn_ok_def second_counters_def)

lemma processConnection_good:
  assumes "conn_good c" "processConnection clock test now c = Some (c', outs, second)"
  shows "conn_good c' \<and> life c' = life c \<and> quiet outs"
proof -
  obtain c1 o1 where s1: "pmtu_search now (stale_reset now c) = Some (c1, o1)"
    using assms(2) by (auto simp: processConnection_def split: Option.bind_splits)
  obtain p c2 where s2: "max_portion now c1 = (p, c2)" by fastforce
  obtain n c3 o2 where s3: "pace clock test p (n_txCount_B (c_cnt c2)) 0 c2 = Some (n, c3, o2)"
      "c' = fst (every_second now (after_pacing now n c3))" "outs = o1 @ o2"
    using assms(2) s1 s2 by (auto simp: processConnection_def case_prod_beta split: Option.bind_splits)
  have c1: "conn_good c1 \<and> life c1 = life c \<and> quiet o1" using pmtu_search_good [OF _ s1] stale_reset_good [OF assms(1), of now] by simp
  then have "conn_good c2 \<and> life c2 = life c" using max_portion_good [of now c1] s2 by simp
  then have "conn_good c3 \<and> life c3 = life c \<and> quiet o2" using pace_good [OF s3(1)] by simp
  then show ?thesis using c1 unfolding s3(2,3) by (simp add: every_second_good after_pacing_good)
qed

lemma rtt_measure_good:
  "conn_good c \<Longrightarrow> rtt_measure now h c = Some c' \<Longrightarrow> conn_good c' \<and> life c' = life c"
  by (auto simp: rtt_measure_def Let_def life_def split: if_splits)

lemma receive_header_good:
  assumes "conn_good c" "receive_header now h c = Some c'"
  shows "conn_good c' \<and> life c' = life c"
proof -
  obtain c1 where m: "rtt_measure now h c = Some c1"
    "c' = tx_window h ((rtt_response now h c1)\<lparr>c_pmtu := pmtu_response (h_PMTUProbeSize_B h) (c_pmtu (rtt_response now h c1))\<rparr>)"
    using assms(2) by (auto simp: receive_header_def Let_def split: Option.bind_splits)
  note c1 = rtt_measure_good [OF assms(1) m(1)]
  moreover have "conn_good (c\<lparr>c_pmtu := pmtu_response n (c_pmtu c)\<rparr>)" if "conn_good c" for n and c :: Connection
    using that by (simp add: conn_good_def pmtu_response_ok)
  moreover have "conn_good (rtt_response now h c1) \<and> life (rtt_response now h c1) = life c1"
    using c1 by (simp add: rtt_response_def life_def)
  moreover have "conn_good (tx_window h c) \<and> life (tx_window h c) = life c" if "conn_good c" for c
    using that by (simp add: tx_window_def Let_def life_def) (simp add: conn_good_def)
  ultimately show ?thesis unfolding m(2) by (simp add: life_def)
qed

lemma receive_data_good:
  assumes "conn_good c" "receive_data clock now th h buf size_B c = Some (c', outs)"
  shows "conn_good c' \<and> life c' = life c \<and> quiet outs"
proof -
  obtain c1 evs where rd: "read_chunks now th buf size_B sizeof_PacketHeader c = Some (c1, evs)"
    using assms(2) by (auto simp: receive_data_def split: Option.bind_splits)
  have "conn_ok c1" using read_chunks_kept [OF _ rd] assms(1) by (simp add: conn_good_def)
  then have c1: "conn_good c1" "life c1 = life c"
    using frame_simps [of c1 c] read_chunks_frame [OF rd] assms(1) by (simp_all add: conn_good_def life_def)
  obtain n w where n: "rx_window h (count_received size_B h (c_cnt c1)) = (n, w)" by fastforce
  have "unat (n_rxPacketsLossInWindow_prc100 n) \<le> 10000"
    using rx_window_loss [of "count_received size_B h (c_cnt c1)" h] c1(1) n
    by (simp add: conn_good_def count_received_def)
  then have c2: "conn_good (c1\<lparr>c_cnt := n\<rparr>)" "life (c1\<lparr>c_cnt := n\<rparr>) = life c"
    using conn_good_cnt c1 by (auto simp: life_def)
  show ?thesis
    using assms(2) rd n c2 force_send_good [OF c2(1)]
    by (cases w) (auto simp: receive_data_def)
qed

lemma receive_datagram_good:
  assumes "conn_good c" "receive_datagram clock now on th key h buf size_B c = Some (c', outs)"
  shows "conn_good c' \<and> life c' = (now, c_nextEraseTick_us c, c_isDisconnectRequested c, c_connectionId c)
    \<and> (\<exists>outs'. quiet outs' \<and> outs = (if c_lastPacketTick_us c = INT64_MAX \<and> on then [OnConnected key] else []) @ outs')"
proof -
  obtain c1 o1 where s1: "mark_connected now on key c = (c1, o1)" by fastforce
  then obtain c2 where s: "mark_connected now on key c = (c1, o1)" "receive_header now h c1 = Some c2"
    using assms(2) by (auto simp: receive_datagram_def split: Option.bind_splits)
  have "conn_good c1 \<and> life c1 = (now, c_nextEraseTick_us c, c_isDisconnectRequested c, c_connectionId c)"
    using assms(1) s(1) by (auto simp: mark_connected_def life_def split: if_splits)
  then have c2: "conn_good c2" "life c2 = (now, c_nextEraseTick_us c, c_isDisconnectRequested c, c_connectionId c)"
    using receive_header_good [OF _ s(2)] by auto
  have o1: "o1 = (if c_lastPacketTick_us c = INT64_MAX \<and> on then [OnConnected key] else [])"
    using s(1) by (auto simp: mark_connected_def split: if_splits)
  show ?thesis
  proof (cases "h_packetId h = PacketId_TypeA")
    case True
    then obtain outs' where d: "receive_data clock now th h buf size_B c2 = Some (c', outs')" "outs = o1 @ outs'"
      using assms(2) s by (auto simp: receive_datagram_def)
    show ?thesis using receive_data_good [OF c2(1) d(1)] c2(2) unfolding d(2) o1 by auto
  next
    case False
    then have "c' = c2\<lparr>c_pmtu := (c_pmtu c2)\<lparr>pm_PMTUProbeResponse_B := size_B\<rparr>\<rparr>" "outs = o1 @ []"
      using assms(2) s by (simp_all add: receive_datagram_def)
    then show ?thesis using c2 quiet_simps(1) unfolding o1 by (simp add: conn_good_def life_def pmtu_ok_def)
  qed
qed

lemma run_command_ok: "cmd_ok cmd \<Longrightarrow> conn_ok c \<Longrightarrow> conn_ok (run_command cmd c)"
  using txs_ok_send txs_ok_priority by (auto simp: run_command_def cmd_ok_def conn_ok_def split: command.splits)

lemma doCommands_good:
  "conn_good c \<Longrightarrow> conn_good (doCommands c) \<and> life (doCommands c) = life c \<and> c_commands (doCommands c) = []"
proof (induction c rule: doCommands.induct)
  case (1 c)
  show ?case
  proof (cases "c_commands c")
    case Nil
    then show ?thesis using "1.prems" by (simp add: doCommands.simps)
  next
    case (Cons cmd cs)
    let ?c = "(run_command cmd c)\<lparr>c_commands := tl (c_commands (run_command cmd c))\<rparr>"
    have keep: "c_pmtu (run_command cmd c) = c_pmtu c" "c_cnt (run_command cmd c) = c_cnt c" "life (run_command cmd c) = life c"
      by (simp_all add: run_command_def life_def split: command.split)
    have "conn_good ?c" "life ?c = life c"
      using "1.prems" Cons run_command_ok [of cmd c] keep by (auto simp: conn_good_def life_def)
    then show ?thesis using "1.IH" [OF Cons refl] Cons by (subst (1 2 3) doCommands.simps) simp
  qed
qed

lemma onDisconnected_good:
  assumes "conn_good c"
  shows "conn_good (fst (conn_onDisconnected c)) \<and>
    life (fst (conn_onDisconnected c)) = (c_lastPacketTick_us c, c_nextEraseTick_us c, c_isDisconnectRequested c, 0)"
  using assms
  by (simp add: conn_onDisconnected_def conn_good_def life_def conn_ok_def txs_ok_def rxs_ok_def)

lemma writeDisconnect_good: "conn_good (writeDisconnect c) = conn_good c" "life (writeDisconnect c) = life c"
  by (simp_all add: writeDisconnect_def life_def)

lemma partialReset_good:
  assumes "conn_ok c" "pmtu_pre (c_pmtu c)" "list_all cmd_ok (c_commands c)"
  shows "conn_good (partialReset c)"
  using assms by (simp add: conn_good_def) (simp add: partialReset_def)

end
