(* ===== verification/Udsp_Exchange.thy ===== *)
theory Udsp_Exchange
  imports Udsp_Datagram
begin

text \<open>
  Both ends together: what \<open>readChunk\<close> makes of the bytes the writers produce, delivery of a
  datagram's packets in order, and the full cycle of a small packet from the sender's queue to the
  receiver's application and of its acknowledgement back to the sender's.
\<close>

subsection \<open>Reading what was written\<close>

text \<open>Each kind of chunk, read back from the bytes the writer produced, reaches its handler with the
  fields it was written from, and is consumed exactly.\<close>

lemma read_chunk_header [wire_simps]:
  "\<not> a < 3 \<Longrightarrow> readChunk now th (chunk_header raw k packetId @ b) a c =
     (case chunkType raw of
        SmallPacket \<Rightarrow> read_smallPacket now raw k packetId b a c
      | BeginOfPacket \<Rightarrow> read_beginOfPacket now th raw k packetId b a c
      | PieceOfPacket \<Rightarrow> read_pieceOfPacket now raw k packetId b a c
      | RepeatInfo \<Rightarrow> read_repeatInfo_chunk raw k packetId b a c)"
  by (simp add: readChunk_def chunk_header_def read_write)

lemma available_header: "g_chunkHeader_B \<le> unat a \<Longrightarrow> \<not> a < (3 :: u32)"
  by (simp add: word_less_nat_alt)

lemma read_written_ack:
  "g_chunkHeader_B \<le> unat a \<Longrightarrow> readChunk now th (chunk_header (mk_smallPacket True True False B8) k packetId @ rest) a c
   = on_tx g_chunkHeader_B c (read_acknowledge (c_onDelivered c) now k packetId (c_txStreams c))"
  by (simp add: read_chunk_header available_header read_smallPacket_def)

lemma small_packet_length:
  "small_packet_bytes s p = Some bs \<Longrightarrow>
   length bs = g_chunkHeader_B + getNumberOfBytes (getNumberOfBits (tp_size_B p)) + unat (tp_size_B p)"
  by (auto simp: small_packet_bytes_def write_data_def Let_def dest: mem_read_length)

lemma read_written_small:
  assumes "tx_packet_ok p" "unat (tp_size_B p) < 65536" "small_packet_bytes s p = Some bs" "length bs \<le> unat a"
  shows "readChunk now th (bs @ rest) a c = on_rx (length bs) c
     (rx_chunk now (t_RTT_us (c_traffic c)) (ts_id s) (tp_id p) (ts_packetFifoIdx s = 0) (tp_isReliable p)
        (use_small (c_onReceived c) now (ts_id s) (tp_id p) (tp_isReliable p) (tp_size_B p) (tp_pointer p))
        (c_rxStreams c))"
proof -
  define bits where "bits = getNumberOfBits (tp_size_B p)"
  have bs: "bs = chunk_header (mk_smallPacket False (tp_isReliable p) (ts_packetFifoIdx s = 0) bits)
      (ts_id s) (tp_id p) @ write_by_bits bits (tp_size_B p) @ tp_pointer p"
    using assms(1,3)
    by (auto simp: small_packet_bytes_def write_data_def mem_read_def tx_packet_ok_def Let_def bits_def)
  have len: "length bs = g_chunkHeader_B + getNumberOfBytes bits + unat (tp_size_B p)"
    using small_packet_length [OF assms(3)] by (simp add: bits_def)
  have b: "bits = B8 \<or> bits = B16" using getNumberOfBits_small [OF assms(2)] by (simp add: bits_def)
  have size: "tp_size_B p \<noteq> 0" "length (tp_pointer p) = unat (tp_size_B p)"
    using assms(1) by (auto simp: tx_packet_ok_def)
  have rd: "read_by_bits bits (write_by_bits bits (tp_size_B p) @ tp_pointer p @ rest) =
      Some (tp_size_B p, tp_pointer p @ rest)"
    unfolding bits_def by (rule read_write_sized)
  have "\<not> a < 3" using assms(4) len by (intro available_header) simp
  then show ?thesis
    using assms(4) len b size rd
    by (simp add: bs read_chunk_header read_smallPacket_def Let_def add.assoc)
qed

lemma read_written_begin:
  assumes "g_chunkHeader_B + getNumberOfBytes bits + 4 \<le> unat a" "bits = getNumberOfBits size_B"
  shows "readChunk now th ((chunk_header (mk_beginOfPacket rel front bits) k packetId
      @ write_by_bits bits size_B @ write_u32 (crc :: u32)) @ rest) a c =
    on_rx (g_chunkHeader_B + getNumberOfBytes bits + 4) c
      (rx_chunk now (t_RTT_us (c_traffic c)) k packetId front False
         (use_begin (c_onReceived c) now th k packetId rel size_B crc) (c_rxStreams c))"
proof -
  have "read_by_bits bits (write_by_bits bits size_B @ write_u32 crc @ rest) = Some (size_B, write_u32 crc @ rest)"
    unfolding assms(2) by (rule read_write_sized)
  moreover have "\<not> a < 3" using assms(1) by (intro available_header) simp
  ultimately show ?thesis
    using assms(1) by (simp add: read_chunk_header read_beginOfPacket_def Let_def read_write)
qed

lemma read_written_piece:
  assumes "g_chunkHeader_B + getNumberOfBytes ob + getNumberOfBytes pb + n \<le> unat a" "n = length data" "0 < n"
    "ob = getNumberOfBits offset_B" "pb = getNumberOfBits (of_nat (n))" "n < 65536"
  shows "readChunk now th ((chunk_header (mk_pieceOfPacket rel front ob pb) k packetId
      @ write_by_bits ob offset_B @ write_by_bits pb (of_nat (n)) @ data) @ rest) a c =
    on_rx (g_chunkHeader_B + getNumberOfBytes ob + getNumberOfBytes pb + n) c
      (rx_chunk now (t_RTT_us (c_traffic c)) k packetId front rel
         (use_piece (c_onReceived c) now k packetId rel offset_B (of_nat (n)) data) (c_rxStreams c))"
proof -
  have n: "unat (of_nat (n) :: u64) = n"
    using assms(6) by (intro unat_of_nat_small) simp
  have c32: "ucast (of_nat (n) :: u64) = (of_nat (n) :: u32)"
    using assms(6) by (simp add: word_unat_eq_iff unat_ucast_mod n unat_of_nat_small)
  have r1: "read_by_bits ob (write_by_bits ob offset_B @ write_by_bits pb (of_nat (n)) @ data @ rest)
      = Some (offset_B, write_by_bits pb (of_nat (n)) @ data @ rest)"
    unfolding assms(4) by (rule read_write_sized)
  have r2: "read_by_bits pb (write_by_bits pb (of_nat (n)) @ data @ rest)
      = Some (of_nat (n), data @ rest)"
    unfolding assms(5) by (rule read_write_sized)
  have pb: "pb = B8 \<or> pb = B16" using getNumberOfBits_small [of "of_nat (n)"] assms(5,6) n by simp
  have "\<not> a < 3" using assms(1) by (intro available_header) simp
  moreover have "take_bytes n (data @ rest) = Some (data, rest)" using assms(2) by simp
  ultimately show ?thesis
    using assms(1,3) pb r1 r2 by (simp add: read_chunk_header read_pieceOfPacket_def Let_def n c32)
qed


subsection \<open>In-order delivery\<close>

text \<open>A receive stream that waits for packet \<open>n\<close>: not yet opened (then \<open>n\<close> is 0), with an empty
  queue, or with the fresh packet that opening it appended.\<close>

definition waiting :: "u32 \<Rightarrow> RxStream \<Rightarrow> bool" where
  "waiting n s \<longleftrightarrow> rs_frontPacketId s = n
     \<and> (rs_fifo s = [] \<and> rs_fifoShadow s = []
        \<or> (\<exists>t b. rs_fifo s = [new_packet t b n] \<and> rs_fifoShadow s = [n]))"

definition awaiting :: "u8 \<Rightarrow> u32 \<Rightarrow> RxStreams \<Rightarrow> bool" where
  "awaiting k n r \<longleftrightarrow> (let s = rx_stream_at k r in
     if rs_isNew s then s = RxStream_init \<and> n = 0 else rs_id s = k \<and> waiting n s)"

lemma RxStream_init_simps [simp]:
  "rs_fifo RxStream_init = []" "rs_fifoShadow RxStream_init = []" "rs_frontPacketId RxStream_init = 0"
  "rs_isNew RxStream_init" "rs_isReliable RxStream_init = False"
  by (simp_all add: RxStream_init_def)

lemma get_packet_init:
  "get_packet now 0 (RxStream_init\<lparr>rs_isNew := False, rs_id := k\<rparr>) =
     (0, push_packet now 0 (RxStream_init\<lparr>rs_isNew := False, rs_id := k\<rparr>))"
  by (simp add: get_packet_def emplace_def)

lemma awaiting_open:
  assumes "awaiting k n r"
  shows "waiting n (rx_stream_at k (open_rx_stream now k r))"
    "rs_id (rx_stream_at k (open_rx_stream now k r)) = k"
    "\<not> rs_isNew (rx_stream_at k (open_rx_stream now k r))"
    "rxs_acks (open_rx_stream now k r) = rxs_acks r"
  using assms
  by (auto simp: awaiting_def open_rx_stream_def Let_def get_packet_init waiting_def split: if_splits)

lemma waiting_front: "waiting n s \<Longrightarrow> updateFrontPacketId f n s = s"
  by (cases f) (auto simp: waiting_def updateFrontPacketId_def advance_front_def Let_def)

lemma waiting_not_before: "waiting n s \<Longrightarrow> \<not> isReceivedBefore n s"
  by (simp add: waiting_def isReceivedBefore_def)

lemma waiting_get:
  assumes "waiting n s"
  shows "\<exists>t b s'. get_packet now n s = (0, s') \<and> rs_fifo s' = [new_packet t b n] \<and> rs_fifoShadow s' = [n]
    \<and> rs_frontPacketId s' = n \<and> rs_id s' = rs_id s \<and> rs_isNew s' = rs_isNew s"
proof -
  have F: "rs_frontPacketId s = n" using assms by (simp add: waiting_def)
  consider "rs_fifo s = []" "rs_fifoShadow s = []" | t b where "rs_fifo s = [new_packet t b n]" "rs_fifoShadow s = [n]"
    using assms by (auto simp: waiting_def)
  then show ?thesis
  proof cases
    case 1
    then have "get_packet now n s = (0, push_packet now n s)" using F by (simp add: get_packet_def emplace_def)
    with 1 F show ?thesis by auto
  next
    case 2
    then have "get_packet now n s = (0, s)"
      using F by (simp add: get_packet_def emplace_def emplace_up_eq Let_def)
    with 2 F show ?thesis by blast
  qed
qed

lemma advance_next:
  "rs_fifoShadow s = [n] \<Longrightarrow> rs_frontPacketId s = n \<Longrightarrow>
   rs_frontPacketId (updateFrontPacketId True (n + 1) s) = n + 1"
proof (cases "n = UINT32_MAX")
  case True
  assume "rs_fifoShadow s = [n]" "rs_frontPacketId s = n"
  with True show ?thesis by (simp add: updateFrontPacketId_def advance_front_def Let_def)
next
  case False
  assume s: "rs_fifoShadow s = [n]" "rs_frontPacketId s = n"
  have "n \<le> UINT32_MAX" by (simp add: word_le_nat_alt)
  then have "n < UINT32_MAX" using False by simp
  then have "n < n + 1" using unat_plus_1 [of n UINT32_MAX] by (simp add: word_less_nat_alt)
  with s show ?thesis by (simp add: updateFrontPacketId_def advance_front_def Let_def)
qed

lemma small_in_order:
  assumes "awaiting k n r"
  shows "\<exists>r'. rx_chunk now RTT_us k n front rel (use_small (Some f) now k n rel size_B data) r =
      Some (r', [Received 0 (Some data) size_B 0 k CHR ''s'']) \<and> awaiting k (n + 1) r'
      \<and> rxs_acks r' = rxs_acks (push_ack rel k n r)
      \<and> (\<exists>s. rxs_map r' = AList.update k s (rxs_map (open_rx_stream now k r)) \<and> rs_fifo s = [])"
proof -
  define r1 where "r1 = open_rx_stream now k r"
  define s where "s = rx_stream_at k r1"
  note o = awaiting_open [OF assms, of now, folded r1_def, folded s_def]
  obtain t b s1 where g: "get_packet now n s = (0, s1)" "rs_fifo s1 = [new_packet t b n]"
    "rs_fifoShadow s1 = [n]" "rs_frontPacketId s1 = n" "rs_id s1 = k" "\<not> rs_isNew s1"
    using waiting_get [OF o(1), of now] o(2,3) by auto
  let ?p = "(new_packet t b n)\<lparr>rp_timeout_us := now + rtt200 RTT_us\<rparr>"
  let ?s2 = "(set_rx_packet 0 (?p\<lparr>rp_isReceived := True\<rparr>) (set_rx_packet 0 ?p s1))\<lparr>rs_debugPacketId := n\<rparr>"
  define s3 where "s3 = pop_front_rx (updateFrontPacketId True (n + 1) ?s2)"
  have s2: "rs_fifoShadow ?s2 = [n]" "rs_frontPacketId ?s2 = n" using g by (simp_all add: set_rx_packet_def)
  have s3: "rs_fifo s3 = []" "rs_fifoShadow s3 = []" "rs_frontPacketId s3 = n + 1" "rs_id s3 = k" "\<not> rs_isNew s3"
    using g s2 advance_next [OF s2] by (simp_all add: s3_def) (simp add: set_rx_packet_def)
  have "rx_chunk now RTT_us k n front rel (use_small (Some f) now k n rel size_B data) r =
      use_small (Some f) now k n rel size_B data 0 (set_rx_packet 0 ?p s1) r1"
    unfolding rx_chunk_def Let_def r1_def [symmetric] s_def [symmetric] waiting_front [OF o(1)]
    using waiting_not_before [OF o(1)] o(1) g by (auto simp: waiting_def)
  also have "\<dots> = Some (put_rx_stream k s3 (push_ack rel k n r1), [Received 0 (Some data) size_B 0 k CHR ''s''])"
    using g by (simp add: use_small_def Let_def s3_def [symmetric] processRxFifo_Nil [OF s3(1)] notify_received_def)
  finally have "rx_chunk now RTT_us k n front rel (use_small (Some f) now k n rel size_B data) r =
      Some (put_rx_stream k s3 (push_ack rel k n r1), [Received 0 (Some data) size_B 0 k CHR ''s''])" .
  moreover have "awaiting k (n + 1) (put_rx_stream k s3 (push_ack rel k n r1))"
    using s3 by (simp add: awaiting_def waiting_def)
  moreover have "rxs_acks (push_ack rel k n r1) = rxs_acks (push_ack rel k n r)"
    using o(4) by (simp add: push_ack_def)
  moreover have "rxs_map (put_rx_stream k s3 (push_ack rel k n r1)) = AList.update k s3 (rxs_map r1)"
    by (simp add: put_rx_stream_def push_ack_def)
  ultimately show ?thesis using s3(1) by (auto simp: r1_def)
qed


text \<open>The bytes of the packets \<open>ps\<close> of stream \<open>k\<close> as small chunks, one after the other.\<close>

definition small_chunk :: "u8 \<Rightarrow> TxPacket \<Rightarrow> bytes \<Rightarrow> bool" where
  "small_chunk k p bs \<longleftrightarrow> tx_packet_ok p \<and> unat (tp_size_B p) < 65536
     \<and> (\<exists>s. ts_id s = k \<and> small_packet_bytes s p = Some bs)"

lemma read_chunks_end: "unat size_B = offset_B \<Longrightarrow> read_chunks now th buf size_B offset_B c = Some (c, [])"
  by (subst read_chunks.simps) (auto simp: Let_def)

lemma read_chunks_step:
  assumes "readChunk now th (drop offset_B buf) (size_B - of_nat offset_B) c = Some (n, c', evs)"
    "0 < n" "offset_B < unat size_B"
  shows "read_chunks now th buf size_B offset_B c =
    map_option (\<lambda>(c, evs'). (c, evs @ evs')) (read_chunks now th buf size_B (offset_B + n) c')"
proof -
  have "size_B - of_nat offset_B \<noteq> 0"
  proof
    assume "size_B - of_nat offset_B = 0"
    then have "size_B = of_nat offset_B" by simp
    then have "unat size_B = offset_B mod 2 ^ 32" by (simp add: unat_of_nat take_bit_eq_mod)
    with assms(3) show False by (simp add: mod_less_eq_dividend leD)
  qed
  with assms show ?thesis by (subst read_chunks.simps) (simp add: Let_def)
qed

lemma unat_sub_of_nat:
  assumes "n \<le> unat (x :: u32)"
  shows "unat (x - of_nat n) = unat x - n"
proof -
  have "n < 2 ^ 32" using assms unat_u32_less [of x] by (simp del: unat_u32_less)
  then have "unat (of_nat n :: u32) = n" by (rule unat_of_nat_u32)
  with assms show ?thesis by (subst unat_sub) (simp_all add: word_le_nat_alt)
qed

lemma read_chunks_in_order:
  assumes "list_all2 (small_chunk k) ps bss" "map tp_id ps = map (\<lambda>i. n + of_nat i) [0 ..< length ps]"
    and "awaiting k n (c_rxStreams c)" "c_onReceived c = Some f"
    and "drop offset_B buf = concat bss" "unat size_B = length buf" "offset_B \<le> length buf"
  shows "\<exists>c'. read_chunks now th buf size_B offset_B c =
      Some (c', map (\<lambda>p. Received 0 (Some (tp_pointer p)) (tp_size_B p) 0 k CHR ''s'') ps)
    \<and> awaiting k (n + of_nat (length ps)) (c_rxStreams c')"
  using assms
proof (induction ps bss arbitrary: n c offset_B rule: list_all2_induct)
  case Nil
  then have "unat size_B = offset_B" by simp
  with Nil show ?case by (simp add: read_chunks_end)
next
  case (Cons p ps bs bss)
  obtain s where s: "ts_id s = k" "small_packet_bytes s p = Some bs" "tx_packet_ok p" "unat (tp_size_B p) < 65536"
    using Cons.hyps(1) by (auto simp: small_chunk_def)
  have len: "0 < length bs" using small_packet_length [OF s(2)] by simp
  have d: "drop offset_B buf = bs @ concat bss" using Cons.prems(4) by simp
  then have "length buf - offset_B = length bs + length (concat bss)"
    by (metis length_append length_drop)
  then have off: "offset_B + length bs \<le> length buf" using Cons.prems(6) len by linarith
  have av: "length bs \<le> unat (size_B - of_nat offset_B)" using off Cons.prems(5,6) by (simp add: unat_sub_of_nat)
  have ids: "tp_id p = n" "map tp_id ps = map (\<lambda>i. (n + 1) + of_nat i) [0 ..< length ps]"
    using Cons.prems(1) by (auto simp: upt_conv_Cons map_Suc_upt [symmetric] comp_def add.assoc simp del: upt_Suc)
  obtain r' where r': "rx_chunk now (t_RTT_us (c_traffic c)) k n (ts_packetFifoIdx s = 0) (tp_isReliable p)
      (use_small (Some f) now k n (tp_isReliable p) (tp_size_B p) (tp_pointer p)) (c_rxStreams c) =
      Some (r', [Received 0 (Some (tp_pointer p)) (tp_size_B p) 0 k CHR ''s''])" "awaiting k (n + 1) r'"
    using small_in_order [OF Cons.prems(2)] by blast
  let ?c = "c\<lparr>c_rxStreams := r'\<rparr>"
  have step: "readChunk now th (drop offset_B buf) (size_B - of_nat offset_B) c =
      Some (length bs, ?c, [Received 0 (Some (tp_pointer p)) (tp_size_B p) 0 k CHR ''s''])"
    unfolding d using read_written_small [OF s(3,4,2) av] r'(1) Cons.prems(3) by (simp add: s(1) ids(1) on_rx_def)
  have "drop (offset_B + length bs) buf = concat bss"
    using arg_cong [OF d, of "drop (length bs)"] by (simp add: add.commute)
  then obtain c' where "read_chunks now th buf size_B (offset_B + length bs) ?c =
      Some (c', map (\<lambda>p. Received 0 (Some (tp_pointer p)) (tp_size_B p) 0 k CHR ''s'') ps)"
    "awaiting k ((n + 1) + of_nat (length ps)) (c_rxStreams c')"
    using Cons.IH [of "n + 1" ?c "offset_B + length bs"] ids(2) r'(2) Cons.prems(3,5) off by auto
  then show ?case
    using read_chunks_step [OF step len] off len Cons.prems(5) by (simp add: add.assoc)
qed

subsection \<open>A connection with one transmit stream\<close>

definition lone :: "u8 \<Rightarrow> TxStream \<Rightarrow> TxStreams \<Rightarrow> bool" where
  "lone k s t \<longleftrightarrow> scan_inv t \<and> txs_map t = [(k, s)]"

lemma lone_vec: "lone k s t \<Longrightarrow> pm_vec (txs_vec t p) = (if p = ts_priority s then [k] else [])"
proof -
  assume l: "lone k s t"
  have "distinct (pm_vec (txs_vec t p))" "set (pm_vec (txs_vec t p)) = keys_of p (txs_map t)"
    using l by (auto simp: lone_def scan_inv_def txs_ok_def)
  moreover have "keys_of p (txs_map t) = (if p = ts_priority s then {k} else {})"
    using l by (auto simp: lone_def keys_of_def)
  ultimately show ?thesis
    by (cases "pm_vec (txs_vec t p)"; cases "tl (pm_vec (txs_vec t p))") (auto split: if_splits)
qed

lemma lone_update: "txs_ok t \<Longrightarrow> txs_map t = [(k, s)] \<Longrightarrow> lone k s (update_streams t)"
  by (auto simp: lone_def scan_inv_def tx_inv_intros) (simp add: update_streams_def)

lemma lone_visit:
  assumes "lone k s t"
  shows "lone k (visit d now r m s) (put_tx_stream k (visit d now r m s) t)"
  using scan_frame_visit [of t k s d now r m] assms
  by (simp add: lone_def scan_frame_def put_tx_stream_def)

lemma lone_scan:
  assumes l: "lone k s t" and p: "processTxFifo d now s = (s, [])"
    and sc: "scan_tx_fifo (length (ts_fifo s)) now r m s = (s', found)"
  shows "scan_priorities all_priorities d now r m t =
    Some ((\<lambda>q. if q = ts_priority s \<and> found then Some k else None), put_tx_stream k s' t, [])"
proof -
  have np: "ts_priority s \<noteq> NoPriority" using l by (auto simp: lone_def scan_inv_def txs_ok_def)
  have one: "scan_priority (length [k]) [k] i d now r m t =
      Some (if found then Some k else None, put_tx_stream k s' t, [])" for i
    using l p sc by (cases i) (simp_all add: lone_def Let_def)
  show ?thesis
    using np one lone_vec [OF l]
    by (cases "ts_priority s") (auto simp: Let_def fun_eq_iff split: Priority.split)
qed

lemma choose_lone:
  assumes "sent_total t + 1 < 2 ^ 32" "p \<noteq> NoPriority"
  shows "choose_priority (\<lambda>q. (if q = p \<and> found then Some k else None) \<noteq> None)
      (\<lambda>q. pm_countSent_B (txs_vec t q)) now = Some (if found then p else NoPriority)"
proof -
  obtain q where q: "choose_priority (\<lambda>q. (if q = p \<and> found then Some k else None) \<noteq> None)
      (\<lambda>q. pm_countSent_B (txs_vec t q)) now = Some q"
    using choose_priority_defined [OF sent_total_no_wrap [OF assms(1) refl]] by blast
  have "p \<in> set all_priorities" using assms(2) by (cases p) auto
  with choose_priority_has [OF q] assms(2) q show ?thesis
    by (cases found; cases "q = NoPriority") (auto split: if_splits)
qed

text \<open>The only packet of the only stream, small enough for what is available and due.\<close>

definition due :: "tick \<Rightarrow> u32 \<Rightarrow> u32 \<Rightarrow> TxStream \<Rightarrow> TxPacket \<Rightarrow> bool" where
  "due now RTT_us m s p \<longleftrightarrow> ts_fifo s = [p] \<and> ts_packetFifoIdx s = 0
     \<and> \<not> tp_isAcknowledged p \<and> now < tp_timeout_us p \<and> tp_datagramId p \<noteq> ucast m \<and> \<not> tp_isStarted p
     \<and> tp_begin_us p + rtt2 RTT_us \<le> now \<and> tp_isReliable p"

lemma keep_front: "ts_fifo s = p # ps \<Longrightarrow> \<not> tp_isAcknowledged p \<Longrightarrow> now \<le> tp_timeout_us p \<Longrightarrow>
   processTxFifo d now s = (s, [])"
  by (simp add: processTxFifo.simps)

definition returned :: "tick \<Rightarrow> u32 \<Rightarrow> TxStream \<Rightarrow> TxStream" where
  "returned now RTT_us s = (if ts_fifoReturnTime_us s + rtt2 RTT_us < now
     then s\<lparr>ts_fifoReturnTime_us := now + rtt2 RTT_us, ts_packetFifoIdx := 0\<rparr> else s)"

lemma due_scan:
  "due now RTT_us m s p \<Longrightarrow> scan_tx_fifo (length (ts_fifo s)) now RTT_us m s = (returned now RTT_us s, True)"
  by (auto simp: due_def returned_def skip_packet_def Let_def)

lemma data_chunk_lone_due:
  assumes t: "txs_ok t" "txs_map t = [(k, s)]" "sent_total t + 1 < 2 ^ 32" and p: "due now RTT_us m s p"
    and bs: "small_packet_bytes (returned now RTT_us s) p = Some bs" "unat (tp_size_B p) < 65536"
      "length bs \<le> unat a"
  shows "\<exists>t'. data_chunk d now RTT_us m a t = Some (length bs, bs, t', []) \<and> txs_ok t'
    \<and> txs_map t' = [(k, set_packet 0 (p\<lparr>tp_datagramId := ucast m, tp_begin_us := now\<rparr>) (returned now RTT_us s))]
    \<and> sent_total t' \<le> sent_total t + length bs"
proof -
  let ?u = "update_streams t" and ?s = "returned now RTT_us s"
  have l: "lone k s ?u" using t by (intro lone_update)
  have fifo: "ts_fifo ?s = [p]" "ts_packetFifoIdx ?s = 0" "ts_id ?s = ts_id s" "ts_priority ?s = ts_priority s"
    "ts_isNew ?s = ts_isNew s" "tx_ok ?s = tx_ok s"
    using p by (auto simp: due_def returned_def)
  define t1 where "t1 = next_vecIdx (ts_priority s) (put_tx_stream k ?s ?u)"
  let ?s2 = "set_packet 0 (p\<lparr>tp_datagramId := ucast m, tp_begin_us := now\<rparr>) ?s"
  let ?t' = "add_sent (ts_priority s) (length bs) (put_tx_stream k ?s2 t1)"
  have st: "sent_total t1 = sent_total t" by (simp add: t1_def)
  have len: "length bs = g_chunkHeader_B + getNumberOfBytes (getNumberOfBits (tp_size_B p)) + unat (tp_size_B p)"
    using small_packet_length [OF bs(1)] .
  have a: "of_nat (g_chunkHeader_B + getNumberOfBytes (getNumberOfBits (tp_size_B p))) + tp_size_B p
      \<le> (ucast a :: u64)"
    using bs(3) len unat_of_nat_plus_u64 [of "g_chunkHeader_B + getNumberOfBytes (getNumberOfBits (tp_size_B p))"
        "tp_size_B p"] unat_u32_less [of a] by (simp add: word_le_nat_alt del: unat_u32_less)
  have big: "\<not> unat a \<le> g_chunkHeader_B"
    using len bs(3) getNumberOfBytes_bounds(1) [of "getNumberOfBits (tp_size_B p)"] by linarith
  have keep: "processTxFifo d now s = (s, [])" using p by (intro keep_front) (auto simp: due_def)
  have ok: "txs_ok ?u" "map_of (txs_map ?u) k = Some s" using l by (auto simp: lone_def scan_inv_def)
  have "tx_ok s" "ts_priority s \<noteq> NoPriority" using txs_ok_lookup [OF ok] by auto
  have t1: "txs_ok t1" "map_of (txs_map t1) k = Some ?s"
    using ok \<open>tx_ok s\<close> fifo by (auto simp: t1_def intro: txs_ok_replace)
  have "tx_ok ?s2" using \<open>tx_ok s\<close> fifo by (intro tx_ok_set_packet) simp_all
  then have t': "txs_ok ?t'" using txs_ok_replace [OF t1] by simp
  have "write_selected d now m a (ts_priority s) k ?s t1 = Some (length bs, bs, ?t', [])"
    using p a bs(1) len getNumberOfBits_small [OF bs(2)] fifo
    by (simp add: write_selected_def write_small_def sent_small_def due_def Let_def)
  then have "data_chunk d now RTT_us m a t = Some (length bs, bs, ?t', [])"
    using big choose_lone [of "put_tx_stream k ?s ?u" "ts_priority s" True k now] t(3)
      \<open>ts_priority s \<noteq> NoPriority\<close> lone_scan [OF l keep due_scan [OF p]]
    by (simp add: data_chunk_def t1_def del: scan_priorities.simps)
  moreover have "txs_map ?t' = [(k, ?s2)]" using l by (simp add: t1_def put_tx_stream_def lone_def)
  moreover have "sent_total ?t' \<le> sent_total t + length bs"
    using sent_total_add [of "ts_priority s" "length bs" "put_tx_stream k ?s2 t1"] st by simp
  ultimately show ?thesis using t' by blast
qed

text \<open>The same stream later in the same datagram: nothing more to send.\<close>

lemma data_chunk_lone_sent:
  assumes t: "txs_ok t" "txs_map t = [(k, s)]" "sent_total t + 1 < 2 ^ 32"
    and p: "ts_fifo s = [p]" "ts_packetFifoIdx s = 0" "\<not> tp_isAcknowledged p" "now < tp_timeout_us p"
      "tp_datagramId p = ucast m" "now \<le> ts_fifoReturnTime_us s + rtt2 RTT_us"
  shows "\<exists>t'. data_chunk d now RTT_us m a t = Some (0, [], t', []) \<and> txs_ok t'
    \<and> (\<exists>i. txs_map t' = [(k, s\<lparr>ts_packetFifoIdx := i\<rparr>)] \<and> i \<le> 1) \<and> sent_total t' = sent_total t"
proof (cases "unat a \<le> g_chunkHeader_B")
  case True
  then show ?thesis using t p by (auto simp: data_chunk_def intro!: exI [of _ 0])
next
  case False
  let ?u = "update_streams t" and ?s = "s\<lparr>ts_packetFifoIdx := 1\<rparr>"
  have l: "lone k s ?u" using t by (intro lone_update)
  have keep: "processTxFifo d now s = (s, [])" using p by (intro keep_front) auto
  have sc: "scan_tx_fifo (length (ts_fifo s)) now RTT_us m s = (?s, False)"
    using p by (simp add: skip_packet_def Let_def)
  have ok: "txs_ok ?u" "map_of (txs_map ?u) k = Some s" using l by (auto simp: lone_def scan_inv_def)
  have s: "tx_ok s" "ts_priority s \<noteq> NoPriority" using txs_ok_lookup [OF ok] by auto
  have "data_chunk d now RTT_us m a t = Some (0, [], put_tx_stream k ?s ?u, [])"
    using False lone_scan [OF l keep sc] choose_lone [of "put_tx_stream k ?s ?u" "ts_priority s" False k now] t(3) s
    by (simp add: data_chunk_def del: scan_priorities.simps)
  moreover have "txs_ok (put_tx_stream k ?s ?u)" using ok s by (intro txs_ok_replace) simp_all
  moreover have "txs_map (put_tx_stream k ?s ?u) = [(k, ?s)]" using l by (simp add: lone_def put_tx_stream_def)
  ultimately show ?thesis by auto
qed


subsection \<open>The sender's datagram\<close>

lemma writeMetaChunk_idle:
  assumes "rxs_acks (c_rxStreams c) = []" "rxs_map (c_rxStreams c) = []"
  shows "writeMetaChunk now a c = Some (0, [], c, [])"
  using assms by (simp add: writeMetaChunk_def meta_chunk_def)

lemma fill_stop: "wr (of_nat n) s = Some (0, bs, s', evs) \<Longrightarrow> n \<noteq> 0 \<Longrightarrow> fill wr n s = Some ([], s', evs)"
  by (subst fill.simps) simp

lemma fill_once:
  assumes "wr (of_nat n) s = Some (w, bs, s', evs)" "0 < w" "w \<le> n"
    and "n \<noteq> w \<Longrightarrow> wr (of_nat (n - w)) s' = Some (0, bs', s'', evs')"
  shows "fill wr n s = Some (bs, if n = w then s' else s'', evs @ (if n = w then [] else evs'))"
  using assms by (subst fill.simps, subst fill.simps) (simp add: of_nat_diff)

lemma returned_time: "now \<le> ts_fifoReturnTime_us (returned now RTT_us s) + rtt2 RTT_us"
  by (simp add: returned_def rtt2_def)

text \<open>A sender whose only packet is due and that has nothing to acknowledge.\<close>

definition sender :: "tick \<Rightarrow> u8 \<Rightarrow> TxStream \<Rightarrow> TxPacket \<Rightarrow> Connection \<Rightarrow> bool" where
  "sender now k s p c \<longleftrightarrow> rxs_acks (c_rxStreams c) = [] \<and> rxs_map (c_rxStreams c) = []
     \<and> txs_ok (c_txStreams c) \<and> txs_map (c_txStreams c) = [(k, s)]
     \<and> due now (t_RTT_us (c_traffic c)) (n_txPacketsCount (c_cnt c) + 1) s p
     \<and> unat (tp_size_B p) + 34 \<le> unat (pm_PMTU_B (c_pmtu c)) \<and> unat (pm_PMTU_B (c_pmtu c)) < 65536
     \<and> sent_total (c_txStreams c) + unat (pm_PMTU_B (c_pmtu c)) < 2 ^ 32"

lemma nextDatagram_simps [simp]:
  "c_rxStreams (nextDatagram c) = c_rxStreams c" "c_txStreams (nextDatagram c) = c_txStreams c"
  "c_traffic (nextDatagram c) = c_traffic c" "c_onDelivered (nextDatagram c) = c_onDelivered c"
  "c_onReceived (nextDatagram c) = c_onReceived c" "c_pmtu (nextDatagram c) = c_pmtu c"
  "n_txPacketsCount (c_cnt (nextDatagram c)) = n_txPacketsCount (c_cnt c) + 1"
  by (simp_all add: nextDatagram_def set_txPacketsCount_def)

lemma store_header_simps [simp]:
  "c_rxStreams (store_header now b c) = c_rxStreams c" "c_txStreams (store_header now b c) = c_txStreams c"
  "c_traffic (store_header now b c) = c_traffic c" "c_onDelivered (store_header now b c) = c_onDelivered c"
  "c_onReceived (store_header now b c) = c_onReceived c"
  "drop sizeof_PacketHeader (c_txBuffer (store_header now b c)) = drop sizeof_PacketHeader b"
  "length (c_txBuffer (store_header now b c)) = sizeof_PacketHeader + (length b - sizeof_PacketHeader)"
  by (simp_all add: store_header_def start_rtt_request_def Let_def)

lemma same_idx: "ts_packetFifoIdx s = i \<Longrightarrow> s\<lparr>ts_packetFifoIdx := i\<rparr> = s"
  by (cases s) simp

text \<open>The data chunks of the datagram: the packet, and then nothing more.\<close>

lemma fill_sender:
  assumes c: "sender now k s p c"
  shows "\<exists>bs c3 i. fill (writeDataChunk now) (unat (pm_PMTU_B (c_pmtu c)) - 26) (nextDatagram c) = Some (bs, c3, [])
    \<and> small_chunk k p bs \<and> 0 < length bs \<and> c_onDelivered c3 = c_onDelivered c \<and> txs_ok (c_txStreams c3) \<and> i \<le> 1
    \<and> txs_map (c_txStreams c3) = [(k, (set_packet 0 (p\<lparr>tp_datagramId := ucast (n_txPacketsCount (c_cnt c) + 1),
         tp_begin_us := now\<rparr>) (returned now (t_RTT_us (c_traffic c)) s))\<lparr>ts_packetFifoIdx := i\<rparr>)]"
proof -
  define n where "n = unat (pm_PMTU_B (c_pmtu c))"
  define c1 where "c1 = nextDatagram c"
  let ?R = "t_RTT_us (c_traffic c)" and ?m = "n_txPacketsCount (c_cnt c) + 1"
  let ?s = "returned now ?R s"
  let ?s2 = "set_packet 0 (p\<lparr>tp_datagramId := ucast ?m, tp_begin_us := now\<rparr>) ?s"
  have due: "due now ?R ?m s p" and t: "txs_ok (c_txStreams c)" "txs_map (c_txStreams c) = [(k, s)]"
    and n: "unat (tp_size_B p) + 34 \<le> n" "n < 65536" "sent_total (c_txStreams c) + n < 2 ^ 32"
    using c by (auto simp: sender_def n_def)
  have s: "tx_ok s" "ts_id s = k" "ts_fifo s = [p]" using txs_ok_lookup [OF t(1), of k s] t(2) due by (auto simp: due_def)
  then have pok: "tx_packet_ok p" by (simp add: tx_ok_def)
  obtain bs where bs: "small_packet_bytes ?s p = Some bs"
    using pok by (auto simp: small_packet_bytes_def write_data_def mem_read_def tx_packet_ok_def Let_def)
  have small: "unat (tp_size_B p) < 65536" using n by linarith
  then have chunk: "small_chunk k p bs" using pok bs s(2) by (auto simp: small_chunk_def returned_def intro!: exI [of _ ?s])
  have fits: "length bs \<le> n - 26" "0 < length bs" "26 \<le> n"
    using small_packet_length [OF bs] getNumberOfBits_small [OF small] n(1) by auto
  have u: "unat (of_nat (n - 26) :: u32) = n - 26" using n(2) by (intro unat_of_nat_small) simp
  obtain t1 where t1: "data_chunk (c_onDelivered c) now ?R ?m (of_nat (n - 26)) (c_txStreams c) = Some (length bs, bs, t1, [])"
    "txs_ok t1" "txs_map t1 = [(k, ?s2)]" "sent_total t1 \<le> sent_total (c_txStreams c) + length bs"
    using data_chunk_lone_due [OF t _ due bs small, of "of_nat (n - 26)" "c_onDelivered c"] n(3) fits u by auto
  let ?c2 = "c1\<lparr>c_txStreams := t1\<rparr>"
  have w1: "writeDataChunk now (of_nat (n - 26)) c1 = Some (length bs, bs, ?c2, [])"
    using t1(1) by (simp add: writeDataChunk_def c1_def)
  have sum: "sent_total t1 + 1 < 2 ^ 32" using n(3) t1(4) fits by linarith
  have p2: "ts_fifo ?s2 = [p\<lparr>tp_datagramId := ucast ?m, tp_begin_us := now\<rparr>]" "ts_packetFifoIdx ?s2 = 0"
    "now \<le> ts_fifoReturnTime_us ?s2 + rtt2 ?R"
    using s(3) due returned_time [of now ?R s] by (simp_all add: set_packet_def due_def) (simp_all add: returned_def)
  obtain t2 i where t2: "data_chunk (c_onDelivered c) now ?R ?m (of_nat (n - 26 - length bs)) t1 = Some (0, [], t2, [])"
    "txs_ok t2" "txs_map t2 = [(k, ?s2\<lparr>ts_packetFifoIdx := i\<rparr>)]" "i \<le> 1"
    using data_chunk_lone_sent [OF t1(2,3) sum p2(1,2) _ _ _ p2(3), where m = ?m and d = "c_onDelivered c"
        and a = "of_nat (n - 26 - length bs)"] due unfolding due_def by auto
  have w2: "writeDataChunk now (of_nat (n - 26 - length bs)) ?c2 = Some (0, [], ?c2\<lparr>c_txStreams := t2\<rparr>, [])"
    using t2(1) by (simp add: writeDataChunk_def c1_def)
  show ?thesis unfolding n_def [symmetric] c1_def [symmetric] fill_once [OF w1 fits(2,1) w2]
    using t1(2,3) t2(2,3,4) same_idx [OF p2(2)] chunk fits(2)
    by (intro exI [of _ bs] exI [of _ "if n - 26 = length bs then ?c2 else ?c2\<lparr>c_txStreams := t2\<rparr>"]
        exI [of _ "if n - 26 = length bs then 0 else i"]) (simp add: c1_def)
qed

lemma writePacket_sender:
  assumes c: "sender now k s p c"
  shows "\<exists>c' bs i. writePacket now False False c = Some (True, c', []) \<and> small_chunk k p bs
    \<and> drop sizeof_PacketHeader (c_txBuffer c') = bs \<and> length (c_txBuffer c') = sizeof_PacketHeader + length bs
    \<and> c_onDelivered c' = c_onDelivered c \<and> txs_ok (c_txStreams c') \<and> i \<le> 1
    \<and> txs_map (c_txStreams c') = [(k, (set_packet 0 (p\<lparr>tp_datagramId := ucast (n_txPacketsCount (c_cnt c) + 1),
         tp_begin_us := now\<rparr>) (returned now (t_RTT_us (c_traffic c)) s))\<lparr>ts_packetFifoIdx := i\<rparr>)]"
proof -
  define n where "n = unat (pm_PMTU_B (c_pmtu c))"
  define c1 where "c1 = nextDatagram c"
  obtain bs c3 i where data: "fill (writeDataChunk now) (n - 26) c1 = Some (bs, c3, [])"
    and rest: "small_chunk k p bs" "0 < length bs" "c_onDelivered c3 = c_onDelivered c" "txs_ok (c_txStreams c3)" "i \<le> 1"
      "txs_map (c_txStreams c3) = [(k, (set_packet 0 (p\<lparr>tp_datagramId := ucast (n_txPacketsCount (c_cnt c) + 1),
         tp_begin_us := now\<rparr>) (returned now (t_RTT_us (c_traffic c)) s))\<lparr>ts_packetFifoIdx := i\<rparr>)]"
    using fill_sender [OF c] unfolding n_def [symmetric] c1_def [symmetric] by blast
  have rx: "rxs_acks (c_rxStreams c) = []" "rxs_map (c_rxStreams c) = []" and n: "26 < n"
    using c by (auto simp: sender_def n_def)
  have meta: "fill (writeMetaChunk now) (n - 26) c1 = Some ([], c1, [])"
    using writeMetaChunk_idle [of c1] rx n by (intro fill_stop) (auto simp: c1_def)
  have body: "length (take 26 (vec_resize n (c_txBuffer c)) @ [] @ bs) = 26 + length bs"
    "drop 26 (take 26 (vec_resize n (c_txBuffer c)) @ [] @ bs) = bs" using n by simp_all
  have "writePacket now False False c = Some (True, store_header now (take 26 (vec_resize n (c_txBuffer c)) @ [] @ bs) c3, [])"
    unfolding writePacket_def Let_def n_def [symmetric] c1_def [symmetric]
    using meta data n rest(2) body(1) by simp
  then show ?thesis using body rest
    by (metis store_header_simps(2,4,6,7) add_diff_cancel_left')
qed

subsection \<open>The receiver's answer\<close>

text \<open>A receiver that has at most the stream \<open>k\<close>, waits for packet \<open>n\<close> on it, owes no acknowledgement
  and has nothing of its own to send.\<close>

definition receiver :: "u8 \<Rightarrow> u32 \<Rightarrow> Connection \<Rightarrow> bool" where
  "receiver k n c \<longleftrightarrow> rxs_ok (c_rxStreams c) \<and> awaiting k n (c_rxStreams c) \<and> rxs_acks (c_rxStreams c) = []
     \<and> (rxs_map (c_rxStreams c) = [] \<or> (\<exists>s. rxs_map (c_rxStreams c) = [(k, s)])) \<and> c_onReceived c \<noteq> None
     \<and> txs_ok (c_txStreams c) \<and> txs_map (c_txStreams c) = []
     \<and> 32 \<le> unat (pm_PMTU_B (c_pmtu c)) \<and> unat (pm_PMTU_B (c_pmtu c)) < 65536"

lemma open_rx_stream_keys:
  "rxs_map r = [] \<or> (\<exists>s. rxs_map r = [(k, s)]) \<Longrightarrow> \<exists>s. rxs_map (open_rx_stream now k r) = [(k, s)]"
  by (auto simp: open_rx_stream_def put_rx_stream_def Let_def)

lemma read_lone_chunk:
  assumes "small_chunk k p bs" "drop h buf = bs" "length buf = h + length bs" "unat size_B = length buf"
    and "receiver k (tp_id p) c" "tp_isReliable p"
  shows "\<exists>r s. read_chunks now th buf size_B h c =
      Some (c\<lparr>c_rxStreams := r\<rparr>, [Received 0 (Some (tp_pointer p)) (tp_size_B p) 0 k CHR ''s''])
    \<and> rxs_ok r \<and> rxs_acks r = [(k, tp_id p)] \<and> rxs_map r = [(k, s)] \<and> rs_fifo s = []"
proof -
  obtain s where s: "ts_id s = k" "small_packet_bytes s p = Some bs" "tx_packet_ok p" "unat (tp_size_B p) < 65536"
    using assms(1) by (auto simp: small_chunk_def)
  obtain f where c: "rxs_ok (c_rxStreams c)" "awaiting k (tp_id p) (c_rxStreams c)" "rxs_acks (c_rxStreams c) = []"
      "rxs_map (c_rxStreams c) = [] \<or> (\<exists>s. rxs_map (c_rxStreams c) = [(k, s)])" "c_onReceived c = Some f"
    using assms(5) by (auto simp: receiver_def)
  have len: "0 < length bs" using small_packet_length [OF s(2)] by simp
  have av: "length bs \<le> unat (size_B - of_nat h)" using assms(3,4) by (simp add: unat_sub_of_nat)
  let ?use = "rx_chunk now (t_RTT_us (c_traffic c)) k (tp_id p) (ts_packetFifoIdx s = 0) (tp_isReliable p)
      (use_small (Some f) now k (tp_id p) (tp_isReliable p) (tp_size_B p) (tp_pointer p)) (c_rxStreams c)"
  obtain r s' where r: "?use = Some (r, [Received 0 (Some (tp_pointer p)) (tp_size_B p) 0 k CHR ''s''])"
    "rxs_acks r = rxs_acks (push_ack (tp_isReliable p) k (tp_id p) (c_rxStreams c))"
    "rxs_map r = AList.update k s' (rxs_map (open_rx_stream now k (c_rxStreams c)))" "rs_fifo s' = []"
    using small_in_order [OF c(2)] by blast
  have "rxs_ok r"
    using small_handler.rx_chunk_ok [where r = "c_rxStreams c" and data = "tp_pointer p" and size_B = "tp_size_B p",
        OF _ c(1)] r(1) s(3) unfolding tx_packet_ok_def by (metis option.inject prod.inject)
  moreover have "rxs_acks r = [(k, tp_id p)]" using r(2) c(3) assms(6) by (simp add: push_ack_def)
  moreover have "rxs_map r = [(k, s')]" using r(3) open_rx_stream_keys [OF c(4), of now] by auto
  moreover have "readChunk now th (drop h buf) (size_B - of_nat h) c =
      Some (length bs, c\<lparr>c_rxStreams := r\<rparr>, [Received 0 (Some (tp_pointer p)) (tp_size_B p) 0 k CHR ''s''])"
    using read_written_small [OF s(3,4,2) av, of now th "[]" c] r(1) c(5)
    by (simp add: s(1) assms(2) on_rx_def)
  then have "read_chunks now th buf size_B h c =
      Some (c\<lparr>c_rxStreams := r\<rparr>, [Received 0 (Some (tp_pointer p)) (tp_size_B p) 0 k CHR ''s''])"
    using read_chunks_step [OF _ len] read_chunks_end [of size_B "h + length bs"] assms(3,4) len by simp
  ultimately show ?thesis using r(4) by blast
qed

lemma scan_rx_lone:
  assumes "rxs_ok r" "rxs_map r = [(k, s)]" "rs_fifo s = []"
  shows "\<exists>r'. scan_rx_streams 1 f now m a r = Some (0, [], r', []) \<and> rxs_acks r' = rxs_acks r"
  using rx_streams_next_spec [of r] assms
  by (auto simp: Let_def processRxFifo_Nil put_rx_stream_def rx_streams_next_def)

lemma data_chunk_empty:
  assumes "txs_ok t" "txs_map t = []"
  shows "data_chunk d now R m a t = Some (0, [], if unat a \<le> g_chunkHeader_B then t else update_streams t, [])"
proof -
  have "txs_ok (update_streams t)" "txs_map (update_streams t) = []" "\<not> txs_isStreamsChanged (update_streams t)"
    using assms by (auto simp: tx_inv_intros) (simp add: update_streams_def)
  then have "pm_vec (txs_vec (update_streams t) p) = []" for p
    by (auto simp: txs_ok_def keys_of_def)
  then show ?thesis by (simp add: data_chunk_def choose_priority_def Let_def)
qed

lemma writePacket_answer:
  assumes r: "rxs_ok (c_rxStreams c)" "rxs_acks (c_rxStreams c) = [(k, n)]"
      "rxs_map (c_rxStreams c) = [(k, s)]" "rs_fifo s = []"
    and t: "txs_ok (c_txStreams c)" "txs_map (c_txStreams c) = []"
    and P: "32 \<le> unat (pm_PMTU_B (c_pmtu c))" "unat (pm_PMTU_B (c_pmtu c)) < 65536"
  shows "\<exists>c'. writePacket now False False c = Some (True, c', [])
    \<and> drop sizeof_PacketHeader (c_txBuffer c') = chunk_header (mk_smallPacket True True False B8) k n
    \<and> length (c_txBuffer c') = sizeof_PacketHeader + g_chunkHeader_B"
proof -
  define N where "N = unat (pm_PMTU_B (c_pmtu c))"
  define c1 where "c1 = nextDatagram c"
  let ?b = "chunk_header (mk_smallPacket True True False B8) k n"
  let ?c2 = "c1\<lparr>c_rxStreams := (c_rxStreams c)\<lparr>rxs_acks := []\<rparr>\<rparr>"
  have N: "32 \<le> N" "N < 65536" using P by (simp_all add: N_def)
  have u: "unat (of_nat (N - 26) :: u32) = N - 26" using N(2) by (intro unat_of_nat_small) simp
  have lb: "length ?b = 6" by (simp add: chunk_header_def)
  have w1: "writeMetaChunk now (of_nat (N - 26)) c1 = Some (6, ?b, ?c2, [])"
    using r(2) N u by (simp add: writeMetaChunk_def meta_chunk_def c1_def)
  obtain r' where r': "scan_rx_streams 1 (c_onReceived c1) now (n_txPacketsCount (c_cnt c1)) (of_nat (N - 26 - 6))
      ((c_rxStreams c)\<lparr>rxs_acks := []\<rparr>) = Some (0, [], r', [])"
    using scan_rx_lone [of "(c_rxStreams c)\<lparr>rxs_acks := []\<rparr>" k s] r by (simp del: scan_rx_streams.simps) blast
  then have w2: "writeMetaChunk now (of_nat (N - 26 - 6)) ?c2 = Some (0, [], ?c2\<lparr>c_rxStreams := r'\<rparr>, [])"
    using r(3) by (simp add: writeMetaChunk_def meta_chunk_def del: scan_rx_streams.simps)
  let ?c3 = "if N - 26 = 6 then ?c2 else ?c2\<lparr>c_rxStreams := r'\<rparr>"
  have meta: "fill (writeMetaChunk now) (N - 26) c1 = Some (?b, ?c3, [])"
    using fill_once [OF w1 _ _ w2] N by simp
  have "c_txStreams ?c3 = c_txStreams c" by (simp add: c1_def)
  then have "\<exists>c4. fill (writeDataChunk now) (N - 26 - 6) ?c3 = Some ([], c4, [])"
    using data_chunk_empty [OF t] by (subst fill.simps) (auto simp: writeDataChunk_def)
  then obtain c4 where data: "fill (writeDataChunk now) (N - 26 - length ?b) ?c3 = Some ([], c4, [])"
    by (auto simp: lb)
  have body: "length (take 26 (vec_resize N (c_txBuffer c)) @ ?b @ []) = 32"
    "drop 26 (take 26 (vec_resize N (c_txBuffer c)) @ ?b @ []) = ?b" using N lb by simp_all
  have "?b \<noteq> []" using lb by force
  have "writePacket now False False c = Some (True, store_header now (take 26 (vec_resize N (c_txBuffer c)) @ ?b @ []) c4, [])"
    unfolding writePacket_def Let_def N_def [symmetric] c1_def [symmetric]
    using meta data N body(1) \<open>?b \<noteq> []\<close> by simp
  with body show ?thesis by (intro exI [of _ "store_header now (take 26 (vec_resize N (c_txBuffer c)) @ ?b @ []) c4"]) simp
qed


lemma read_answer:
  assumes "buf = h @ chunk_header (mk_smallPacket True True False B8) k (tp_id p)" "unat size_B = length buf"
    and t: "txs_ok (c_txStreams c)" "txs_map (c_txStreams c) = [(k, s)]" "ts_fifo s = [q]" "tp_id q = tp_id p"
  shows "\<exists>t s'. read_chunks now th buf size_B (length h) c = Some (c\<lparr>c_txStreams := t\<rparr>,
      notify_delivered (c_onDelivered c) (Delivered (tp_context q) (tp_pointer q) (tp_size_B q) k CHR ''s''))
    \<and> txs_map t = [(k, s')] \<and> ts_fifo s' = []"
proof -
  let ?b = "chunk_header (mk_smallPacket True True False B8) k (tp_id p)"
  have lb: "length ?b = 6" by (simp add: chunk_header_def)
  have s: "tx_ok s" "ts_id s = k" using txs_ok_lookup [OF t(1), of k s] t(2) by auto
  then have "ts_fifoShadow s = [tp_id p]" using t(3,4) by (simp add: tx_ok_def)
  then have f: "findPacketIdx (ts_fifoShadow s) (tp_id p) = Found 0"
    by (simp add: findPacketIdx_def find_loop_step)
  define s' where "s' = pop_front_tx (set_packet 0 (q\<lparr>tp_isAcknowledged := True\<rparr>) s)"
  have s': "ts_fifo s' = []" using t(3) by (simp add: s'_def pop_front_tx_def set_packet_def)
  have "processTxFifo (c_onDelivered c) now (set_packet 0 (q\<lparr>tp_isAcknowledged := True\<rparr>) s) =
      (s', notify_delivered (c_onDelivered c) (Delivered (tp_context q) (tp_pointer q) (tp_size_B q) k CHR ''s''))"
    using t(3) s(2) s' by (subst processTxFifo.simps, subst processTxFifo.simps) (simp add: set_packet_def s'_def)
  then have "read_acknowledge (c_onDelivered c) now k (tp_id p) (c_txStreams c) = Some (put_tx_stream k s' (c_txStreams c),
      notify_delivered (c_onDelivered c) (Delivered (tp_context q) (tp_pointer q) (tp_size_B q) k CHR ''s''))"
    using t f by (simp add: read_acknowledge_def with_tx_packet_def)
  moreover have len: "unat size_B = length h + 6" using assms(1,2) lb by simp
  then have "6 \<le> unat (size_B - of_nat (length h))" by (simp add: unat_sub_of_nat)
  moreover have "drop (length h) buf = ?b @ []" by (simp add: assms(1))
  ultimately have "readChunk now th (drop (length h) buf) (size_B - of_nat (length h)) c =
      Some (6, c\<lparr>c_txStreams := put_tx_stream k s' (c_txStreams c)\<rparr>,
      notify_delivered (c_onDelivered c) (Delivered (tp_context q) (tp_pointer q) (tp_size_B q) k CHR ''s''))"
    by (simp only: read_written_ack on_tx_def option.map prod.case)
  from read_chunks_step [OF this] have "read_chunks now th buf size_B (length h) c =
      Some (c\<lparr>c_txStreams := put_tx_stream k s' (c_txStreams c)\<rparr>,
      notify_delivered (c_onDelivered c) (Delivered (tp_context q) (tp_pointer q) (tp_size_B q) k CHR ''s''))"
    by (simp add: len read_chunks_end)
  moreover have "txs_map (put_tx_stream k s' (c_txStreams c)) = [(k, s')]" using t(2) by (simp add: put_tx_stream_def)
  ultimately show ?thesis using s' by blast
qed

text \<open>
  C3. End-to-end delivery of a small packet. The sender's next datagram carries the only packet of its
  queue; the receiver, reading that datagram, hands exactly the packet's bytes to the application and
  answers with a datagram that carries the acknowledgement; the sender, reading the answer, reports the
  packet as delivered once and its queue is empty. The packet is reliable and due when the sender writes; the
  other three calls happen at any clock values.
\<close>

theorem small_packet_delivered:
  assumes "sender t0 k s p a" "receiver k (tp_id p) b" "c_onDelivered a"
  shows "\<exists>a1 b1 b2 a2 s'. writePacket t0 False False a = Some (True, a1, [])
    \<and> read_chunks t1 th1 (c_txBuffer a1) (of_nat (length (c_txBuffer a1))) sizeof_PacketHeader b =
        Some (b1, [Received 0 (Some (tp_pointer p)) (tp_size_B p) 0 k CHR ''s''])
    \<and> writePacket t2 False False b1 = Some (True, b2, [])
    \<and> read_chunks t3 th3 (c_txBuffer b2) (of_nat (length (c_txBuffer b2))) sizeof_PacketHeader a1 =
        Some (a2, [Delivered (tp_context p) (tp_pointer p) (tp_size_B p) k CHR ''s''])
    \<and> txs_map (c_txStreams a2) = [(k, s')] \<and> ts_fifo s' = []"
proof -
  have p: "ts_fifo s = [p]" "tp_isReliable p" and P: "unat (tp_size_B p) + 34 < 65536"
    using assms(1) by (auto simp: sender_def due_def)
  obtain a1 bs i where a1: "writePacket t0 False False a = Some (True, a1, [])" "small_chunk k p bs"
    "drop sizeof_PacketHeader (c_txBuffer a1) = bs" "length (c_txBuffer a1) = sizeof_PacketHeader + length bs"
    "c_onDelivered a1" "txs_ok (c_txStreams a1)"
    "txs_map (c_txStreams a1) = [(k, (set_packet 0 (p\<lparr>tp_datagramId := ucast (n_txPacketsCount (c_cnt a) + 1),
       tp_begin_us := t0\<rparr>) (returned t0 (t_RTT_us (c_traffic a)) s))\<lparr>ts_packetFifoIdx := i\<rparr>)]"
    using writePacket_sender [OF assms(1)] assms(3) by auto
  have "length bs < 70000"
    using a1(2) P getNumberOfBytes_bounds(2) [of "getNumberOfBits (tp_size_B p)"]
    by (auto simp: small_chunk_def dest!: small_packet_length)
  then have n1: "unat (of_nat (length (c_txBuffer a1)) :: u32) = length (c_txBuffer a1)"
    by (intro unat_of_nat_u32) (simp add: a1(4))
  obtain r s1 where r: "read_chunks t1 th1 (c_txBuffer a1) (of_nat (length (c_txBuffer a1))) sizeof_PacketHeader b =
      Some (b\<lparr>c_rxStreams := r\<rparr>, [Received 0 (Some (tp_pointer p)) (tp_size_B p) 0 k CHR ''s''])"
    "rxs_ok r" "rxs_acks r = [(k, tp_id p)]" "rxs_map r = [(k, s1)]" "rs_fifo s1 = []"
    using read_lone_chunk [OF a1(2-4) n1 assms(2) p(2)] by blast
  obtain b2 where b2: "writePacket t2 False False (b\<lparr>c_rxStreams := r\<rparr>) = Some (True, b2, [])"
    "drop sizeof_PacketHeader (c_txBuffer b2) = chunk_header (mk_smallPacket True True False B8) k (tp_id p)"
    "length (c_txBuffer b2) = sizeof_PacketHeader + g_chunkHeader_B"
    using writePacket_answer [of "b\<lparr>c_rxStreams := r\<rparr>" k "tp_id p" s1 t2] r assms(2) by (auto simp: receiver_def)
  let ?h = "take sizeof_PacketHeader (c_txBuffer b2)"
  let ?q = "p\<lparr>tp_datagramId := ucast (n_txPacketsCount (c_cnt a) + 1), tp_begin_us := t0\<rparr>"
  have buf: "c_txBuffer b2 = ?h @ chunk_header (mk_smallPacket True True False B8) k (tp_id p)"
    using b2(2) by (metis append_take_drop_id)
  have h: "length ?h = sizeof_PacketHeader" using b2(3) by simp
  have n2: "unat (of_nat (length (c_txBuffer b2)) :: u32) = length (c_txBuffer b2)"
    by (intro unat_of_nat_u32) (simp add: b2(3))
  have q: "ts_fifo ((set_packet 0 ?q (returned t0 (t_RTT_us (c_traffic a)) s))\<lparr>ts_packetFifoIdx := i\<rparr>) = [?q]"
    using p(1) by (simp add: set_packet_def returned_def)
  obtain t s' where "read_chunks t3 th3 (c_txBuffer b2) (of_nat (length (c_txBuffer b2))) sizeof_PacketHeader a1 =
      Some (a1\<lparr>c_txStreams := t\<rparr>, [Delivered (tp_context p) (tp_pointer p) (tp_size_B p) k CHR ''s''])"
    "txs_map t = [(k, s')]" "ts_fifo s' = []"
    using read_answer [OF buf n2 a1(6,7) q, of t3 th3] a1(5) by (auto simp: notify_delivered_def h simp del: length_take)
  then show ?thesis using a1(1) r(1) b2(1) by fastforce
qed

definition example_sender :: Connection where
  "example_sender = doCommands (setOnDelivered True (the (snd (send_ts 9 (Some [1, 2, 3]) 3 True 4 5000 1000
     (Some (partialReset Connection_init))))))"

definition example_receiver :: Connection where
  "example_receiver = doCommands (setOnReceived (Some (\<lambda>_ _ _ _ _ _. 0)) (partialReset Connection_init))"

lemma example_sender_eq: "example_sender = (partialReset Connection_init)\<lparr>c_onDelivered := True,
    c_txStreams := run_send 9 [1, 2, 3] 3 True 4 5000 1000 TxStreams_init\<rparr>"
  by (simp add: example_sender_def send_ts_def setOnDelivered_def doCommands.simps run_command_def
      partialReset_def Connection_init_def)

lemma example_receiver_eq: "example_receiver = (partialReset Connection_init)\<lparr>c_onReceived := Some (\<lambda>_ _ _ _ _ _. 0)\<rparr>"
  by (simp add: example_receiver_def setOnReceived_def doCommands.simps run_command_def partialReset_def Connection_init_def)

lemma partialReset_Connection_init:
  "c_rxStreams (partialReset Connection_init) = RxStreams_init" "c_txStreams (partialReset Connection_init) = TxStreams_init"
  "pm_PMTU_B (c_pmtu (partialReset Connection_init)) = 1172" "t_RTT_us (c_traffic (partialReset Connection_init)) = 1000"
  "n_txPacketsCount (c_cnt (partialReset Connection_init)) = 0"
  by (simp_all add: partialReset_def Connection_init_def Pmtu_init_def Counters_init_def Traffic_init_def)

definition example_packet :: TxPacket where
  "example_packet = TxPacket_init\<lparr>tp_copy := [1, 2, 3], tp_pointer := [1, 2, 3], tp_size_B := 3,
     tp_timeout_us := 5001000, tp_id := 0, tp_isReliable := True, tp_context := 9\<rparr>"

definition example_stream :: TxStream where
  "example_stream = TxStream_init\<lparr>ts_isNew := False, ts_id := 4, ts_fifo := [example_packet], ts_nextPacketId := 1,
     ts_fifoShadow := [0]\<rparr>"

lemma example_sender_ok: "sender 5000 4 example_stream example_packet example_sender"
proof -
  let ?t = "run_send 9 [1, 2, 3] 3 True 4 5000 1000 TxStreams_init"
  have "txs_ok ?t" by (intro tx_inv_intros) simp_all
  moreover have "txs_map ?t = [(4, example_stream)]" "sent_total ?t = 0"
    by (simp_all add: run_send_def open_tx_stream_def tx_stream_at_def put_tx_stream_def TxStreams_init_def
        example_stream_def example_packet_def TxStream_init_def TxPacket_init_def PriorityMeta_init_def sent_total_def Let_def)
  moreover have "due 5000 1000 1 example_stream example_packet"
    by (simp add: due_def example_stream_def example_packet_def TxStream_init_def TxPacket_init_def rtt2_def)
  ultimately show ?thesis
    by (simp add: sender_def example_sender_eq partialReset_Connection_init RxStreams_init_def example_packet_def)
qed

lemma example_receiver_ok: "receiver 4 0 example_receiver"
proof -
  have "awaiting 4 0 RxStreams_init" by (simp add: awaiting_def rx_stream_at_def RxStreams_init_def)
  then show ?thesis
    by (simp add: receiver_def example_receiver_eq partialReset_Connection_init rx_inv_intros tx_inv_intros)
       (simp add: RxStreams_init_def TxStreams_init_def)
qed

theorem small_packet_delivered_witness:
  "\<exists>a1 b1 b2 a2 s'. writePacket 5000 False False example_sender = Some (True, a1, [])
    \<and> read_chunks 6000 0x100000 (c_txBuffer a1) (of_nat (length (c_txBuffer a1))) sizeof_PacketHeader example_receiver =
        Some (b1, [Received 0 (Some [1, 2, 3]) 3 0 4 CHR ''s''])
    \<and> writePacket 7000 False False b1 = Some (True, b2, [])
    \<and> read_chunks 8000 0x100000 (c_txBuffer b2) (of_nat (length (c_txBuffer b2))) sizeof_PacketHeader a1 =
        Some (a2, [Delivered 9 [1, 2, 3] 3 4 CHR ''s''])
    \<and> txs_map (c_txStreams a2) = [(4, s')] \<and> ts_fifo s' = []"
  using small_packet_delivered [OF example_sender_ok, of example_receiver 6000 "0x100000" 7000 8000 "0x100000"]
    example_receiver_ok by (simp add: example_packet_def example_sender_eq)

text \<open>In-order delivery of a datagram. A datagram holds, after its header, the small chunks of
  packets with consecutive identifiers, as the sender wrote them, starting with the one the receiver
  waits for; identifiers may wrap around. Reading it reports every packet to the application exactly
  once, whole, in the order of the identifiers, and the receiver then waits for the identifier after
  the last one.\<close>

lemma datagram_in_order:
  assumes "list_all2 (small_chunk k) ps bss" "map tp_id ps = map (\<lambda>i. n + of_nat i) [0 ..< length ps]"
    and "awaiting k n (c_rxStreams c)" "c_onReceived c = Some f"
    and "drop sizeof_PacketHeader buf = concat bss" "unat size_B = length buf" "sizeof_PacketHeader \<le> length buf"
  shows "\<exists>c'. read_chunks now th buf size_B sizeof_PacketHeader c =
      Some (c', map (\<lambda>p. Received 0 (Some (tp_pointer p)) (tp_size_B p) 0 k CHR ''s'') ps)
    \<and> awaiting k (n + of_nat (length ps)) (c_rxStreams c')"
  using assms by (rule read_chunks_in_order)

definition example_chunk :: "u32 \<Rightarrow> bytes" where
  "example_chunk i = the (small_packet_bytes example_stream (example_packet\<lparr>tp_id := i\<rparr>))"

lemma example_chunk_ok: "small_chunk 4 (example_packet\<lparr>tp_id := i\<rparr>) (example_chunk i)" "length (example_chunk i) = 10"
proof -
  have b: "small_packet_bytes example_stream (example_packet\<lparr>tp_id := i\<rparr>) = Some (example_chunk i)"
    by (simp add: example_chunk_def small_packet_bytes_def write_data_def mem_read_def example_packet_def Let_def)
  then show "small_chunk 4 (example_packet\<lparr>tp_id := i\<rparr>) (example_chunk i)"
    by (auto simp: small_chunk_def tx_packet_ok_def example_packet_def example_stream_def intro!: exI [of _ example_stream])
  show "length (example_chunk i) = 10"
    using small_packet_length [OF b] by (simp add: example_packet_def getNumberOfBits_def masked_def code_bits_def)
qed

end
