(* ===== verification/Udsp_Lifecycle.thy ===== *)
theory Udsp_Lifecycle
  imports Udsp_Socket Udsp_Keep Udsp_Exchange
begin

text \<open>
  The life of a socket: its operations as a step relation, an invariant that every step keeps whatever
  datagrams arrive, and what the application is told. The calls of the application and the parts of
  the worker thread's round are steps that exclude one another, as the mutex makes them where the code
  takes it. The two callbacks of the socket are set before the first step: setting them is not
  synchronised with the worker thread.
\<close>

subsection \<open>Steps\<close>

text \<open>The clock counts microseconds and stays away from \<open>INT64_MAX\<close>, the code's mark for never.\<close>

definition clock_ok :: "tick \<Rightarrow> bool" where
  "clock_ok now_us \<longleftrightarrow> 0 \<le> now_us \<and> now_us < INT64_MAX - 4000000"

text \<open>What the caller of \<open>send\<close> promises: the pointer is null or has \<open>size_B\<close> bytes.\<close>

definition data_ok :: "bytes option \<Rightarrow> u64 \<Rightarrow> bool" where
  "data_ok data size_B \<longleftrightarrow> (case data of None \<Rightarrow> True | Some bs \<Rightarrow> length bs = unat size_B \<and> unat size_B < 2 ^ 63)"

text \<open>The socket's counters after the work for one connection.\<close>

definition work_done :: "tick \<Rightarrow> bool \<Rightarrow> Impl \<Rightarrow> Impl" where
  "work_done spent second i =
     (let i = (if second then i\<lparr>i_TPS := 0, i_spent_us := 0\<rparr> else i) in i\<lparr>i_spent_us := i_spent_us i + spent\<rparr>)"

inductive sock_step :: "Impl \<Rightarrow> effect list \<Rightarrow> Impl \<Rightarrow> bool" where
  step_connect: "socket_connect dontFragment newId port address i = (r, i', outs) \<Longrightarrow> sock_step i outs i'"
| step_disconnect: "impl_disconnect i = (r, i') \<Longrightarrow> sock_step i [] i'"
| step_listen: "impl_listen bound dontFragment localPort i = (r, i', outs) \<Longrightarrow> sock_step i outs i'"
| step_stop: "impl_stop i = (i', outs) \<Longrightarrow> sock_step i outs i'"
| step_tick: "i_isRunning i \<Longrightarrow> sock_step i [] (i\<lparr>i_TPS := i_TPS i + 1\<rparr>)"
| step_receive: "i_isRunning i \<Longrightarrow> clock_ok now_us
    \<Longrightarrow> onUdpReceived clock now_us data size_B port IPv4 i = Some (i', outs) \<Longrightarrow> sock_step i outs i'"
| step_timers: "i_isRunning i \<Longrightarrow> clock_ok now_us \<Longrightarrow> process_ts now_us i = (i', outs) \<Longrightarrow> sock_step i outs i'"
| step_work: "i_isRunning i \<Longrightarrow> map_of (i_connections i) key = Some c
    \<Longrightarrow> process_connection k (i_isTestBandwidthEnabled i) c = Some (c', outs, second)
    \<Longrightarrow> sock_step i outs (work_done (k_end k - k_now k) second (put_connection key c' i))"
| step_send: "map_of (i_connections i) key = Some c \<Longrightarrow> data_ok data size_B
    \<Longrightarrow> send_ts ctx data size_B copy streamId timeout_ms now_us (Some c) = (r, Some c')
    \<Longrightarrow> sock_step i [] (put_connection key c' i)"
| step_priority: "map_of (i_connections i) key = Some c
    \<Longrightarrow> sock_step i [] (put_connection key (setTxStreamPriority_ts streamId priority c) i)"
| step_onDelivered: "map_of (i_connections i) key = Some c
    \<Longrightarrow> sock_step i [] (put_connection key (setOnDelivered delivered c) i)"
| step_onReceived: "map_of (i_connections i) key = Some c
    \<Longrightarrow> sock_step i [] (put_connection key (setOnReceived received c) i)"
| step_speedLimit: "map_of (i_connections i) key = Some c \<Longrightarrow> setTxSpeedLimit_B_s limit_B_s (Some c) = Some c'
    \<Longrightarrow> sock_step i [] (put_connection key c' i)"
| step_threshold: "sock_step i [] (setRxPacketBufferSizeThreshold_B threshold_B i)"
| step_bandwidth: "sock_step i [] (setTestBandwidthState isEnabled i)"

text \<open>A sequence of steps through states that satisfy \<open>P\<close>, with all their effects.\<close>

inductive sock_run :: "(Impl \<Rightarrow> bool) \<Rightarrow> Impl \<Rightarrow> effect list \<Rightarrow> Impl \<Rightarrow> bool" for P where
  run_start: "P i \<Longrightarrow> sock_run P i [] i"
| run_step: "sock_run P i outs i' \<Longrightarrow> sock_step i' outs' i'' \<Longrightarrow> P i'' \<Longrightarrow> sock_run P i (outs @ outs') i''"

subsection \<open>The invariant\<close>

text \<open>An entry of a server's map: it is never asked to disconnect, a connected one is not about to be
  erased and has its key as identifier, and while the worker runs each one is connected or about to
  be erased.\<close>

definition entry_ok :: "bool \<Rightarrow> u64 \<Rightarrow> tick \<times> tick \<times> bool \<times> u64 \<Rightarrow> bool" where
  "entry_ok running key l \<longleftrightarrow> (case l of (lastPacket, nextErase, requested, connectionId) \<Rightarrow>
     \<not> requested \<and> (lastPacket \<noteq> INT64_MAX \<longrightarrow> nextErase = INT64_MAX \<and> connectionId = key)
     \<and> (running \<and> nextErase = INT64_MAX \<longrightarrow> lastPacket \<noteq> INT64_MAX))"

definition conns_inv :: "bool \<Rightarrow> bool \<Rightarrow> (u64 \<times> Connection) list \<Rightarrow> bool" where
  "conns_inv server running cs \<longleftrightarrow> distinct (map fst cs)
     \<and> (\<forall>(key, c) \<in> set cs. conn_good c \<and> (server \<longrightarrow> entry_ok running key (life c)))"

definition sock_inv :: "Impl \<Rightarrow> bool" where
  "sock_inv i \<longleftrightarrow> conns_inv (i_isServer i) (i_isRunning i) (i_connections i)"

lemma conns_inv_lookup:
  assumes "conns_inv server running cs" "map_of cs key = Some c"
  shows "conn_good c" "server \<Longrightarrow> entry_ok running key (life c)"
  using assms map_of_SomeD [OF assms(2)] by (auto simp: conns_inv_def)

lemma conns_inv_update:
  assumes "conns_inv server running cs" "conn_good c" "server \<Longrightarrow> entry_ok running key (life c)"
  shows "conns_inv server running (AList.update key c cs)"
proof -
  have "(k, d) \<in> set (AList.update key c cs) \<Longrightarrow> (k, d) = (key, c) \<or> (k, d) \<in> set cs" for k d
    by (induction cs) (auto split: if_splits)
  with assms show ?thesis by (fastforce simp: conns_inv_def distinct_update)
qed

lemma sock_inv_put:
  "sock_inv i \<Longrightarrow> conn_good c \<Longrightarrow> (i_isServer i \<Longrightarrow> entry_ok (i_isRunning i) key (life c))
   \<Longrightarrow> sock_inv (put_connection key c i)"
  by (simp add: sock_inv_def put_connection_def conns_inv_update)

lemma sock_inv_replace:
  assumes "sock_inv i" "map_of (i_connections i) key = Some c" "conn_good c \<Longrightarrow> conn_good c'" "life c' = life c"
  shows "sock_inv (put_connection key c' i)"
  using assms conns_inv_lookup [OF _ assms(2)] by (intro sock_inv_put) (auto simp: sock_inv_def)

lemma conn_good_command:
  "conn_good c \<Longrightarrow> cmd_ok cmd \<Longrightarrow> conn_good (c\<lparr>c_commands := c_commands c @ [cmd]\<rparr>)"
  by (simp add: conn_good_def)

lemma conn_good_new: "conn_good (initConnection port IPv4 (Connection_init\<lparr>c_connectionId := n\<rparr>))"
  unfolding initConnection_def
proof (rule partialReset_good)
  show "conn_ok (Connection_init\<lparr>c_connectionId := n, c_port := port, c_IPv4 := IPv4\<rparr>)"
    by (simp add: conn_ok_def Connection_init_def txs_ok_init) (simp add: rxs_ok_def RxStreams_init_def)
qed (simp_all add: Connection_init_def pmtu_pre_def Pmtu_init_def)

lemma conn_good_init:
  assumes "conn_good c"
  shows "conn_good (initConnection port IPv4 c)"
  using conn_good_reset [of "c\<lparr>c_port := port, c_IPv4 := IPv4\<rparr>"] assms by (simp add: initConnection_def)

lemma life_init [simp]: "life (initConnection port IPv4 c) = life c"
  by (simp add: initConnection_def partialReset_def life_def)

subsection \<open>Every step keeps the invariant\<close>

lemma conns_inv_client: "conns_inv server running cs \<Longrightarrow> conns_inv False running' cs"
  by (auto simp: conns_inv_def)

lemma connect_inv:
  assumes "sock_inv i" "impl_connect dontFragment newId port IPv4 i = (r, i', outs)"
  shows "sock_inv i'"
proof (cases dontFragment)
  case False
  then show ?thesis using assms by (simp add: impl_connect_def)
next
  case True
  show ?thesis
  proof (cases "i_connections i")
    case Nil
    have "i' = put_connection 0 (initConnection port IPv4 (Connection_init\<lparr>c_connectionId := newId\<rparr>))
        (i\<lparr>i_localPort := 0, i_isServer := False, i_connections := [(0, Connection_init)]\<rparr>)"
      using assms(2) True Nil by (simp add: impl_connect_def Let_def) (simp add: Connection_init_def)
    then show ?thesis using conn_good_new by (simp add: sock_inv_def put_connection_def conns_inv_def)
  next
    case (Cons kc cs)
    obtain key c where kc: "kc = (key, c)" by fastforce
    have inv: "sock_inv (i\<lparr>i_localPort := 0, i_isServer := False\<rparr>)" and c: "conn_good c"
      using assms(1) Cons kc by (auto simp: sock_inv_def conns_inv_def)
    have put: "sock_inv (put_connection key (initConnection port IPv4 (d\<lparr>c_connectionId := newId\<rparr>))
        (i\<lparr>i_localPort := 0, i_isServer := False\<rparr>))" if "conn_good d" for d
      using inv that by (intro sock_inv_put conn_good_init) simp_all
    have "conn_good (fst (conn_onDisconnected c))" using onDisconnected_good [OF c] by simp
    then show ?thesis using assms(2) True Cons kc inv c put
      by (auto simp: impl_connect_def Let_def case_prod_beta split: if_splits)
  qed
qed

lemma disconnect_inv:
  assumes "sock_inv i" "impl_disconnect i = (r, i')"
  shows "sock_inv i'"
proof (cases "impl_isConnected i")
  case False
  then show ?thesis using assms by (simp add: impl_disconnect_def)
next
  case True
  then obtain key c cs where c: "i_connections i = (key, c) # cs" "\<not> i_isServer i"
    by (auto simp: impl_isConnected_def clientConnection_def split: if_splits list.splits)
  have "sock_inv (put_connection key (c\<lparr>c_isDisconnectRequested := True\<rparr>) i)"
    using assms(1) c by (intro sock_inv_put) (auto simp: sock_inv_def conns_inv_def)
  then show ?thesis using assms(2) True c by (simp add: impl_disconnect_def clientConnection_def)
qed

lemma listen_inv:
  assumes "sock_inv i" "impl_listen bound dontFragment localPort i = (r, i', outs)"
  shows "sock_inv i'"
  using assms by (auto simp: impl_listen_def sock_inv_def conns_inv_def Let_def split: if_splits)

lemma stop_connection_good:
  assumes "conn_good c"
  shows "conn_good (fst (stop_connection on key c))"
    "c_lastPacketTick_us (fst (stop_connection on key c)) = INT64_MAX"
    "c_isDisconnectRequested (fst (stop_connection on key c)) = c_isDisconnectRequested c"
  using assms onDisconnected_good [of "writeDisconnect (c\<lparr>c_lastPacketTick_us := INT64_MAX\<rparr>)"]
  by (auto simp: stop_connection_def conn_isConnected_def Let_def writeDisconnect_good case_prod_beta life_def)
    (simp_all add: writeDisconnect_def)

lemma stop_inv:
  assumes "sock_inv i" "impl_stop i = (i', outs)"
  shows "sock_inv i'"
proof -
  let ?stop = "\<lambda>key c. fst (stop_connection (i_onDisconnected i) key c)"
  have i': "i' = i\<lparr>i_isRunning := False, i_connections := map (\<lambda>(key, c). (key, ?stop key c)) (i_connections i)\<rparr>"
    using assms(2) by (simp add: impl_stop_def)
  have "conn_good (?stop key c) \<and> (i_isServer i \<longrightarrow> entry_ok False key (life (?stop key c)))"
    if "(key, c) \<in> set (i_connections i)" for key c
  proof -
    have c: "conn_good c" "i_isServer i \<longrightarrow> \<not> c_isDisconnectRequested c"
      using assms(1) that by (auto simp: sock_inv_def conns_inv_def entry_ok_def life_def)
    show ?thesis using stop_connection_good [OF c(1)] c(2) by (simp add: entry_ok_def life_def)
  qed
  moreover have "map fst (map (\<lambda>(key, c). (key, ?stop key c)) (i_connections i)) = map fst (i_connections i)"
    by (simp add: case_prod_beta)
  ultimately show ?thesis
    using assms(1) unfolding i' sock_inv_def conns_inv_def by (simp del: map_map) auto
qed

lemma receive_disconnect_inv:
  assumes "sock_inv i" "clock_ok now" "receive_disconnect now n i = (i', outs)"
  shows "sock_inv i'"
proof (cases "map_of (i_connections i) n")
  case None
  then show ?thesis using assms by (simp add: receive_disconnect_def)
next
  case (Some c)
  note c = conns_inv_lookup [OF assms(1) [unfolded sock_inv_def] Some]
  define d where "d = (partialReset c)\<lparr>c_nextEraseTick_us := now + 2000000, c_lastPacketTick_us := INT64_MAX\<rparr>"
  have "c_isDisconnectRequested d = c_isDisconnectRequested c" "conn_good d"
    using c(1) conn_good_reset by (simp_all add: d_def) (simp add: partialReset_def)
  then have "sock_inv (put_connection n (fst (conn_onDisconnected d)) i)"
    using assms(1) c(2) onDisconnected_good [of d] assms(2)
    by (intro sock_inv_put) (auto simp: entry_ok_def life_def clock_ok_def d_def)
  then show ?thesis using assms Some
    by (auto simp: receive_disconnect_def d_def [symmetric] case_prod_beta Let_def split: if_splits)
qed

lemma select_connection_good:
  assumes "sock_inv i" "select_connection n port IPv4 i = Some (key, c)"
  shows "conn_good c"
proof (cases "i_isServer i")
  case True
  have "conn_good d" if "map_of (i_connections i) n = Some d" for d
    using conns_inv_lookup(1) [OF assms(1) [unfolded sock_inv_def] that] .
  moreover have "c_IPv4 Connection_init = 0" by (simp add: Connection_init_def)
  ultimately show ?thesis
    using True assms(2) conn_good_new conn_good_init
    by (cases "map_of (i_connections i) n")
      (auto simp: select_connection_def serverConnection_def Let_def split: if_splits)
next
  case False
  then show ?thesis using assms
    by (auto simp: select_connection_def clientConnection_def sock_inv_def conns_inv_def split: list.splits)
qed

text \<open>The entry a server picks: its own or a new one.\<close>

definition last_packet :: "Impl \<Rightarrow> u64 \<Rightarrow> tick" where
  "last_packet i key = (case map_of (i_connections i) key of None \<Rightarrow> INT64_MAX | Some c \<Rightarrow> c_lastPacketTick_us c)"

lemma select_connection_server:
  assumes inv: "sock_inv i" and sel: "select_connection n port IPv4 i = Some (key, c)"
    and server: "i_isServer i" "i_isRunning i"
    and alive: "\<forall>d. map_of (i_connections i) n = Some d \<longrightarrow> c_nextEraseTick_us d = INT64_MAX"
  shows "key = n" "life c = (last_packet i n, INT64_MAX, False, n)"
proof -
  show "key = n" using sel server by (simp add: select_connection_def Let_def)
  show "life c = (last_packet i n, INT64_MAX, False, n)"
  proof (cases "map_of (i_connections i) n")
    case None
    then show ?thesis using sel server
      by (auto simp: select_connection_def serverConnection_def Let_def last_packet_def Connection_init_def)
        (simp_all add: life_def)
  next
    case (Some d)
    have "entry_ok True n (life d)" "c_nextEraseTick_us d = INT64_MAX"
      using conns_inv_lookup(2) [OF inv [unfolded sock_inv_def] Some] server alive Some by simp_all
    then have "life d = (last_packet i n, INT64_MAX, False, n)"
      using Some by (simp add: entry_ok_def life_def last_packet_def)
    then show ?thesis using sel server Some
      by (auto simp: select_connection_def serverConnection_def Let_def life_init split: if_splits) (simp_all add: life_def)
  qed
qed

lemma receive_selected_inv:
  assumes inv: "sock_inv i" and run: "i_isRunning i" "clock_ok now"
    and alive: "\<forall>d. map_of (i_connections i) (h_connectionId h) = Some d \<longrightarrow> c_nextEraseTick_us d = INT64_MAX"
    and rcv: "receive_selected clock now h data size_B port IPv4 i = Some (i', outs)"
  shows "sock_inv i'"
proof (cases "select_connection (h_connectionId h) port IPv4 i")
  case None
  then show ?thesis using rcv inv by (simp add: receive_selected_def)
next
  case (Some kc)
  obtain key c where kc: "kc = (key, c)" by fastforce
  note sel = Some [unfolded kc]
  obtain c' outs' where r: "receive_datagram clock now (i_onConnected i) (i_rxPacketBufferSizeThreshold_B i) key h data size_B c
      = Some (c', outs')" "i' = put_connection key c' i"
    using rcv sel by (auto simp: receive_selected_def)
  note good = receive_datagram_good [OF select_connection_good [OF inv sel] r(1)]
  have "entry_ok (i_isRunning i) key (life c')" if "i_isServer i"
    using select_connection_server [OF inv sel that run(1) alive] good run
    by (auto simp: entry_ok_def life_def clock_ok_def)
  then show ?thesis unfolding r(2) using inv good by (intro sock_inv_put) auto
qed

lemma receive_inv:
  assumes "sock_inv i" "i_isRunning i" "clock_ok now" "onUdpReceived clock now data size_B port IPv4 i = Some (i', outs)"
  shows "sock_inv i'"
proof (cases "unat size_B < sizeof_PacketHeader")
  case True
  then show ?thesis using assms by (simp add: onUdpReceived_def)
next
  case False
  then obtain h rest where h: "read_header data = Some (h, rest)"
    using assms(4) by (auto simp: onUdpReceived_def split: option.splits)
  show ?thesis
  proof (cases "map_of (i_connections i) (h_connectionId h)")
    case None
    then show ?thesis
      using assms False h receive_disconnect_inv [OF assms(1,3)] receive_selected_inv [OF assms(1,2,3), of h]
      by (auto simp: onUdpReceived_def split: if_splits)
  next
    case (Some d)
    then show ?thesis
      using assms False h receive_disconnect_inv [OF assms(1,3)] receive_selected_inv [OF assms(1,2,3), of h]
      by (auto simp: onUdpReceived_def split: if_splits)
  qed
qed

lemma map_filter_keys:
  "set (map fst (List.map_filter (\<lambda>(key, c). map_option (Pair key) (f key c)) cs)) \<subseteq> set (map fst cs)"
  "distinct (map fst cs) \<Longrightarrow> distinct (map fst (List.map_filter (\<lambda>(key, c). map_option (Pair key) (f key c)) cs))"
proof -
  show sub: "set (map fst (List.map_filter (\<lambda>(key, c). map_option (Pair key) (f key c)) cs)) \<subseteq> set (map fst cs)" for cs
    by (induction cs) (auto simp: List.map_filter_simps split: option.splits)
  show "distinct (map fst cs) \<Longrightarrow> distinct (map fst (List.map_filter (\<lambda>(key, c). map_option (Pair key) (f key c)) cs))"
  proof (induction cs)
    case (Cons kc cs)
    then show ?case using sub [of cs] by (cases kc; cases "f (fst kc) (snd kc)") (auto simp: List.map_filter_simps)
  qed (simp add: List.map_filter_simps)
qed

lemma map_filter_lookup:
  "distinct (map fst cs) \<Longrightarrow> map_of (List.map_filter (\<lambda>(key, c). map_option (Pair key) (f key c)) cs) key
   = Option.bind (map_of cs key) (f key)"
proof (induction cs)
  case (Cons kc cs)
  obtain k c where kc: "kc = (k, c)" by fastforce
  have "key = k \<Longrightarrow> map_of (List.map_filter (\<lambda>(key, c). map_option (Pair key) (f key c)) cs) key = None"
    using Cons.prems map_filter_keys(1) [of f cs] kc by (auto simp: map_of_eq_None_iff)
  then show ?case using Cons kc by (cases "f k c") (auto simp: List.map_filter_simps)
qed (simp add: List.map_filter_simps)

lemma process_ts_connection_good:
  assumes c: "conn_good c" and now: "clock_ok now"
    and p: "fst (process_ts_connection now server on key c) = Some c'"
  shows "conn_good c'" "server \<Longrightarrow> entry_ok True key (life c) \<Longrightarrow> entry_ok True key (life c')"
proof -
  note d = doCommands_good [OF c]
  let ?d = "doCommands c"
  let ?e = "?d\<lparr>c_nextEraseTick_us := now + 2000000, c_lastPacketTick_us := INT64_MAX\<rparr>"
  have e: "conn_good (fst (conn_onDisconnected ?e))"
    "life (fst (conn_onDisconnected ?e)) = (INT64_MAX, now + 2000000, c_isDisconnectRequested ?d, 0)"
    using onDisconnected_good [of ?e] d by simp_all
  have reset: "conn_good (partialReset ?d)" using d conn_good_reset by simp
  consider "c' = ?d" | "c' = fst (conn_onDisconnected ?e)" "c_nextEraseTick_us ?d = INT64_MAX"
    | "c' = (partialReset ?d)\<lparr>c_nextEraseTick_us := INT64_MAX, c_lastPacketTick_us := INT64_MAX\<rparr>" "\<not> server"
    using p by (auto simp: process_ts_connection_def Let_def case_prod_beta split: if_splits)
  note cases = this
  show "conn_good c'" using cases d e(1) reset by (cases; simp)
  show "entry_ok True key (life c')" if "server" "entry_ok True key (life c)"
    using cases
  proof cases
    case 1
    then show ?thesis using d that by simp
  next
    case 2
    have "c_isDisconnectRequested ?d = c_isDisconnectRequested c" using d by (simp add: life_def)
    then show ?thesis using 2 e(2) now that by (simp add: entry_ok_def clock_ok_def life_def)
  qed (use that in simp)
qed

lemma timers_inv:
  assumes "sock_inv i" "i_isRunning i" "clock_ok now" "process_ts now i = (i', outs)"
  shows "sock_inv i'"
proof -
  let ?f = "\<lambda>key c. fst (process_ts_connection now (i_isServer i) (i_onDisconnected i) key c)"
  have i': "i' = i\<lparr>i_connections := List.map_filter (\<lambda>(key, c). map_option (Pair key) (?f key c)) (i_connections i)\<rparr>"
    using assms(4) by (simp add: process_ts_def Let_def)
  have "conn_good c' \<and> (i_isServer i \<longrightarrow> entry_ok True key (life c'))"
    if "(key, c) \<in> set (i_connections i)" "?f key c = Some c'" for key c c'
    using process_ts_connection_good [OF _ assms(3) that(2)] assms(1,2) that(1)
    by (auto simp: sock_inv_def conns_inv_def)
  moreover have "distinct (map fst (i_connections i'))"
    using map_filter_keys(2) [of "i_connections i" ?f] assms(1) by (simp add: i' sock_inv_def conns_inv_def)
  ultimately show ?thesis
    using assms(2) unfolding sock_inv_def conns_inv_def
    by (auto simp: i' List.map_filter_def)
qed

lemma process_connection_good:
  assumes "conn_good c" "process_connection k test c = Some (c', outs, second)"
  shows "conn_good c' \<and> life c' = life c \<and> quiet outs"
proof -
  let ?first = "if c_lastPacketTick_us c \<noteq> INT64_MAX then processConnection (k_pace k) test (k_now k) c else Some (c, [], False)"
  obtain c1 o1 s1 where c1: "?first = Some (c1, o1, s1)"
    using assms(2) by (cases ?first) (auto simp: process_connection_def)
  then obtain o2 where k: "keep_alive (k_keepAlive k) (k_now k) c1 = Some (c', o2)" "outs = o1 @ o2"
    using assms(2) by (auto simp: process_connection_def split: Option.bind_splits)
  have "conn_good c1 \<and> life c1 = life c \<and> quiet o1"
    using c1 assms(1) processConnection_good [OF assms(1)] by (cases "c_lastPacketTick_us c = INT64_MAX") auto
  then show ?thesis using keep_alive_good [OF _ k(1)] k(2) by simp
qed

lemma sock_inv_frame [simp]:
  "sock_inv (work_done spent second i) = sock_inv i" "sock_inv (i\<lparr>i_TPS := t\<rparr>) = sock_inv i"
  "sock_inv (i\<lparr>i_rxPacketBufferSizeThreshold_B := th\<rparr>) = sock_inv i"
  "sock_inv (i\<lparr>i_isTestBandwidthEnabled := tb\<rparr>) = sock_inv i"
  by (simp_all add: sock_inv_def work_done_def Let_def)

lemma send_good:
  assumes "conn_good c" "data_ok data size_B"
    "send_ts ctx data size_B copy streamId timeout_ms now (Some c) = (r, Some c')"
  shows "conn_good c'"
  using assms by (auto simp: send_ts_def data_ok_def cmd_ok_def conn_good_command split: option.splits if_splits)

lemma priority_of_char_some: "priority_of_char x = Some p \<Longrightarrow> p \<noteq> NoPriority"
  unfolding priority_of_char_def by (simp split: if_split_asm)

lemma priority_good: "conn_good c \<Longrightarrow> conn_good (setTxStreamPriority_ts streamId priority c)"
  using priority_of_char_some
  by (cases "priority_of_char priority") (auto simp: setTxStreamPriority_ts_def cmd_ok_def intro!: conn_good_command)

lemma setter_good:
  "conn_good c \<Longrightarrow> conn_good (setOnDelivered delivered c)" "conn_good c \<Longrightarrow> conn_good (setOnReceived received c)"
  unfolding setOnDelivered_def setOnReceived_def by (auto simp: cmd_ok_def intro!: conn_good_command)

lemma app_life:
  "life (setTxStreamPriority_ts streamId priority c) = life c" "life (setOnDelivered delivered c) = life c"
  "life (setOnReceived received c) = life c"
  "send_ts ctx data size_B copy k timeout_ms now (Some c) = (r, Some c') \<Longrightarrow> life c' = life c"
  "setTxSpeedLimit_B_s limit_B_s (Some c) = Some c' \<Longrightarrow> life c' = life c"
  by (auto simp: setTxStreamPriority_ts_def setOnDelivered_def setOnReceived_def send_ts_def
      setTxSpeedLimit_B_s_def life_def split: option.splits if_splits)

lemma sock_step_inv: "sock_step i outs i' \<Longrightarrow> sock_inv i \<Longrightarrow> sock_inv i'"
proof (induction rule: sock_step.induct)
  case (step_connect dontFragment newId port address i r i' outs)
  then show ?case using connect_inv [OF step_connect(2)] by (simp add: socket_connect_def split: if_splits)
next
  case (step_work i key c k c' outs second)
  have "conn_good c" using conns_inv_lookup(1) [OF step_work(4) [unfolded sock_inv_def] step_work(2)] .
  then show ?case using sock_inv_replace [OF step_work(4,2)] process_connection_good [OF _ step_work(3)] by simp
next
  case (step_send i key c data size_B ctx copy streamId timeout_ms now_us r c')
  then show ?case using sock_inv_replace [OF step_send(4,1)] send_good [OF _ step_send(2,3)] app_life(4) [OF step_send(3)] by simp
next
  case (step_priority i key c streamId priority)
  then show ?case using sock_inv_replace [OF step_priority(2,1)] priority_good app_life(1) by simp
next
  case (step_onDelivered i key c delivered)
  then show ?case using sock_inv_replace [OF step_onDelivered(2,1) _ app_life(2)] setter_good(1) by simp
next
  case (step_onReceived i key c received)
  then show ?case using sock_inv_replace [OF step_onReceived(2,1) _ app_life(3)] setter_good(2) by simp
next
  case (step_speedLimit i key c limit_B_s c')
  have "conn_good c \<Longrightarrow> conn_good c'" using step_speedLimit(2) by (auto simp: setTxSpeedLimit_B_s_def)
  then show ?case using sock_inv_replace [OF step_speedLimit(3,1) _ app_life(5) [OF step_speedLimit(2)]] by simp
next
  case (step_disconnect i r i')
  then show ?case using disconnect_inv by simp
next
  case (step_listen bound dontFragment localPort i r i' outs)
  then show ?case using listen_inv by simp
next
  case (step_stop i i' outs)
  then show ?case using stop_inv by simp
next
  case (step_receive i now_us clock data size_B port IPv4 i' outs)
  then show ?case using receive_inv by simp
next
  case (step_timers i now_us i' outs)
  then show ?case using timers_inv by simp
qed (simp_all add: setRxPacketBufferSizeThreshold_B_def setTestBandwidthState_def)

lemma sock_run_inv: "sock_run P i outs i' \<Longrightarrow> sock_inv i \<Longrightarrow> sock_inv i'"
  by (induction rule: sock_run.induct) (simp_all add: sock_step_inv)

lemma sock_inv_new: "sock_inv (setOnConnected a (setOnDisconnected b Impl_init))"
  by (simp add: sock_inv_def conns_inv_def setOnConnected_def setOnDisconnected_def Impl_init_def)

subsection \<open>The rounds of the worker thread\<close>

lemma sock_run_one: "P i \<Longrightarrow> sock_step i outs i' \<Longrightarrow> P i' \<Longrightarrow> sock_run P i outs i'"
  using run_step [OF run_start] by fastforce

lemma sock_run_trans: "sock_run P i' outs' i'' \<Longrightarrow> sock_run P i outs i' \<Longrightarrow> sock_run P i (outs @ outs') i''"
proof (induction rule: sock_run.induct)
  case (run_step j o1 j' o2 j'')
  then show ?case using sock_run.run_step [of P i "outs @ o1" j' o2 j''] by simp
qed simp

definition same_mode :: "Impl \<Rightarrow> Impl \<Rightarrow> bool" where
  "same_mode i i' \<longleftrightarrow> i_isRunning i' = i_isRunning i \<and> i_isServer i' = i_isServer i
     \<and> i_onConnected i' = i_onConnected i \<and> i_onDisconnected i' = i_onDisconnected i"

lemma same_mode_trans: "same_mode i i' \<Longrightarrow> same_mode i' i'' \<Longrightarrow> same_mode i i''"
  by (simp add: same_mode_def)

lemma same_mode_updates [simp]:
  "same_mode i (put_connection key c i')  = same_mode i i'" "same_mode i (work_done spent second i') = same_mode i i'"
  "same_mode i (i'\<lparr>i_TPS := t\<rparr>) = same_mode i i'" "same_mode i (i'\<lparr>i_connections := cs\<rparr>) = same_mode i i'"
  "same_mode i i"
  by (simp_all add: same_mode_def put_connection_def work_done_def Let_def)

lemma receive_mode:
  assumes "onUdpReceived clock now data size_B port IPv4 i = Some (i', outs)"
  shows "same_mode i i'"
  using assms
  by (auto simp: onUdpReceived_def receive_disconnect_def receive_selected_def case_prod_beta Let_def
      split: if_splits option.splits)

lemma timers_mode: "same_mode i (fst (process_ts now i))"
  by (simp add: process_ts_def Let_def)

lemma receive_all_run:
  "receive_all ds i = Some (i', outs) \<Longrightarrow> i_isRunning i0 \<Longrightarrow> same_mode i0 i
   \<Longrightarrow> \<forall>d \<in> set ds. clock_ok (snd (fst d)) \<Longrightarrow> sock_run (same_mode i0) i outs i'"
proof (induction ds arbitrary: i i' outs)
  case Nil
  then show ?case by (simp add: run_start)
next
  case (Cons d ds)
  obtain clock now data size_B port IPv4 where d: "d = ((clock, now), data, size_B, port, IPv4)" by (metis prod.exhaust)
  obtain i1 o1 o2 where r: "onUdpReceived clock now data size_B port IPv4 i = Some (i1, o1)"
      "receive_all ds i1 = Some (i', o2)" "outs = o1 @ o2"
    using Cons.prems(1) d by (auto split: Option.bind_splits)
  have m: "same_mode i0 i1" using same_mode_trans [OF Cons.prems(3) receive_mode [OF r(1)]] .
  have "i_isRunning i" "clock_ok now" using Cons.prems d by (simp_all add: same_mode_def)
  then have "sock_run (same_mode i0) i o1 i1" using sock_run_one [OF Cons.prems(3) step_receive [OF _ _ r(1)] m] by simp
  moreover have "sock_run (same_mode i0) i1 o2 i'" using Cons.IH [OF r(2) Cons.prems(2) m] Cons.prems(4) by simp
  ultimately show ?case unfolding r(3) by (rule sock_run_trans [rotated])
qed

lemma process_connections_run:
  "process_connections clocks kcs i = Some (i', outs) \<Longrightarrow> i_isRunning i0 \<Longrightarrow> same_mode i0 i
   \<Longrightarrow> distinct (map fst kcs) \<Longrightarrow> \<forall>(key, c) \<in> set kcs. map_of (i_connections i) key = Some c
   \<Longrightarrow> sock_run (same_mode i0) i outs i'"
proof (induction kcs arbitrary: i i' outs)
  case Nil
  then show ?case by (simp add: run_start)
next
  case (Cons kc kcs)
  obtain key c where kc: "kc = (key, c)" by fastforce
  obtain c1 o1 second where p: "process_connection (clocks key) (i_isTestBandwidthEnabled i) c = Some (c1, o1, second)"
    using Cons.prems(1) kc by (auto split: Option.bind_splits)
  let ?i = "work_done (k_end (clocks key) - k_now (clocks key)) second (put_connection key c1 i)"
  obtain o2 where r: "process_connections clocks kcs ?i = Some (i', o2)" "outs = o1 @ o2"
    using Cons.prems(1) kc p by (auto simp: work_done_def Let_def split: Option.bind_splits)
  have m: "same_mode i0 ?i" using Cons.prems(3) by simp
  have "i_isRunning i" "map_of (i_connections i) key = Some c" using Cons.prems kc by (simp_all add: same_mode_def)
  then have "sock_run (same_mode i0) i o1 ?i" using sock_run_one [OF Cons.prems(3) step_work [OF _ _ p] m] by simp
  moreover have "sock_run (same_mode i0) ?i o2 i'"
  proof (rule Cons.IH [OF r(1) Cons.prems(2) m])
    show "\<forall>(key', c') \<in> set kcs. map_of (i_connections ?i) key' = Some c'"
      using Cons.prems(4,5) kc by (force simp: work_done_def put_connection_def Let_def update_conv')
  qed (use Cons.prems(4) in simp)
  ultimately show ?case unfolding r(2) by (rule sock_run_trans [rotated])
qed

lemma worker_round_refines_steps:
  assumes inv: "sock_inv i" "i_isRunning i" and clocks: "clock_ok now" "\<forall>d \<in> set ds. clock_ok (snd (fst d))"
    and round: "process_round ds now clocks i = Some (i', outs)"
  shows "sock_run (same_mode i) i outs i'"
proof -
  let ?i = "i\<lparr>i_TPS := i_TPS i + 1\<rparr>"
  obtain i1 o1 where r: "receive_all ds ?i = Some (i1, o1)" using round by (auto simp: process_round_def split: Option.bind_splits)
  obtain i2 o2 where t: "process_ts now i1 = (i2, o2)" by fastforce
  obtain o3 where w: "process_all clocks i2 = Some (i', o3)" "outs = o1 @ o2 @ o3"
    using round r t by (auto simp: process_round_def split: Option.bind_splits)
  have run1: "sock_run (same_mode i) i ([] @ o1) i1"
    using sock_run_trans [OF receive_all_run [OF r inv(2) _ clocks(2)] sock_run_one [OF _ step_tick [OF inv(2)]]] by simp
  have m1: "same_mode i i1" using run1 by (cases rule: sock_run.cases) auto
  have m2: "same_mode i i2" using same_mode_trans [OF m1] timers_mode [of i1 now] t by simp
  have "i_isRunning i1" using m1 inv(2) by (simp add: same_mode_def)
  then have run2: "sock_run (same_mode i) i1 o2 i2" using sock_run_one [OF m1 step_timers [OF _ clocks(1) t] m2] by simp
  have "sock_inv i2" using sock_run_inv [OF run2] sock_run_inv [OF run1] inv(1) by simp
  then have "distinct (map fst (i_connections i2))" by (simp add: sock_inv_def conns_inv_def)
  then have "sock_run (same_mode i) i2 o3 i'"
    using process_connections_run [OF w(1) [unfolded process_all_def] inv(2) m2] by auto
  then show ?thesis using sock_run_trans sock_run_trans [OF run2 run1] unfolding w(2) by fastforce
qed

lemma sock_run_mono: "sock_run P i outs i' \<Longrightarrow> (\<And>i. P i \<Longrightarrow> Q i) \<Longrightarrow> sock_run Q i outs i'"
  by (induction rule: sock_run.induct) (auto intro: sock_run.intros)

subsection \<open>The callbacks of the socket\<close>

text \<open>The calls for one connection: connected or disconnected.\<close>

definition call :: "u64 \<Rightarrow> effect \<Rightarrow> bool list" where
  "call key e = (case e of OnConnected k \<Rightarrow> if k = key then [True] else []
     | OnDisconnected k _ \<Rightarrow> if k = key then [False] else [] | _ \<Rightarrow> [])"

definition calls :: "u64 \<Rightarrow> effect list \<Rightarrow> bool list" where
  "calls key outs = concat (map (call key) outs)"

text \<open>Whom the datagrams are sent to.\<close>

definition peers :: "effect list \<Rightarrow> (u16 \<times> u32) list" where
  "peers outs = concat (map (\<lambda>e. case e of Sent bs port IPv4 \<Rightarrow> [(port, IPv4)] | _ \<Rightarrow> []) outs)"

lemma peers_simps [simp]:
  "peers [] = []" "peers (xs @ ys) = peers xs @ peers ys" "peers (send_txBuffer c # es) = (c_port c, c_IPv4 c) # peers es"
  "peers (map App evs) = []" "peers (notify_disconnected on k x) = []"
  by (simp_all add: peers_def send_txBuffer_def notify_disconnected_def comp_def)

text \<open>Each call changes what was told before; the first starts at \<open>b\<close> and the last leads to \<open>b'\<close>.\<close>

fun flips :: "bool \<Rightarrow> bool list \<Rightarrow> bool \<Rightarrow> bool" where
  "flips b [] b' \<longleftrightarrow> b = b'"
| "flips b (x # xs) b' \<longleftrightarrow> x \<noteq> b \<and> flips x xs b'"

definition up :: "Impl \<Rightarrow> u64 \<Rightarrow> bool" where
  "up i key \<longleftrightarrow> last_packet i key \<noteq> INT64_MAX"

lemma flips_append: "flips b xs b' \<Longrightarrow> flips b' ys b'' \<Longrightarrow> flips b (xs @ ys) b''"
  by (induction xs arbitrary: b) auto

lemma calls_simps [simp]:
  "calls key [] = []" "calls key (xs @ ys) = calls key xs @ calls key ys" "calls key (e # es) = call key e @ calls key es"
  by (simp_all add: calls_def)

lemma calls_quiet [simp]: "quiet outs \<Longrightarrow> calls key outs = []"
  by (induction outs) (auto simp: quiet_def call_def split: effect.splits)

lemma call_simps [simp]:
  "call key (OnConnected k) = (if k = key then [True] else [])"
  "call key (OnDisconnected k x) = (if k = key then [False] else [])" "call key (send_txBuffer c) = []"
  by (simp_all add: call_def send_txBuffer_def)

lemma calls_notify [simp]: "calls key (notify_disconnected on k x) = (if on \<and> k = key then [False] else [])"
  by (simp add: notify_disconnected_def)

lemma calls_loop:
  assumes "distinct (map fst cs)" "\<And>k c. k \<noteq> key \<Longrightarrow> calls key (f k c) = []"
  shows "calls key (concat (map (\<lambda>(k, c). f k c) cs))
    = (case map_of cs key of None \<Rightarrow> [] | Some c \<Rightarrow> calls key (f key c))"
  using assms(1)
proof (induction cs)
  case (Cons kc cs)
  have "key \<notin> set (map fst cs) \<Longrightarrow> map_of cs key = None" by (simp add: map_of_eq_None_iff)
  then show ?case using Cons assms(2) by (cases kc) auto
qed simp

lemma up_put [simp]: "up (put_connection k c i) key = (if k = key then c_lastPacketTick_us c \<noteq> INT64_MAX else up i key)"
  by (simp add: up_def last_packet_def put_connection_def update_conv')

lemma map_of_map_key: "map_of (map (\<lambda>(k, c). (k, f k c)) cs) key = map_option (f key) (map_of cs key)"
  by (induction cs) auto

lemma stop_calls:
  assumes "sock_inv i" "impl_stop i = (i', outs)" "i_onDisconnected i"
  shows "calls key outs = (if up i key then [False] else [])" "\<not> up i' key"
proof -
  have d: "distinct (map fst (i_connections i))" using assms(1) by (simp add: sock_inv_def conns_inv_def)
  have o: "calls key (snd (stop_connection True k c)) = (if k = key \<and> conn_isConnected c then [False] else [])" for k c
    by (simp add: stop_connection_def Let_def case_prod_beta)
  have "calls key outs = calls key (concat (map (\<lambda>(k, c). snd (stop_connection True k c)) (i_connections i)))"
    using assms(2,3) by (auto simp: impl_stop_def)
  also have "\<dots> = (if up i key then [False] else [])"
    by (subst calls_loop [OF d]) (simp_all add: o up_def last_packet_def conn_isConnected_def split: option.split)
  finally show "calls key outs = (if up i key then [False] else [])" .
  have "map_of (i_connections i') key
      = map_option (\<lambda>c. fst (stop_connection True key c)) (map_of (i_connections i) key)"
    using assms(2,3) by (auto simp: impl_stop_def map_of_map_key)
  then show "\<not> up i' key"
    using stop_connection_good(2) conns_inv_lookup(1) [OF assms(1) [unfolded sock_inv_def]]
    by (auto simp: up_def last_packet_def split: option.split)
qed

lemma timers_told:
  assumes "distinct (map fst (i_connections i))" "process_ts now i = (i', outs)"
  shows "calls key outs = (case map_of (i_connections i) key of None \<Rightarrow> []
    | Some c \<Rightarrow> calls key (snd (process_ts_connection now (i_isServer i) (i_onDisconnected i) key c)))"
proof -
  let ?p = "process_ts_connection now (i_isServer i) (i_onDisconnected i)"
  have "\<And>k c. k \<noteq> key \<Longrightarrow> calls key (snd (?p k c)) = []"
    by (simp add: process_ts_connection_def Let_def case_prod_beta)
  moreover have "outs = concat (map (\<lambda>(k, c). snd (?p k c)) (i_connections i))"
    using assms(2) by (auto simp: process_ts_def Let_def case_prod_beta')
  ultimately show ?thesis using calls_loop [OF assms(1), of key "\<lambda>k c. snd (?p k c)"] by simp
qed

lemma process_ts_lookup:
  assumes "distinct (map fst (i_connections i))" "process_ts now i = (i', outs)"
  shows "map_of (i_connections i') key
    = Option.bind (map_of (i_connections i) key) (\<lambda>c. fst (process_ts_connection now (i_isServer i) (i_onDisconnected i) key c))"
  using assms map_filter_lookup [OF assms(1), of "\<lambda>k c. fst (process_ts_connection now (i_isServer i) (i_onDisconnected i) k c)" key]
  by (auto simp: process_ts_def Let_def)

lemma timers_calls:
  assumes "sock_inv i" "i_isServer i" "i_isRunning i" "i_onDisconnected i" "clock_ok now" "process_ts now i = (i', outs)"
  shows "flips (up i key) (calls key outs) (up i' key)"
proof -
  have d: "distinct (map fst (i_connections i))" using assms(1) by (simp add: sock_inv_def conns_inv_def)
  note o = timers_told [OF d assms(6), of key] and m = process_ts_lookup [OF d assms(6), of key]
  show ?thesis
  proof (cases "map_of (i_connections i) key")
    case None
    then show ?thesis using o m by (simp add: up_def last_packet_def)
  next
    case (Some c)
    have c: "conn_good c" "entry_ok True key (life c)"
      using conns_inv_lookup [OF assms(1) [unfolded sock_inv_def] Some] assms(2,3) by simp_all
    have l: "life (doCommands c) = life c" using doCommands_good [OF c(1)] by simp
    have "c_lastPacketTick_us (fst (conn_onDisconnected (d\<lparr>c_nextEraseTick_us := e, c_lastPacketTick_us := INT64_MAX\<rparr>))) = INT64_MAX"
      for d e by (simp add: conn_onDisconnected_def)
    then show ?thesis
      using l c(2) o m Some assms(2,4,5)
      by (auto simp: process_ts_connection_def Let_def case_prod_beta up_def last_packet_def life_def entry_ok_def clock_ok_def)
  qed
qed

lemma receive_selected_calls:
  assumes "sock_inv i" "i_isServer i" "i_isRunning i" "i_onConnected i" "clock_ok now"
    and alive: "\<forall>d. map_of (i_connections i) (h_connectionId h) = Some d \<longrightarrow> c_nextEraseTick_us d = INT64_MAX"
    and rcv: "receive_selected clock now h data size_B port IPv4 i = Some (i', outs)"
  shows "flips (up i key) (calls key outs) (up i' key)"
proof -
  obtain k c where sel: "select_connection (h_connectionId h) port IPv4 i = Some (k, c)"
    using assms(2) by (simp add: select_connection_def Let_def)
  obtain c' where r: "receive_datagram clock now True (i_rxPacketBufferSizeThreshold_B i) k h data size_B c
      = Some (c', outs)" "i' = put_connection k c' i"
    using rcv sel assms(4) by (auto simp: receive_selected_def)
  note k = select_connection_server [OF assms(1) sel assms(2,3) alive]
  have last: "c_lastPacketTick_us c = last_packet i k" using k by (simp add: life_def)
  obtain outs' where o: "quiet outs'" "life c' = (now, c_nextEraseTick_us c, c_isDisconnectRequested c, c_connectionId c)"
      "outs = (if c_lastPacketTick_us c = INT64_MAX then [OnConnected k] else []) @ outs'"
    using receive_datagram_good [OF select_connection_good [OF assms(1) sel] r(1)] by auto
  have "c_lastPacketTick_us c' \<noteq> INT64_MAX" using o(2) assms(5) by (simp add: life_def clock_ok_def)
  then show ?thesis unfolding r(2) o(3) last using o(1) by (auto simp: up_def [of i])
qed

lemma receive_disconnect_calls:
  assumes "sock_inv i" "i_isServer i" "i_isRunning i" "i_onDisconnected i" "receive_disconnect now n i = (i', outs)"
  shows "flips (up i key) (calls key outs) (up i' key)"
proof (cases "map_of (i_connections i) n")
  case None
  then show ?thesis using assms by (simp add: receive_disconnect_def)
next
  case (Some c)
  have "entry_ok True n (life c)" using conns_inv_lookup(2) [OF assms(1) [unfolded sock_inv_def] Some] assms(2,3) by simp
  moreover have "c_lastPacketTick_us (fst (conn_onDisconnected (d\<lparr>c_nextEraseTick_us := e, c_lastPacketTick_us := INT64_MAX\<rparr>))) = INT64_MAX"
    for d e by (simp add: conn_onDisconnected_def)
  moreover have "up i n = (c_lastPacketTick_us c \<noteq> INT64_MAX)" using Some by (simp add: up_def last_packet_def)
  ultimately show ?thesis using assms(4,5) Some
    by (auto simp: receive_disconnect_def Let_def case_prod_beta entry_ok_def life_def split: if_splits)
qed

lemma receive_calls:
  assumes "sock_inv i" "i_isServer i" "i_isRunning i" "i_onConnected i" "i_onDisconnected i" "clock_ok now"
    "onUdpReceived clock now data size_B port IPv4 i = Some (i', outs)"
  shows "flips (up i key) (calls key outs) (up i' key)"
proof (cases "unat size_B < sizeof_PacketHeader")
  case True
  then show ?thesis using assms by (simp add: onUdpReceived_def)
next
  case False
  then obtain h rest where h: "read_header data = Some (h, rest)"
    using assms(7) by (auto simp: onUdpReceived_def split: option.splits)
  note sel = receive_selected_calls [OF assms(1-4,6), of h clock data size_B port IPv4 i' outs key]
    and dis = receive_disconnect_calls [OF assms(1-3,5), of now "h_connectionId h" i' outs key]
  show ?thesis
    by (cases "map_of (i_connections i) (h_connectionId h)")
      (use assms(7) False h sel dis in \<open>auto simp: onUdpReceived_def split: if_splits\<close>)
qed

lemma up_frame [simp]:
  "up (work_done spent second i) key = up i key" "up (i\<lparr>i_TPS := t\<rparr>) key = up i key"
  "up (i\<lparr>i_rxPacketBufferSizeThreshold_B := th\<rparr>) key = up i key" "up (i\<lparr>i_isTestBandwidthEnabled := tb\<rparr>) key = up i key"
  "up (i\<lparr>i_localPort := p, i_isServer := v\<rparr>) key = up i key"
  by (simp_all add: up_def last_packet_def work_done_def Let_def)

lemma up_replace:
  "map_of (i_connections i) k = Some c \<Longrightarrow> life c' = life c \<Longrightarrow> up (put_connection k c' i) key = up i key"
  by (auto simp: up_def [of i] last_packet_def life_def)

lemma sock_step_calls:
  "sock_step i outs i' \<Longrightarrow> sock_inv i \<Longrightarrow> i_isServer i \<Longrightarrow> i_isServer i' \<Longrightarrow> i_onConnected i \<Longrightarrow> i_onDisconnected i
   \<Longrightarrow> flips (up i key) (calls key outs) (up i' key)"
proof (induction rule: sock_step.induct)
  case (step_connect dontFragment newId port address i r i' outs)
  then show ?case
    by (auto simp: socket_connect_def impl_connect_def put_connection_def Let_def case_prod_beta split: if_splits)
next
  case (step_disconnect i r i')
  then show ?case by (simp add: impl_disconnect_def impl_isConnected_def)
next
  case (step_listen bound dontFragment localPort i r i' outs)
  then show ?case by (auto simp: impl_listen_def split: if_splits)
next
  case (step_stop i i' outs)
  then show ?case using stop_calls [of i i' outs key] by simp
next
  case (step_receive i now_us clock data size_B port IPv4 i' outs)
  then show ?case using receive_calls by simp
next
  case (step_timers i now_us i' outs)
  then show ?case using timers_calls by simp
next
  case (step_work i key' c k c' outs second)
  have "conn_good c" using conns_inv_lookup(1) [OF step_work(4) [unfolded sock_inv_def] step_work(2)] .
  then show ?case using process_connection_good [OF _ step_work(3)] up_replace [OF step_work(2), of c' key] by simp
next
  case (step_send i key' c data size_B ctx copy streamId timeout_ms now_us r c')
  then show ?case using up_replace app_life(4) [OF step_send(3)] by simp
next
  case (step_speedLimit i key' c limit_B_s c')
  then show ?case using up_replace app_life(5) [OF step_speedLimit(2)] by simp
qed (simp_all add: setRxPacketBufferSizeThreshold_B_def setTestBandwidthState_def up_replace app_life(1,2,3) del: up_put)

lemma sock_step_callbacks:
  "sock_step i outs i' \<Longrightarrow> i_onConnected i' = i_onConnected i \<and> i_onDisconnected i' = i_onDisconnected i"
proof (induction rule: sock_step.induct)
  case (step_connect dontFragment newId port address i r i' outs)
  then show ?case
    by (auto simp: socket_connect_def impl_connect_def put_connection_def Let_def case_prod_beta split: if_splits)
next
  case (step_disconnect i r i')
  then show ?case by (auto simp: impl_disconnect_def put_connection_def split: if_splits option.splits)
next
  case (step_listen bound dontFragment localPort i r i' outs)
  then show ?case by (auto simp: impl_listen_def split: if_splits)
next
  case (step_receive i now_us clock data size_B port IPv4 i' outs)
  then show ?case using receive_mode by (simp add: same_mode_def)
qed (auto simp: impl_stop_def process_ts_def work_done_def put_connection_def Let_def setRxPacketBufferSizeThreshold_B_def
    setTestBandwidthState_def)

lemma server_calls:
  assumes "sock_run i_isServer i outs i'" "sock_inv i" "i_onConnected i" "i_onDisconnected i"
  shows "flips (up i key) (calls key outs) (up i' key) \<and> i_onConnected i' \<and> i_onDisconnected i' \<and> sock_inv i' \<and> i_isServer i'"
  using assms
proof (induction rule: sock_run.induct)
  case (run_step i outs i' outs' i'')
  then show ?case
    using sock_step_calls [OF run_step(2), of key] sock_step_callbacks [OF run_step(2)] sock_step_inv [OF run_step(2)]
      flips_append by auto
qed simp

subsection \<open>Goodbyes\<close>

lemma writePacket_header:
  assumes "writePacket now test force c = Some (True, c1, evs)"
  shows "\<exists>h rest. c_txBuffer c1 = header_bytes h @ rest \<and> h_connectionId h = c_connectionId c"
proof -
  obtain b c2 where "c1 = store_header now b c2"
    using assms by (auto simp: writePacket_def Let_def split: if_splits Option.bind_splits)
  moreover have "c_connectionId c1 = c_connectionId c" using frame_simps(5) [OF writePacket_frame [OF assms]] .
  ultimately show ?thesis
    by (intro exI conjI) (auto simp: store_header_def start_rtt_request_def packet_header_def Let_def split: if_splits)
qed

lemma writeDisconnect_header:
  assumes "c_txBuffer c = header_bytes h @ rest"
  shows "c_txBuffer (writeDisconnect c) = header_bytes (h\<lparr>h_packetId := PacketId_Disconnect\<rparr>)"
  using assms by (simp add: writeDisconnect_def vec_resize_def overwrite_def) (simp add: header_bytes_def)

text \<open>The goodbye after a written datagram, at any receiver.\<close>

lemma receive_goodbye:
  assumes "writePacket now test force c = Some (True, c1, evs)"
  shows "onUdpReceived clock now' (c_txBuffer (writeDisconnect c1)) 26 port IPv4 i
    = Some (receive_disconnect now' (c_connectionId c) i)"
proof -
  obtain h rest where h: "c_txBuffer c1 = header_bytes h @ rest" "h_connectionId h = c_connectionId c"
    using writePacket_header [OF assms] by auto
  show ?thesis
    unfolding writeDisconnect_header [OF h(1)]
    using read_header_bytes [of "h\<lparr>h_packetId := PacketId_Disconnect\<rparr>" "[]"] h(2) by (simp add: onUdpReceived_def)
qed

subsection \<open>Timeouts\<close>

lemma process_ts_one:
  assumes "i_connections i = [(key, c)]"
  shows "process_ts now i =
    (i\<lparr>i_connections := (case fst (process_ts_connection now (i_isServer i) (i_onDisconnected i) key c) of
        None \<Rightarrow> [] | Some c' \<Rightarrow> [(key, c')])\<rparr>,
     snd (process_ts_connection now (i_isServer i) (i_onDisconnected i) key c))"
  using assms by (simp add: process_ts_def List.map_filter_def split: option.split)

lemma doCommands_life: "life (doCommands c) = life c"
proof (induction c rule: doCommands.induct)
  case (1 c)
  have l: "life ((run_command cmd c)\<lparr>c_commands := cs\<rparr>) = life c" for cmd cs
    by (simp add: run_command_def life_def split: command.split)
  show ?case
  proof (cases "c_commands c")
    case (Cons cmd cs)
    then show ?thesis using "1.IH" [OF Cons refl] l by (subst doCommands.simps) simp
  qed (simp add: doCommands.simps)
qed

lemma receive_client:
  assumes "\<not> i_isServer i" "i_connections i = [(0, c)]" "sock_inv i" "i_onConnected i"
    "read_header data = Some (h, rest)" "h_connectionId h \<noteq> 0" "h_packetId h \<noteq> PacketId_Disconnect"
    "h_packetId h = PacketId_TypeA \<or> h_packetId h = PacketId_PMTUProbe" "sizeof_PacketHeader \<le> unat size_B"
    "c_lastPacketTick_us c = INT64_MAX"
    "onUdpReceived clock now data size_B port IPv4 i = Some (i', outs)"
  shows "calls 0 outs = [True]" "\<exists>c'. i' = i\<lparr>i_connections := [(0, c')]\<rparr>
    \<and> life c' = (now, c_nextEraseTick_us c, c_isDisconnectRequested c, c_connectionId c)"
proof -
  have "receive_selected clock now h data size_B port IPv4 i = Some (i', outs)"
    using assms by (auto simp: onUdpReceived_def)
  then obtain c' where r: "receive_datagram clock now True (i_rxPacketBufferSizeThreshold_B i) 0 h data size_B c
      = Some (c', outs)" "i' = put_connection 0 c' i"
    using assms(1,2,4) by (auto simp: receive_selected_def select_connection_def clientConnection_def)
  have "conn_good c" using assms(2,3) by (simp add: sock_inv_def conns_inv_def)
  note good = receive_datagram_good [OF this r(1)]
  show "calls 0 outs = [True]" using good assms(10) by auto
  show "\<exists>c'. i' = i\<lparr>i_connections := [(0, c')]\<rparr>
      \<and> life c' = (now, c_nextEraseTick_us c, c_isDisconnectRequested c, c_connectionId c)"
    using good r(2) assms(2) by (auto simp: put_connection_def)
qed

lemma receive_closing:
  assumes "i_isServer i" "map_of (i_connections i) key = Some c" "c_nextEraseTick_us c \<noteq> INT64_MAX"
    "onUdpReceived clock now data size_B port IPv4 i = Some (i', outs)"
  shows "map_of (i_connections i') key = Some c"
proof (cases "unat size_B < sizeof_PacketHeader")
  case True
  then show ?thesis using assms by (simp add: onUdpReceived_def)
next
  case False
  then obtain h rest where h: "read_header data = Some (h, rest)"
    using assms(4) by (auto simp: onUdpReceived_def split: option.splits)
  have sel: "map_of (i_connections i') key = Some c"
    if "h_connectionId h \<noteq> key" "receive_selected clock now h data size_B port IPv4 i = Some (i', outs)"
    using that assms(1,2)
    by (auto simp: receive_selected_def select_connection_def Let_def put_connection_def update_conv')
  have "map_of (i_connections i') key = Some c" if "receive_disconnect now (h_connectionId h) i = (i', outs)"
    using that assms(2,3)
    by (auto simp: receive_disconnect_def put_connection_def update_conv' Let_def case_prod_beta split: option.splits if_splits)
  then show ?thesis using assms False h sel
    by (cases "h_connectionId h = key") (auto simp: onUdpReceived_def split: if_splits option.splits)
qed

lemma receive_all_closing:
  "receive_all ds i = Some (i', outs) \<Longrightarrow> i_isServer i \<Longrightarrow> map_of (i_connections i) key = Some c
   \<Longrightarrow> c_nextEraseTick_us c \<noteq> INT64_MAX \<Longrightarrow> map_of (i_connections i') key = Some c \<and> same_mode i i'"
proof (induction ds arbitrary: i outs)
  case (Cons d ds)
  obtain clock now data size_B port IPv4 where d: "d = ((clock, now), data, size_B, port, IPv4)" by (metis prod.exhaust)
  obtain i1 o1 o2 where r: "onUdpReceived clock now data size_B port IPv4 i = Some (i1, o1)" "receive_all ds i1 = Some (i', o2)"
    using Cons.prems(1) d by (auto split: Option.bind_splits)
  have m: "same_mode i i1" using receive_mode [OF r(1)] .
  then have "i_isServer i1" using Cons.prems(2) by (simp add: same_mode_def)
  then show ?case
    using Cons.IH [OF r(2) _ receive_closing [OF Cons.prems(2,3,4) r(1)] Cons.prems(4)] same_mode_trans [OF m] by blast
qed simp

end
