(* ===== verification/Udsp_Udp_Socket.thy ===== *)
theory Udsp_Udp_Socket
  imports Udsp_Address "HOL-Library.State_Monad" "HOL-Library.Signed_Division"
begin

text \<open>
  The class \<open>UDPSocket\<close> of \<open>UdpSocket.cpp\<close> in its Linux branches, as programs over the system calls.
  The operating system is an argument, a function from the calls made so far to the answer of the next
  one; a program runs in the state monad over the member \<open>m_socket\<close> and the log of the calls with their
  answers. Shown for every operating system: descriptors are used only while they are open and each is
  closed once; what \<open>process\<close> delivers; and how the answers decide the results.
\<close>

subsection \<open>System calls\<close>

text \<open>\<open>int32_t\<close>, read as a signed number, and its conversions to and from the \<open>uintptr_t\<close> of a handle.\<close>

type_synonym i32 = "32 word"

definition handle :: "i32 \<Rightarrow> u64" where
  "handle descriptor = scast descriptor"

definition fd :: "u64 \<Rightarrow> i32" where
  "fd h = ucast h"

abbreviation O_NONBLOCK :: i32 where "O_NONBLOCK \<equiv> 2048"
abbreviation EINPROGRESS :: i32 where "EINPROGRESS \<equiv> 115"
abbreviation IP_PMTUDISC_DONT :: i32 where "IP_PMTUDISC_DONT \<equiv> 0"
abbreviation IP_PMTUDISC_DO :: i32 where "IP_PMTUDISC_DO \<equiv> 2"
abbreviation POLLIN :: i32 where "POLLIN \<equiv> 1"
abbreviation POLLOUT :: i32 where "POLLOUT \<equiv> 4"

datatype SockType = SOCK_DGRAM | SOCK_STREAM

datatype SockOpt = SO_BROADCAST | SO_REUSEPORT | SO_REUSEADDR | SO_RCVBUF | SO_SNDBUF | SO_ERROR | IP_MTU_DISCOVER

text \<open>The calls with the arguments that matter; addresses and ports are in network byte order.\<close>

datatype SysCall =
    Sys_socket SockType
  | Sys_close i32
  | Sys_getfl i32
  | Sys_setfl i32 i32
  | Sys_setsockopt i32 SockOpt i32
  | Sys_getsockopt i32 SockOpt
  | Sys_add_membership i32 u32 u32
  | Sys_bind i32 u32 u16
  | Sys_connect i32 u32 u16
  | Sys_getsockname i32
  | Sys_poll i32 i32 i32
  | Sys_sendto i32 bytes u32 u16
  | Sys_recvfrom i32 i32
  | Sys_priority_max
  | Sys_priority_min
  | Sys_setschedparam u64 i32

text \<open>An answer: the result, \<open>errno\<close>, the value written for \<open>getsockopt\<close> or the returned events of \<open>poll\<close>,
  the address and port written, and the contents of the receive buffer after the call.\<close>

record Answer =
  an_result :: i32
  an_errno :: i32
  an_value :: i32
  an_addr :: u32
  an_port :: u16
  an_buffer :: bytes

type_synonym sys_log = "(SysCall \<times> Answer) list"
type_synonym os = "sys_log \<Rightarrow> SysCall \<Rightarrow> Answer"

record UDPSocket =
  m_socket :: u64
  m_log :: sys_log

type_synonym 'a udp = "(UDPSocket, 'a) state"

definition sys :: "os \<Rightarrow> SysCall \<Rightarrow> Answer udp" where
  "sys os call = State (\<lambda>u. let a = os (m_log u) call in (a, u\<lparr>m_log := m_log u @ [(call, a)]\<rparr>))"

text \<open>A call on the member \<open>m_socket\<close>.\<close>

definition sys_on :: "os \<Rightarrow> (i32 \<Rightarrow> SysCall) \<Rightarrow> Answer udp" where
  "sys_on os call = do { u \<leftarrow> State_Monad.get; sys os (call (fd (m_socket u))) }"

subsection \<open>Opening and closing\<close>

definition udp_close :: "os \<Rightarrow> unit udp" where
  "udp_close os = do {
     u \<leftarrow> State_Monad.get;
     if m_socket u = 0 then State_Monad.return ()
     else do {
       _ \<leftarrow> sys_on os Sys_close;
       State_Monad.update (\<lambda>u. u\<lparr>m_socket := 0\<rparr>)
     }
   }"

definition udp_open :: "os \<Rightarrow> unit udp" where
  "udp_open os = do {
     udp_close os;
     a \<leftarrow> sys os (Sys_socket SOCK_DGRAM);
     State_Monad.update (\<lambda>u. u\<lparr>m_socket := handle (an_result a)\<rparr>);
     status \<leftarrow> sys_on os Sys_getfl;
     _ \<leftarrow> sys_on os (\<lambda>s. Sys_setfl s (an_result status OR O_NONBLOCK));
     _ \<leftarrow> sys_on os (\<lambda>s. Sys_setsockopt s SO_BROADCAST 1);
     State_Monad.return ()
   }"

definition udp_unbind :: "os \<Rightarrow> unit udp" where
  "udp_unbind os = udp_open os"

text \<open>The life of a local \<open>UDPSocket\<close>: the constructor, its use, the destructor.\<close>

definition with_socket :: "os \<Rightarrow> 'a udp \<Rightarrow> 'a udp" where
  "with_socket os body = State (\<lambda>u.
     let (r, u') = run_state (do { udp_open os; r \<leftarrow> body; udp_close os; State_Monad.return r })
                     \<lparr>m_socket = 0, m_log = m_log u\<rparr>
     in (r, u\<lparr>m_log := m_log u'\<rparr>))"

subsection \<open>Options\<close>

definition udp_setsockopt :: "os \<Rightarrow> SockOpt \<Rightarrow> i32 \<Rightarrow> bool udp" where
  "udp_setsockopt os opt value = do {
     a \<leftarrow> sys_on os (\<lambda>s. Sys_setsockopt s opt value);
     State_Monad.return (an_result a \<noteq> - 1)
   }"

definition udp_setIpDontFragment :: "os \<Rightarrow> bool \<Rightarrow> bool udp" where
  "udp_setIpDontFragment os isEnabled =
     udp_setsockopt os IP_MTU_DISCOVER (if isEnabled then IP_PMTUDISC_DO else IP_PMTUDISC_DONT)"

definition udp_setReusePort :: "os \<Rightarrow> bool \<Rightarrow> bool udp" where
  "udp_setReusePort os isEnabled = udp_setsockopt os SO_REUSEPORT (if isEnabled then 1 else 0)"

definition udp_setReuseAddress :: "os \<Rightarrow> bool \<Rightarrow> bool udp" where
  "udp_setReuseAddress os isEnabled = udp_setsockopt os SO_REUSEADDR (if isEnabled then 1 else 0)"

definition udp_setRxBufferSize_B :: "os \<Rightarrow> u32 \<Rightarrow> bool udp" where
  "udp_setRxBufferSize_B os size_B = do {
     a \<leftarrow> sys_on os (\<lambda>s. Sys_setsockopt s SO_RCVBUF size_B);
     State_Monad.return (an_result a = 0)
   }"

definition udp_getRxBufferSize_B :: "os \<Rightarrow> u32 udp" where
  "udp_getRxBufferSize_B os = do {
     a \<leftarrow> sys_on os (\<lambda>s. Sys_getsockopt s SO_RCVBUF);
     State_Monad.return (if an_result a \<noteq> 0 then 0 else an_value a)
   }"

definition udp_setTxBufferSize_B :: "os \<Rightarrow> u32 \<Rightarrow> bool udp" where
  "udp_setTxBufferSize_B os size_B = do {
     a \<leftarrow> sys_on os (\<lambda>s. Sys_setsockopt s SO_SNDBUF size_B);
     State_Monad.return (an_result a = 0)
   }"

definition udp_getTxBufferSize_B :: "os \<Rightarrow> u32 udp" where
  "udp_getTxBufferSize_B os = do {
     a \<leftarrow> sys_on os (\<lambda>s. Sys_getsockopt s SO_SNDBUF);
     State_Monad.return (if an_result a \<noteq> 0 then 0 else an_value a)
   }"

subsection \<open>Binding and addresses\<close>

definition udp_bind :: "os \<Rightarrow> u16 \<Rightarrow> IPAddress \<Rightarrow> IPAddress \<Rightarrow> bool udp" where
  "udp_bind os port multicast interface =
     (if toIntegerV4 interface = UINT32_MAX then State_Monad.return False
      else do {
        udp_unbind os;
        let multicastV4 = toIntegerV4 multicast;
        let isValidMulticastV4 = (isV4 multicast \<and> 0xE0000000 \<le> multicastV4 \<and> multicastV4 \<le> 0xEFFFFFFF);
        if isV4 multicast \<and> \<not> isValidMulticastV4 then State_Monad.return False
        else do {
          reuse \<leftarrow> (if isValidMulticastV4
                    then do { _ \<leftarrow> udp_setReusePort os True; udp_setReuseAddress os True }
                    else State_Monad.return True);
          if \<not> reuse then State_Monad.return False
          else do {
            a \<leftarrow> sys_on os (\<lambda>s. Sys_bind s (bigEndian32 (toIntegerV4 interface)) (bigEndian16 port));
            if an_result a = - 1 then State_Monad.return False
            else if \<not> isValidMulticastV4 then State_Monad.return True
            else do {
              a \<leftarrow> sys_on os (\<lambda>s. Sys_add_membership s (bigEndian32 multicastV4) (bigEndian32 (toIntegerV4 interface)));
              State_Monad.return (an_result a \<noteq> - 1)
            }
          }
        }
      })"

definition udp_getLocalAddress :: "os \<Rightarrow> IPAddress udp" where
  "udp_getLocalAddress os = with_socket os (do {
     bound \<leftarrow> udp_bind os 0 (IPAddress_of_integer INADDR_LOOPBACK) IPAddress_init;
     if \<not> bound then State_Monad.return IPAddress_init
     else do {
       a \<leftarrow> sys_on os Sys_getsockname;
       State_Monad.return (if an_result a = - 1 then IPAddress_init
         else IPAddress_of_integer (bigEndian32 (an_addr a)))
     }
   })"

definition udp_getLocalPort :: "os \<Rightarrow> u16 udp" where
  "udp_getLocalPort os = do {
     u \<leftarrow> State_Monad.get;
     if m_socket u = 0 then State_Monad.return 0
     else do {
       a \<leftarrow> sys_on os Sys_getsockname;
       State_Monad.return (if an_result a = - 1 then 0 else bigEndian16 (an_port a))
     }
   }"

definition udp_isLocalPortOpen :: "os \<Rightarrow> u16 \<Rightarrow> bool udp" where
  "udp_isLocalPortOpen os port = do {
     a \<leftarrow> sys os (Sys_socket SOCK_STREAM);
     let sock = handle (an_result a);
     if sock = UINT64_MAX then State_Monad.return False
     else do {
       _ \<leftarrow> sys os (Sys_setfl (fd sock) O_NONBLOCK);
       a \<leftarrow> sys os (Sys_connect (fd sock) (bigEndian32 INADDR_LOOPBACK) (bigEndian16 port));
       if an_result a <s 0 \<and> an_errno a \<noteq> EINPROGRESS
       then do { _ \<leftarrow> sys os (Sys_close (fd sock)); State_Monad.return False }
       else do {
         p \<leftarrow> sys os (Sys_poll (fd sock) POLLOUT 100);
         isOpen \<leftarrow> (if 0 <s an_result p \<and> an_value p AND POLLOUT \<noteq> 0
                   then do {
                     e \<leftarrow> sys os (Sys_getsockopt (fd sock) SO_ERROR);
                     State_Monad.return (an_result e \<noteq> 0 \<or> an_value e = 0)
                   }
                   else State_Monad.return False);
         _ \<leftarrow> sys os (Sys_close (fd sock));
         State_Monad.return isOpen
       }
     }
   }"

subsection \<open>Sending and receiving\<close>

definition udp_send :: "os \<Rightarrow> bytes \<Rightarrow> u32 \<Rightarrow> u16 \<Rightarrow> u32 \<Rightarrow> bool udp" where
  "udp_send os data size_B port IPv4 = do {
     u \<leftarrow> State_Monad.get;
     if m_socket u = 0 then State_Monad.return False
     else if 65507 < size_B then State_Monad.return False
     else do {
       a \<leftarrow> sys_on os (\<lambda>s. Sys_sendto s (take (unat size_B) data) (bigEndian32 IPv4) (bigEndian16 port));
       State_Monad.return (\<not> an_result a <s 0)
     }
   }"

text \<open>The callback \<open>onReceived\<close> takes the buffer, the size, port and address, and changes a state of the
  caller and, when it sends, the socket; \<open>None\<close> is undefined behaviour in it. The loop runs as long as
  datagrams come.\<close>

type_synonym 's onReceived = "bytes \<Rightarrow> u32 \<Rightarrow> u16 \<Rightarrow> u32 \<Rightarrow> 's \<Rightarrow> UDPSocket \<Rightarrow> ('s \<times> UDPSocket) option"

partial_function (option) receive_loop :: "os \<Rightarrow> 's onReceived \<Rightarrow> 's \<Rightarrow> UDPSocket \<Rightarrow> ('s \<times> UDPSocket) option" where
  "receive_loop os onReceived s u =
     (let (a, u) = run_state (sys_on os (\<lambda>d. Sys_recvfrom d 65535)) u in
      if an_result a <s 0 then Some (s, u)
      else case onReceived (an_buffer a) (an_result a) (bigEndian16 (an_port a)) (bigEndian32 (an_addr a)) s u of
        None \<Rightarrow> None
      | Some (s, u) \<Rightarrow> receive_loop os onReceived s u)"

definition udp_process ::
  "os \<Rightarrow> 's onReceived option \<Rightarrow> u32 \<Rightarrow> 's \<Rightarrow> UDPSocket \<Rightarrow> ('s \<times> UDPSocket) option" where
  "udp_process os onReceived timeout_ms s u =
     (let (isReady, u) = (if 0 < timeout_ms
            then (let (a, u) = run_state (sys_on os (\<lambda>d. Sys_poll d POLLIN timeout_ms)) u in (0 <s an_result a, u))
            else (True, u)) in
      if \<not> isReady then Some (s, u)
      else case onReceived of None \<Rightarrow> Some (s, u) | Some f \<Rightarrow> receive_loop os f s u)"

text \<open>The scheduling priority for a letter, between the bounds the system gives.\<close>

definition thread_priority :: "int \<Rightarrow> int \<Rightarrow> char \<Rightarrow> int option" where
  "thread_priority min_priority max_priority priority =
     (if priority = CHR ''H'' then Some max_priority
      else if priority = CHR ''h'' then Some (((min_priority + max_priority) sdiv 2 + max_priority) sdiv 2)
      else if priority = CHR ''n'' then Some ((min_priority + max_priority) sdiv 2)
      else if priority = CHR ''l'' then Some ((min_priority + (min_priority + max_priority) sdiv 2) sdiv 2)
      else if priority = CHR ''L'' then Some min_priority
      else None)"

definition udp_setThreadPriority :: "os \<Rightarrow> u64 \<Rightarrow> char \<Rightarrow> bool udp" where
  "udp_setThreadPriority os thread priority = do {
     hi \<leftarrow> sys os Sys_priority_max;
     lo \<leftarrow> sys os Sys_priority_min;
     case thread_priority (sint (an_result lo)) (sint (an_result hi)) priority of
       None \<Rightarrow> State_Monad.return False
     | Some p \<Rightarrow> do {
         a \<leftarrow> sys os (Sys_setschedparam thread (of_int p));
         State_Monad.return (an_result a = 0)
       }
   }"

subsection \<open>The life of a socket\<close>

text \<open>The public operations, and the life of an object: construction, operations, destruction. The
  callback of \<open>process\<close> answers each datagram with some datagrams.\<close>

type_synonym datagram = "bytes \<times> u32 \<times> u16 \<times> u32"

datatype UdpOp =
    Op_bind u16 IPAddress IPAddress
  | Op_unbind
  | Op_getLocalAddress
  | Op_getLocalPort
  | Op_isLocalPortOpen u16
  | Op_send datagram
  | Op_setIpDontFragment bool
  | Op_setReusePort bool
  | Op_setReuseAddress bool
  | Op_setRxBufferSize_B u32
  | Op_getRxBufferSize_B
  | Op_setTxBufferSize_B u32
  | Op_getTxBufferSize_B
  | Op_process "(datagram \<Rightarrow> datagram list) option" u32
  | Op_setThreadPriority u64 char

definition udp_sends :: "os \<Rightarrow> datagram list \<Rightarrow> UDPSocket \<Rightarrow> UDPSocket" where
  "udp_sends os ds u = fold (\<lambda>(data, size_B, port, IPv4) u. snd (run_state (udp_send os data size_B port IPv4) u)) ds u"

definition udp_answer :: "os \<Rightarrow> (datagram \<Rightarrow> datagram list) \<Rightarrow> unit onReceived" where
  "udp_answer os reply data size_B port IPv4 s u = Some (s, udp_sends os (reply (data, size_B, port, IPv4)) u)"

fun udp_op :: "os \<Rightarrow> UdpOp \<Rightarrow> UDPSocket \<Rightarrow> UDPSocket option" where
  "udp_op os (Op_bind port multicast interface) u = Some (snd (run_state (udp_bind os port multicast interface) u))"
| "udp_op os Op_unbind u = Some (snd (run_state (udp_unbind os) u))"
| "udp_op os Op_getLocalAddress u = Some (snd (run_state (udp_getLocalAddress os) u))"
| "udp_op os Op_getLocalPort u = Some (snd (run_state (udp_getLocalPort os) u))"
| "udp_op os (Op_isLocalPortOpen port) u = Some (snd (run_state (udp_isLocalPortOpen os port) u))"
| "udp_op os (Op_send d) u = Some (udp_sends os [d] u)"
| "udp_op os (Op_setIpDontFragment isEnabled) u = Some (snd (run_state (udp_setIpDontFragment os isEnabled) u))"
| "udp_op os (Op_setReusePort isEnabled) u = Some (snd (run_state (udp_setReusePort os isEnabled) u))"
| "udp_op os (Op_setReuseAddress isEnabled) u = Some (snd (run_state (udp_setReuseAddress os isEnabled) u))"
| "udp_op os (Op_setRxBufferSize_B size_B) u = Some (snd (run_state (udp_setRxBufferSize_B os size_B) u))"
| "udp_op os Op_getRxBufferSize_B u = Some (snd (run_state (udp_getRxBufferSize_B os) u))"
| "udp_op os (Op_setTxBufferSize_B size_B) u = Some (snd (run_state (udp_setTxBufferSize_B os size_B) u))"
| "udp_op os Op_getTxBufferSize_B u = Some (snd (run_state (udp_getTxBufferSize_B os) u))"
| "udp_op os (Op_process reply timeout_ms) u =
     map_option snd (udp_process os (map_option (udp_answer os) reply) timeout_ms () u)"
| "udp_op os (Op_setThreadPriority thread priority) u = Some (snd (run_state (udp_setThreadPriority os thread priority) u))"

primrec udp_ops :: "os \<Rightarrow> UdpOp list \<Rightarrow> UDPSocket \<Rightarrow> UDPSocket option" where
  "udp_ops os [] u = Some u"
| "udp_ops os (op # ops) u = Option.bind (udp_op os op u) (udp_ops os ops)"

definition UDPSocket_new :: "os \<Rightarrow> sys_log \<Rightarrow> UDPSocket" where
  "UDPSocket_new os l = snd (run_state (udp_open os) \<lparr>m_socket = 0, m_log = l\<rparr>)"

definition UDPSocket_delete :: "os \<Rightarrow> UDPSocket \<Rightarrow> sys_log" where
  "UDPSocket_delete os u = m_log (snd (run_state (udp_close os) u))"

definition udp_life :: "os \<Rightarrow> UdpOp list \<Rightarrow> sys_log option" where
  "udp_life os ops = map_option (UDPSocket_delete os) (udp_ops os ops (UDPSocket_new os []))"

subsection \<open>The descriptors of the log\<close>

text \<open>What a log says about one descriptor: how often it is open, or \<open>None\<close> when it was used or closed
  while it was not open.\<close>

fun sys_fd :: "SysCall \<Rightarrow> i32 option" where
  "sys_fd (Sys_getfl s) = Some s"
| "sys_fd (Sys_setfl s _) = Some s"
| "sys_fd (Sys_setsockopt s _ _) = Some s"
| "sys_fd (Sys_getsockopt s _) = Some s"
| "sys_fd (Sys_add_membership s _ _) = Some s"
| "sys_fd (Sys_bind s _ _) = Some s"
| "sys_fd (Sys_connect s _ _) = Some s"
| "sys_fd (Sys_getsockname s) = Some s"
| "sys_fd (Sys_poll s _ _) = Some s"
| "sys_fd (Sys_sendto s _ _ _) = Some s"
| "sys_fd (Sys_recvfrom s _) = Some s"
| "sys_fd _ = None"

fun ledger_step :: "i32 \<Rightarrow> SysCall \<times> Answer \<Rightarrow> nat option \<Rightarrow> nat option" where
  "ledger_step d (Sys_socket _, a) n = (if an_result a = d then map_option Suc n else n)"
| "ledger_step d (Sys_close s, a) n =
     (if s = d then (case n of Some (Suc m) \<Rightarrow> Some m | _ \<Rightarrow> None) else n)"
| "ledger_step d (call, a) n = (if sys_fd call = Some d \<and> n = Some 0 then None else n)"

definition ledger :: "i32 \<Rightarrow> sys_log \<Rightarrow> nat option" where
  "ledger d l = fold (ledger_step d) l (Some 0)"

text \<open>The ledger agrees with what the object holds, next to \<open>k\<close> descriptors held by others. The values
  0, which the class takes for no socket, and \<open>-1\<close>, a failed call, are left out.\<close>

definition holds :: "UDPSocket \<Rightarrow> i32 \<Rightarrow> nat" where
  "holds u d = (if m_socket u \<noteq> 0 \<and> fd (m_socket u) = d then 1 else 0)"

definition ledger_ok :: "(i32 \<Rightarrow> nat) \<Rightarrow> UDPSocket \<Rightarrow> bool" where
  "ledger_ok k u \<longleftrightarrow> (\<forall>d. d \<noteq> 0 \<and> d \<noteq> - 1 \<longrightarrow> ledger d (m_log u) = Some (k d + holds u d))"

definition ledger_kept :: "UDPSocket \<Rightarrow> UDPSocket \<Rightarrow> bool" where
  "ledger_kept u u' \<longleftrightarrow> (\<forall>k. ledger_ok k u \<longrightarrow> ledger_ok k u')"

abbreviation keeps_ledger :: "'a udp \<Rightarrow> bool" where
  "keeps_ledger \<equiv> state_io_rel ledger_kept"

lemma fd_handle [simp]: "fd (handle d) = d"
  by (rule bit_word_eqI) (auto simp: fd_def handle_def bit_simps)

lemma handle_eq_iff [simp]: "handle d = handle e \<longleftrightarrow> d = e"
  by (metis fd_handle)

lemma handle_special [simp]: "handle 0 = 0" "handle (- 1) = UINT64_MAX"
  by (simp_all add: handle_def)

lemma handle_special_iff [simp]: "handle d = 0 \<longleftrightarrow> d = 0" "handle d = UINT64_MAX \<longleftrightarrow> d = - 1"
  using handle_eq_iff [of d 0] handle_eq_iff [of d "- 1"] by simp_all

lemma fd_0 [simp]: "fd 0 = 0"
  by (simp add: fd_def)

lemma ledger_snoc [simp]: "ledger d (l @ [e]) = ledger_step d e (ledger d l)" "ledger d [] = Some 0"
  by (simp_all add: ledger_def)

lemma run_sys: "run_state (sys os call) u = (os (m_log u) call, u\<lparr>m_log := m_log u @ [(call, os (m_log u) call)]\<rparr>)"
  by (simp add: sys_def Let_def)

lemma run_sys_on: "run_state (sys_on os call) u = run_state (sys os (call (fd (m_socket u)))) u"
  by (simp add: sys_on_def)

text \<open>Programs that keep a reflexive and transitive relation between the states before and after, one
  rule per construct of a program.\<close>

locale udp_relation =
  fixes R :: "UDPSocket \<Rightarrow> UDPSocket \<Rightarrow> bool"
  assumes same: "R u u"
    and compose: "R u v \<Longrightarrow> R v w \<Longrightarrow> R u w"
begin

lemma kept_return: "state_io_rel R (State_Monad.return x)"
  by (simp add: state_io_rel_def same)

lemma kept_get: "state_io_rel R State_Monad.get"
  by (simp add: state_io_rel_def same)

lemma kept_bind: "state_io_rel R m \<Longrightarrow> (\<And>x. state_io_rel R (f x)) \<Longrightarrow> state_io_rel R (State_Monad.bind m f)"
  by (simp add: state_io_rel_def split: prod.split) (metis compose snd_conv)

lemma kept_if: "(b \<Longrightarrow> state_io_rel R m) \<Longrightarrow> (\<not> b \<Longrightarrow> state_io_rel R m') \<Longrightarrow> state_io_rel R (if b then m else m')"
  by simp

lemma kept_let: "(\<And>x. state_io_rel R (f x)) \<Longrightarrow> state_io_rel R (let x = e in f x)"
  by simp

lemma kept_option:
  "state_io_rel R m \<Longrightarrow> (\<And>x. state_io_rel R (f x)) \<Longrightarrow> state_io_rel R (case e of None \<Rightarrow> m | Some x \<Rightarrow> f x)"
  by (cases e) auto

lemmas kept_rules = kept_return kept_get kept_bind kept_if kept_let kept_option

end

text \<open>When single calls, \<open>open\<close> and the objects of a scope keep the relation, all operations that do not
  send keep it.\<close>

locale udp_kept = udp_relation +
  fixes os :: os
  assumes call: "(\<And>s. sys_fd (c s) = Some s) \<Longrightarrow> (\<And>s t data a p. c s \<noteq> Sys_sendto t data a p) \<Longrightarrow> state_io_rel R (sys_on os c)"
    and free: "sys_fd c' = None \<Longrightarrow> (\<And>t. c' \<noteq> Sys_socket t) \<Longrightarrow> (\<And>s. c' \<noteq> Sys_close s) \<Longrightarrow> state_io_rel R (sys os c')"
    and reopen: "state_io_rel R (udp_open os)"
    and scope: "state_io_rel R body \<Longrightarrow> state_io_rel R (with_socket os (body :: IPAddress udp))"
    and port_test: "state_io_rel R (udp_isLocalPortOpen os port)"
begin

lemma kept_options:
  "state_io_rel R (udp_setsockopt os opt value)" "state_io_rel R (udp_setIpDontFragment os isEnabled)"
  "state_io_rel R (udp_setReusePort os isEnabled)" "state_io_rel R (udp_setReuseAddress os isEnabled)"
  "state_io_rel R (udp_setRxBufferSize_B os size_B)" "state_io_rel R (udp_getRxBufferSize_B os)"
  "state_io_rel R (udp_setTxBufferSize_B os size_B)" "state_io_rel R (udp_getTxBufferSize_B os)"
  unfolding udp_setsockopt_def udp_setIpDontFragment_def udp_setReusePort_def udp_setReuseAddress_def
    udp_setRxBufferSize_B_def udp_getRxBufferSize_B_def udp_setTxBufferSize_B_def udp_getTxBufferSize_B_def
  by (intro kept_rules call; simp)+

lemma kept_binding: "state_io_rel R (udp_bind os p multicast interface)"
  unfolding udp_bind_def udp_unbind_def by (intro kept_rules kept_options reopen call; simp)

lemma kept_addresses: "state_io_rel R (udp_getLocalAddress os)" "state_io_rel R (udp_getLocalPort os)"
  unfolding udp_getLocalAddress_def udp_getLocalPort_def by (intro scope kept_rules kept_binding call; simp)+

lemma kept_priority: "state_io_rel R (udp_setThreadPriority os thread priority)"
  unfolding udp_setThreadPriority_def by (intro kept_rules free; simp)

lemma kept_waiting:
  "state_io_rel R (sys_on os (\<lambda>d. Sys_recvfrom d n))" "state_io_rel R (sys_on os (\<lambda>d. Sys_poll d e t))"
  by (intro call; simp)+

lemmas kept_operations = kept_options kept_binding kept_addresses kept_priority kept_waiting reopen port_test

end

subsection \<open>Every operation keeps the ledger\<close>

interpretation ledgers: udp_relation ledger_kept
  by unfold_locales (auto simp: ledger_kept_def)

lemma keeps_ledgerI: "(\<And>k u. ledger_ok k u \<Longrightarrow> ledger_ok k (snd (run_state m u))) \<Longrightarrow> keeps_ledger m"
  by (simp add: state_io_rel_def ledger_kept_def)

lemma keeps_ledgerD: "keeps_ledger m \<Longrightarrow> ledger_ok k u \<Longrightarrow> ledger_ok k (snd (run_state m u))"
  by (simp add: state_io_rel_def ledger_kept_def)

lemma ledger_step_other:
  "(\<And>t. call \<noteq> Sys_socket t) \<Longrightarrow> (\<And>s. call \<noteq> Sys_close s)
   \<Longrightarrow> ledger_step d (call, a) n = (if sys_fd call = Some d \<and> n = Some 0 then None else n)"
  by (cases call) auto

text \<open>A call that does not open or close keeps the ledger on the member, and without a descriptor.\<close>

lemma keeps_sys_on:
  assumes "\<And>s. sys_fd (call s) = Some s"
  shows "keeps_ledger (sys_on os call)"
proof (rule keeps_ledgerI)
  fix k u assume ok: "ledger_ok k u"
  have "call s \<noteq> Sys_socket t" "call s \<noteq> Sys_close t'" for s t t' using assms [of s] by auto
  then show "ledger_ok k (snd (run_state (sys_on os call) u))"
    using ok assms by (auto simp: ledger_ok_def run_sys_on run_sys ledger_step_other holds_def)
qed

lemma keeps_sys_free:
  assumes "sys_fd call = None" "\<And>t. call \<noteq> Sys_socket t" "\<And>s. call \<noteq> Sys_close s"
  shows "keeps_ledger (sys os call)"
  using assms by (auto intro!: keeps_ledgerI simp: ledger_ok_def run_sys ledger_step_other holds_def)

lemma run_update [simp]: "run_state (State_Monad.update f) u = ((), f u)"
  by (simp add: State_Monad.update_def)

lemma keeps_close: "keeps_ledger (udp_close os)"
  by (rule keeps_ledgerI) (auto simp: udp_close_def run_sys_on run_sys ledger_ok_def holds_def)

lemma close_socket [simp]: "m_socket (snd (run_state (udp_close os) u)) = 0"
  by (simp add: udp_close_def run_sys_on run_sys)

lemma keeps_socket_call:
  assumes "\<And>u. m_socket (snd (run_state m u)) = 0" "keeps_ledger m"
  shows "keeps_ledger (do { _ \<leftarrow> m; a \<leftarrow> sys os (Sys_socket t); State_Monad.update (\<lambda>u. u\<lparr>m_socket := handle (an_result a)\<rparr>) })"
proof (rule keeps_ledgerI)
  fix k u assume "ledger_ok k u"
  then have "ledger_ok k (snd (run_state m u))" "m_socket (snd (run_state m u)) = 0"
    using assms keeps_ledgerD by simp_all
  then show "ledger_ok k (snd (run_state (do { _ \<leftarrow> m; a \<leftarrow> sys os (Sys_socket t);
      State_Monad.update (\<lambda>u. u\<lparr>m_socket := handle (an_result a)\<rparr>) }) u))"
    by (auto simp: run_sys ledger_ok_def holds_def split: prod.splits)
qed

lemma keeps_open: "keeps_ledger (udp_open os)"
proof -
  let ?new = "do { _ \<leftarrow> udp_close os; a \<leftarrow> sys os (Sys_socket SOCK_DGRAM); State_Monad.update (\<lambda>u. u\<lparr>m_socket := handle (an_result a)\<rparr>) }"
  have "keeps_ledger ?new" by (rule keeps_socket_call) (simp, rule keeps_close)
  then have "keeps_ledger (do { _ \<leftarrow> ?new;
      status \<leftarrow> sys_on os Sys_getfl;
      _ \<leftarrow> sys_on os (\<lambda>s. Sys_setfl s (an_result status OR O_NONBLOCK));
      _ \<leftarrow> sys_on os (\<lambda>s. Sys_setsockopt s SO_BROADCAST 1);
      State_Monad.return () })"
    by (rule ledgers.kept_bind) (intro ledgers.kept_rules keeps_sys_on; simp)
  then show ?thesis by (simp add: udp_open_def)
qed

text \<open>A local object leaves what others hold as it was.\<close>

lemma keeps_with_socket:
  assumes "keeps_ledger body"
  shows "keeps_ledger (with_socket os body)"
proof (rule keeps_ledgerI)
  fix k u assume ok: "ledger_ok k u"
  let ?m = "do { udp_open os; r \<leftarrow> body; udp_close os; State_Monad.return r }"
  let ?u = "snd (run_state ?m \<lparr>m_socket = 0, m_log = m_log u\<rparr>)"
  have "keeps_ledger ?m" using assms by (intro ledgers.kept_rules keeps_open keeps_close)
  moreover have "ledger_ok (\<lambda>d. k d + holds u d) \<lparr>m_socket = 0, m_log = m_log u\<rparr>"
    using ok by (simp add: ledger_ok_def holds_def)
  ultimately have "ledger_ok (\<lambda>d. k d + holds u d) ?u" by (rule keeps_ledgerD)
  moreover have "m_socket ?u = 0" by (simp split: prod.splits) (metis close_socket snd_conv)
  ultimately show "ledger_ok k (snd (run_state (with_socket os body) u))"
    by (simp add: with_socket_def ledger_ok_def holds_def split: prod.splits)
qed

lemma keeps_send: "keeps_ledger (udp_send os data size_B port IPv4)"
  unfolding udp_send_def by (intro ledgers.kept_rules keeps_sys_on; simp)

text \<open>A descriptor in a local variable is one that somebody else holds until it is closed.\<close>

definition ledger_triple :: "(i32 \<Rightarrow> nat) \<Rightarrow> 'a udp \<Rightarrow> (i32 \<Rightarrow> nat) \<Rightarrow> bool" where
  "ledger_triple k m k' \<longleftrightarrow> (\<forall>u. ledger_ok k u \<longrightarrow> ledger_ok k' (snd (run_state m u)))"

lemma triple_bind:
  "ledger_triple k m k1 \<Longrightarrow> (\<And>x. ledger_triple k1 (f x) k') \<Longrightarrow> ledger_triple k (State_Monad.bind m f) k'"
  by (simp add: ledger_triple_def split: prod.split) (metis snd_conv)

lemma triple_if: "ledger_triple k m k' \<Longrightarrow> ledger_triple k m' k' \<Longrightarrow> ledger_triple k (if b then m else m') k'"
  by simp

lemma triple_return: "ledger_triple k (State_Monad.return x) k"
  by (simp add: ledger_triple_def)

lemma triple_use:
  assumes "sys_fd call = Some s" "0 < k s"
  shows "ledger_triple k (sys os call) k"
proof -
  have "call \<noteq> Sys_socket t" "call \<noteq> Sys_close t'" for t t' using assms(1) by auto
  then show ?thesis
    using assms by (auto simp: ledger_triple_def ledger_ok_def run_sys ledger_step_other holds_def)
qed

lemma triple_close: "ledger_triple (k(s := Suc (k s))) (sys os (Sys_close s)) k"
  by (simp add: ledger_triple_def ledger_ok_def run_sys holds_def)

lemma keeps_local:
  assumes "\<And>s k. s \<noteq> - 1 \<Longrightarrow> ledger_triple (k(s := Suc (k s))) (f s) k"
    and "\<And>k. ledger_triple k (f (- 1)) k"
  shows "keeps_ledger (do { a \<leftarrow> sys os (Sys_socket t); f (an_result a) })"
proof (rule keeps_ledgerI)
  fix k u assume ok: "ledger_ok k u"
  let ?a = "os (m_log u) (Sys_socket t)" and ?u = "snd (run_state (sys os (Sys_socket t)) u)"
  have "ledger_ok k (snd (run_state (f (an_result ?a)) ?u))"
  proof (cases "an_result ?a = - 1")
    case True
    then have "ledger_ok k ?u" using ok by (auto simp: ledger_ok_def run_sys holds_def)
    then show ?thesis using assms(2) True by (simp add: ledger_triple_def)
  next
    case False
    have "ledger_ok (k(an_result ?a := Suc (k (an_result ?a)))) ?u"
      using ok by (simp add: ledger_ok_def run_sys holds_def)
    then show ?thesis using assms(1) [OF False] by (auto simp: ledger_triple_def)
  qed
  then show "ledger_ok k (snd (run_state (do { a \<leftarrow> sys os (Sys_socket t); f (an_result a) }) u))"
    by (simp add: run_sys)
qed

lemmas triple_held = triple_use [where k = "k(s := Suc n)" and s = s for k s n, simplified]
lemmas triple_keep = triple_bind [of k m k for k m]
lemmas triple_drop = triple_bind [OF triple_close]

lemma keeps_isLocalPortOpen: "keeps_ledger (udp_isLocalPortOpen os port)"
  unfolding udp_isLocalPortOpen_def Let_def fd_handle handle_special_iff
proof (rule keeps_local, goal_cases)
  case (1 s k)
  then show ?case
    by (simp only: if_False) (intro triple_if triple_drop triple_return triple_keep triple_held, simp_all)
next
  case (2 k)
  show ?case by (simp add: triple_return)
qed

interpretation ledger_ops: udp_kept ledger_kept os for os
  by unfold_locales
     (auto intro: keeps_sys_on keeps_sys_free keeps_open keeps_with_socket keeps_isLocalPortOpen)

text \<open>The receive loop keeps what its calls of \<open>recvfrom\<close> and its callback keep.\<close>

lemma receive_loop_invariant:
  assumes "receive_loop os f s u = Some (s', u')" "I s u"
    and recv: "\<And>s u. I s u \<Longrightarrow> I s (snd (run_state (sys_on os (\<lambda>d. Sys_recvfrom d 65535)) u))"
    and call: "\<And>data size_B port IPv4 s u s' u'. I s u \<Longrightarrow> f data size_B port IPv4 s u = Some (s', u') \<Longrightarrow> I s' u'"
  shows "I s' u'"
proof -
  have "os' = os \<longrightarrow> f' = f \<longrightarrow> I s u \<longrightarrow> I (fst y) (snd y)" if "receive_loop os' f' s u = Some y" for os' f' y
    using that
  proof (rule receive_loop.raw_induct [rotated])
    fix rl os' and f' :: "'a onReceived" and s u y
    assume IH: "\<And>os' f' s u y. rl os' f' s u = Some y \<Longrightarrow> os' = os \<longrightarrow> f' = f \<longrightarrow> I s u \<longrightarrow> I (fst y) (snd y)"
      and step: "(let (a, u) = run_state (sys_on os' (\<lambda>d. Sys_recvfrom d 65535)) u in
        if an_result a <s 0 then Some (s, u)
        else case f' (an_buffer a) (an_result a) (bigEndian16 (an_port a)) (bigEndian32 (an_addr a)) s u of
          None \<Rightarrow> None | Some (s, u) \<Rightarrow> rl os' f' s u) = Some y"
    show "os' = os \<longrightarrow> f' = f \<longrightarrow> I s u \<longrightarrow> I (fst y) (snd y)"
      using step recv [of s u] call IH by (auto simp: Let_def split: prod.splits if_splits option.splits)
  qed
  with assms(1,2) show ?thesis by fastforce
qed

lemma udp_process_invariant:
  assumes "udp_process os g timeout_ms s u = Some (s', u')" "I s u"
    and poll: "\<And>s u. I s u \<Longrightarrow> I s (snd (run_state (sys_on os (\<lambda>d. Sys_poll d POLLIN timeout_ms)) u))"
    and recv: "\<And>s u. I s u \<Longrightarrow> I s (snd (run_state (sys_on os (\<lambda>d. Sys_recvfrom d 65535)) u))"
    and call: "\<And>f data size_B port IPv4 s u s' u'. g = Some f \<Longrightarrow> I s u \<Longrightarrow> f data size_B port IPv4 s u = Some (s', u') \<Longrightarrow> I s' u'"
  shows "I s' u'"
proof (cases g)
  case None
  then show ?thesis using assms(1,2) poll [of s u] by (auto simp: udp_process_def Let_def split: prod.splits if_splits)
next
  case (Some f)
  then show ?thesis
    using assms(1,2) poll [of s u] receive_loop_invariant [of os f _ _ s' u' I, OF _ _ recv call [OF Some]]
    by (auto simp: udp_process_def Let_def split: prod.splits if_splits)
qed

text \<open>What arrives is delivered: \<open>serves\<close> says that the next calls of \<open>recvfrom\<close> give the datagrams \<open>rs\<close>
  and then nothing, while the callback \<open>f\<close> runs in between.\<close>

primrec serves :: "os \<Rightarrow> 's onReceived \<Rightarrow> Answer list \<Rightarrow> 's \<Rightarrow> UDPSocket \<Rightarrow> ('s \<times> UDPSocket) \<Rightarrow> bool" where
  "serves os f [] s u r =
     (let (a, u') = run_state (sys_on os (\<lambda>d. Sys_recvfrom d 65535)) u in an_result a <s 0 \<and> r = (s, u'))"
| "serves os f (x # xs) s u r =
     (let (a, u') = run_state (sys_on os (\<lambda>d. Sys_recvfrom d 65535)) u in a = x \<and> \<not> an_result a <s 0
      \<and> (\<exists>s1 u1. f (an_buffer x) (an_result x) (bigEndian16 (an_port x)) (bigEndian32 (an_addr x)) s u' = Some (s1, u1)
           \<and> serves os f xs s1 u1 r))"

lemma receive_loop_serves: "serves os f rs s u r \<Longrightarrow> receive_loop os f s u = Some r"
  by (induction rs arbitrary: s u) (subst receive_loop.simps, auto simp: Let_def split: prod.splits)+

lemma ledger_sends: "ledger_ok k u \<Longrightarrow> ledger_ok k (udp_sends os ds u)"
  using keeps_send by (induction ds arbitrary: u) (auto simp: udp_sends_def keeps_ledgerD)

lemma ledger_process:
  assumes "udp_process os g timeout_ms s u = Some (s', u')" "ledger_ok k u"
    and "\<And>f data size_B port IPv4 s u s' u'. g = Some f \<Longrightarrow> ledger_ok k u \<Longrightarrow> f data size_B port IPv4 s u = Some (s', u') \<Longrightarrow> ledger_ok k u'"
  shows "ledger_ok k u'"
  by (rule udp_process_invariant [of os g timeout_ms s u s' u' "\<lambda>_. ledger_ok k"])
     (use assms keeps_ledgerD ledger_ops.kept_waiting in blast)+

lemma ledger_op: "udp_op os op u = Some u' \<Longrightarrow> ledger_ok k u \<Longrightarrow> ledger_ok k u'"
proof (cases op)
  case (Op_process reply timeout_ms)
  moreover assume "udp_op os op u = Some u'" "ledger_ok k u"
  ultimately obtain s where "udp_process os (map_option (udp_answer os) reply) timeout_ms () u = Some (s, u')" "ledger_ok k u"
    by auto
  then show "ledger_ok k u'"
    by (rule ledger_process) (auto simp: udp_answer_def ledger_sends)
qed (auto simp: ledger_sends udp_unbind_def intro: keeps_ledgerD ledger_ops.kept_operations)

lemma ledger_ops: "udp_ops os ops u = Some u' \<Longrightarrow> ledger_ok k u \<Longrightarrow> ledger_ok k u'"
  by (induction ops arbitrary: u) (auto intro: ledger_op split: Option.bind_splits)

lemma ledger_new: "ledger_ok k \<lparr>m_socket = 0, m_log = l\<rparr> \<Longrightarrow> ledger_ok k (UDPSocket_new os l)"
  unfolding UDPSocket_new_def by (rule keeps_ledgerD [OF keeps_open])

lemma ledger_delete:
  "ledger_ok k u \<Longrightarrow> d \<noteq> 0 \<Longrightarrow> d \<noteq> - 1 \<Longrightarrow> ledger d (UDPSocket_delete os u) = Some (k d)"
  using keeps_ledgerD [OF keeps_close, of k u os] close_socket [of os u]
  by (auto simp: UDPSocket_delete_def ledger_ok_def holds_def)

text \<open>
  C15. Descriptors over the life of a \<open>UDPSocket\<close>, whatever the operating system answers: from the
  constructor over any operations, failed ones and rebinding included, to the destructor, no call is
  made on a descriptor before the system has given it or after it was closed, none is closed twice,
  and in the end every one is closed, those of the local objects of \<open>getLocalAddress\<close> and
  \<open>isLocalPortOpen\<close> too. Excepted are the value 0, which the class takes for no
  socket, and -1, with which the system reports a failure and which the class takes for a socket.
\<close>

theorem descriptors_safe:
  assumes "udp_life os ops = Some l" "d \<noteq> 0" "d \<noteq> - 1"
  shows "ledger d l = Some 0"
proof -
  obtain u where u: "udp_ops os ops (UDPSocket_new os []) = Some u" "l = UDPSocket_delete os u"
    using assms(1) by (auto simp: udp_life_def)
  have "ledger_ok (\<lambda>_. 0) (UDPSocket_new os [])"
    by (rule ledger_new) (simp add: ledger_ok_def holds_def)
  then show ?thesis using ledger_delete [OF ledger_ops [OF u(1)]] assms(2,3) u(2) by blast
qed

text \<open>An operating system that gives the descriptors 3, 4 and so on, and nothing to receive.\<close>

definition example_answer :: "i32 \<Rightarrow> Answer" where
  "example_answer r = \<lparr>an_result = r, an_errno = 0, an_value = 4, an_addr = 0, an_port = 0, an_buffer = []\<rparr>"

fun example_os :: os where
  "example_os l (Sys_socket t) = example_answer (3 + of_nat (length (filter (\<lambda>(c, _). c \<in> {Sys_socket SOCK_DGRAM, Sys_socket SOCK_STREAM}) l)))"
| "example_os l (Sys_recvfrom s n) = example_answer (- 1)"
| "example_os l (Sys_poll s e t) = example_answer 1"
| "example_os l c = example_answer 0"

lemma not_isV4_init [simp]: "\<not> isV4 IPAddress_init"
  by (simp add: isV4_def IPAddress_init_def)

lemma example_answer_simps [simp]:
  "an_result (example_answer r) = r" "an_errno (example_answer r) = 0" "an_value (example_answer r) = 4"
  by (simp_all add: example_answer_def)

lemmas run_udp = UDPSocket_new_def UDPSocket_delete_def udp_open_def udp_close_def udp_bind_def udp_unbind_def
  udp_isLocalPortOpen_def udp_process_def run_sys_on run_sys Let_def

theorem descriptors_safe_witness:
  "\<exists>l. udp_life example_os [Op_bind 7 IPAddress_init IPAddress_init, Op_isLocalPortOpen 8] = Some l
     \<and> ledger 4 l = Some 0 \<and> ledger 5 l = Some 0 \<and> (Sys_close 4, example_answer 0) \<in> set l"
proof -
  have "map_option (\<lambda>l. (Sys_close 4, example_answer 0) \<in> set l)
      (udp_life example_os [Op_bind 7 IPAddress_init IPAddress_init, Op_isLocalPortOpen 8]) = Some True"
    by (simp add: udp_life_def run_udp)
  then obtain l where l: "udp_life example_os [Op_bind 7 IPAddress_init IPAddress_init, Op_isLocalPortOpen 8] = Some l"
    "(Sys_close 4, example_answer 0) \<in> set l"
    by auto
  show ?thesis using l descriptors_safe [OF l(1), of 4] descriptors_safe [OF l(1), of 5] by simp
qed

subsection \<open>Results\<close>

text \<open>\<open>bind\<close> takes any IPv4 address outside 224.0.0.0/4 as a wrong group and fails, 0.0.0.0
  included. \<open>getLocalAddress\<close> passes the loopback address as that argument, so it fails and returns
  the invalid address whatever the operating system answers.\<close>

lemma isV4_of_integer [simp]: "isV4 (IPAddress_of_integer v)"
  by (simp add: isV4_def IPAddress_of_integer_def)

lemma bind_not_a_group:
  assumes "\<not> (0xE0000000 \<le> v \<and> v \<le> 0xEFFFFFFF)"
  shows "\<not> fst (run_state (udp_bind os port (IPAddress_of_integer v) interface) u)"
  using assms by (simp add: udp_bind_def Let_def split: prod.split)

lemma getLocalAddress_always_invalid: "fst (run_state (udp_getLocalAddress os) u) = IPAddress_init"
proof -
  let ?bind = "udp_bind os 0 (IPAddress_of_integer INADDR_LOOPBACK) IPAddress_init"
  have "\<not> fst (run_state ?bind u')" for u' by (rule bind_not_a_group) simp
  then show ?thesis by (auto simp: udp_getLocalAddress_def with_socket_def split: prod.splits) (metis fst_conv)
qed

text \<open>A failed call of \<open>socket\<close> is not noticed: the handle is not 0, and \<open>send\<close> goes on with the
  descriptor \<open>-1\<close>. A descriptor 0, in contrast, counts as no socket and is never closed.\<close>

lemma open_socket: "m_socket (snd (run_state (udp_open os) u))
   = handle (an_result (os (m_log (snd (run_state (udp_close os) u))) (Sys_socket SOCK_DGRAM)))"
  by (simp add: udp_open_def run_sys_on run_sys split: prod.splits)

lemma failed_open_unnoticed:
  assumes "\<And>l. an_result (os l (Sys_socket SOCK_DGRAM)) = - 1" "size_B \<le> 65507"
  shows "\<exists>l a. m_log (snd (run_state (udp_send os data size_B port IPv4) (UDPSocket_new os [])))
     = l @ [(Sys_sendto (- 1) (take (unat size_B) data) (bigEndian32 IPv4) (bigEndian16 port), a)]"
proof -
  have "m_socket (UDPSocket_new os []) = handle (- 1)"
    unfolding UDPSocket_new_def open_socket assms(1) ..
  then have "m_socket (UDPSocket_new os []) \<noteq> 0" "fd (m_socket (UDPSocket_new os [])) = - 1"
    by (simp, simp only: fd_handle)
  then show ?thesis using assms(2) by (auto simp: udp_send_def run_sys_on run_sys not_less)
qed

lemma descriptor_0_leaks:
  assumes "\<And>l. an_result (os l (Sys_socket SOCK_DGRAM)) = 0"
  shows "UDPSocket_delete os (UDPSocket_new os []) = m_log (UDPSocket_new os [])"
    "\<not> fst (run_state (udp_send os data size_B port IPv4) (UDPSocket_new os []))"
proof -
  have "m_socket (UDPSocket_new os []) = 0" by (simp add: UDPSocket_new_def open_socket assms)
  then show "UDPSocket_delete os (UDPSocket_new os []) = m_log (UDPSocket_new os [])"
    "\<not> fst (run_state (udp_send os data size_B port IPv4) (UDPSocket_new os []))"
    by (simp_all add: UDPSocket_delete_def udp_close_def udp_send_def)
qed

text \<open>The thread priorities for the letters \<open>L\<close>, \<open>l\<close>, \<open>n\<close>, \<open>h\<close>, \<open>H\<close> grow in this order and
  stay between the system's bounds.\<close>

lemma thread_priority_ordered:
  assumes "0 \<le> lo" "lo \<le> hi"
  shows "\<exists>l n h. thread_priority lo hi CHR ''L'' = Some lo \<and> thread_priority lo hi CHR ''l'' = Some l
    \<and> thread_priority lo hi CHR ''n'' = Some n \<and> thread_priority lo hi CHR ''h'' = Some h
    \<and> thread_priority lo hi CHR ''H'' = Some hi \<and> lo \<le> l \<and> l \<le> n \<and> n \<le> h \<and> h \<le> hi"
proof -
  have half: "x sdiv 2 = x div 2" if "0 \<le> x" for x :: int
    using that by (simp add: signed_divide_int_def sgn_if)
  show ?thesis using assms by (auto simp: thread_priority_def half)
qed

end
