(* ===== verification/Udsp_System.thy ===== *)
theory Udsp_System
  imports Udsp_Lifecycle Udsp_Udp_Socket
begin

text \<open>
  The class \<open>UDSPSocket\<close> on top of the operating system: \<open>Impl\<close> with its member \<open>udpSocket\<close>, so that
  every datagram and every socket option is a system call. The calls of the application and the rounds
  of the worker thread at this level refine the steps of \<open>Udsp_Lifecycle\<close>, where the answers of the
  system were arguments; the log of the system has the datagrams that those steps send.
\<close>

subsection \<open>Operations\<close>

text \<open>The calls of \<open>udpSocket.send\<close> among the effects of an operation, in their order.\<close>

primrec effect_sends :: "effect list \<Rightarrow> datagram list" where
  "effect_sends [] = []"
| "effect_sends (e # es) =
     (case e of Sent data port IPv4 \<Rightarrow> [(data, of_nat (length data), port, IPv4)] | _ \<Rightarrow> []) @ effect_sends es"

definition perform :: "os \<Rightarrow> effect list \<Rightarrow> UDPSocket \<Rightarrow> UDPSocket" where
  "perform os outs u = udp_sends os (effect_sends outs) u"

text \<open>The two clock readings for the \<open>n\<close>-th datagram of a round are \<open>rx n\<close>.\<close>

type_synonym rx_clock = "nat \<Rightarrow> tick \<times> tick"

definition udsp_onReceived :: "os \<Rightarrow> rx_clock \<Rightarrow> (nat \<times> Impl \<times> effect list) onReceived" where
  "udsp_onReceived os rx data size_B port IPv4 s u =
     (case s of (n, i, outs) \<Rightarrow>
        map_option (\<lambda>(i, outs'). ((Suc n, i, outs @ outs'), perform os outs' u))
          (onUdpReceived (fst (rx n)) (snd (rx n)) data size_B port IPv4 i))"

definition udsp_round ::
  "os \<Rightarrow> rx_clock \<Rightarrow> tick \<Rightarrow> (u64 \<Rightarrow> Clocks) \<Rightarrow> Impl \<Rightarrow> UDPSocket \<Rightarrow> (Impl \<times> effect list \<times> UDPSocket) option" where
  "udsp_round os rx now_us clocks i u = do {
     let i = i\<lparr>i_TPS := i_TPS i + 1\<rparr>;
     ((_, i, outs1), u) \<leftarrow> udp_process os (Some (udsp_onReceived os rx)) 10 (0, i, []) u;
     let (i, outs2) = process_ts now_us i;
     let u = perform os outs2 u;
     (i, outs3) \<leftarrow> process_all clocks i;
     Some (i, outs1 @ outs2 @ outs3, perform os outs3 u)
   }"

text \<open>The options that \<open>connect\<close> and \<open>listen\<close> set; when a buffer size is refused they go on.\<close>

definition udsp_options :: "os \<Rightarrow> bool udp" where
  "udsp_options os = do {
     dontFragment \<leftarrow> udp_setIpDontFragment os True;
     if \<not> dontFragment then State_Monad.return False
     else do {
       _ \<leftarrow> udp_setRxBufferSize_B os 0x800000;
       _ \<leftarrow> udp_setTxBufferSize_B os 0x800000;
       State_Monad.return True
     }
   }"

definition udsp_connect ::
  "os \<Rightarrow> u64 \<Rightarrow> u16 \<Rightarrow> IPAddress \<Rightarrow> Impl \<Rightarrow> UDPSocket \<Rightarrow> bool \<times> Impl \<times> effect list \<times> UDPSocket" where
  "udsp_connect os newId port address i u =
     (if \<not> isV4 address then (False, i, [], u)
      else let (ready, u) = run_state (udsp_options os) u in
        if \<not> ready then (False, i, [], u)
        else let (r, i, outs) = impl_connect True newId port (toIntegerV4 address) i in (r, i, outs, u))"

definition udsp_listen :: "os \<Rightarrow> u16 \<Rightarrow> Impl \<Rightarrow> UDPSocket \<Rightarrow> bool \<times> Impl \<times> effect list \<times> UDPSocket" where
  "udsp_listen os port i u =
     (let (bound, u) = run_state (udp_bind os port IPAddress_init IPAddress_init) u in
      if \<not> bound then (False, i, [], u)
      else let (ready, u) = run_state (udsp_options os) u in
        if \<not> ready then (False, i, [], u)
        else let (localPort, u) = run_state (udp_getLocalPort os) u;
                 (r, i, outs) = impl_listen True True localPort i in (r, i, outs, u))"

definition udsp_stop :: "os \<Rightarrow> Impl \<Rightarrow> UDPSocket \<Rightarrow> Impl \<times> effect list \<times> UDPSocket" where
  "udsp_stop os i u = (let (i, outs) = impl_stop i in (i, outs, perform os outs u))"

definition udsp_getLocalAddress :: "os \<Rightarrow> UDPSocket \<Rightarrow> IPAddress \<times> UDPSocket" where
  "udsp_getLocalAddress os u = run_state (udp_getLocalAddress os) u"

definition udsp_getLocalPort :: "os \<Rightarrow> UDPSocket \<Rightarrow> u16 \<times> UDPSocket" where
  "udsp_getLocalPort os u = run_state (udp_getLocalPort os) u"

text \<open>Constructor and destructor. \<open>thread\<close> is the handle of the worker thread.\<close>

definition udsp_new :: "os \<Rightarrow> u64 \<Rightarrow> Impl \<times> UDPSocket" where
  "udsp_new os thread =
     (Impl_init, snd (run_state (udp_setThreadPriority os thread CHR ''H'') (UDPSocket_new os [])))"

definition udsp_delete :: "os \<Rightarrow> Impl \<Rightarrow> UDPSocket \<Rightarrow> effect list \<times> sys_log" where
  "udsp_delete os i u = (let (i, outs, u) = udsp_stop os i u in (outs, UDPSocket_delete os u))"

subsection \<open>Steps and runs\<close>

text \<open>The steps of a socket with its operating system. Those without system calls are as in \<open>sock_step\<close>.\<close>

inductive udsp_step :: "os \<Rightarrow> Impl \<Rightarrow> UDPSocket \<Rightarrow> effect list \<Rightarrow> Impl \<Rightarrow> UDPSocket \<Rightarrow> bool" for os where
  udsp_connects: "udsp_connect os newId port address i u = (r, i', outs, u') \<Longrightarrow> udsp_step os i u outs i' u'"
| udsp_listens: "udsp_listen os port i u = (r, i', outs, u') \<Longrightarrow> udsp_step os i u outs i' u'"
| udsp_stops: "udsp_stop os i u = (i', outs, u') \<Longrightarrow> udsp_step os i u outs i' u'"
| udsp_works: "i_isRunning i \<Longrightarrow> clock_ok now_us \<Longrightarrow> \<forall>n. clock_ok (snd (rx n))
    \<Longrightarrow> udsp_round os rx now_us clocks i u = Some (i', outs, u') \<Longrightarrow> udsp_step os i u outs i' u'"
| udsp_asks_address: "udsp_getLocalAddress os u = (r, u') \<Longrightarrow> udsp_step os i u [] i u'"
| udsp_asks_port: "udsp_getLocalPort os u = (p, u') \<Longrightarrow> udsp_step os i u [] i u'"
| udsp_disconnects: "impl_disconnect i = (r, i') \<Longrightarrow> udsp_step os i u [] i' u"
| udsp_sends: "map_of (i_connections i) key = Some c \<Longrightarrow> data_ok data size_B
    \<Longrightarrow> send_ts ctx data size_B copy streamId timeout_ms now_us (Some c) = (r, Some c')
    \<Longrightarrow> udsp_step os i u [] (put_connection key c' i) u"
| udsp_priority: "map_of (i_connections i) key = Some c
    \<Longrightarrow> udsp_step os i u [] (put_connection key (setTxStreamPriority_ts streamId priority c) i) u"
| udsp_onDelivered: "map_of (i_connections i) key = Some c
    \<Longrightarrow> udsp_step os i u [] (put_connection key (setOnDelivered delivered c) i) u"
| udsp_sets_onReceived: "map_of (i_connections i) key = Some c
    \<Longrightarrow> udsp_step os i u [] (put_connection key (setOnReceived received c) i) u"
| udsp_speedLimit: "map_of (i_connections i) key = Some c \<Longrightarrow> setTxSpeedLimit_B_s limit_B_s (Some c) = Some c'
    \<Longrightarrow> udsp_step os i u [] (put_connection key c' i) u"
| udsp_threshold: "udsp_step os i u [] (setRxPacketBufferSizeThreshold_B threshold_B i) u"
| udsp_bandwidth: "udsp_step os i u [] (setTestBandwidthState isEnabled i) u"

inductive udsp_run :: "os \<Rightarrow> Impl \<Rightarrow> UDPSocket \<Rightarrow> effect list \<Rightarrow> Impl \<Rightarrow> UDPSocket \<Rightarrow> bool" for os where
  udsp_start: "udsp_run os i u [] i u"
| udsp_next: "udsp_run os i u outs i' u' \<Longrightarrow> udsp_step os i' u' outs' i'' u'' \<Longrightarrow> udsp_run os i u (outs @ outs') i'' u''"

subsection \<open>What reaches the network\<close>

text \<open>The calls of \<open>sendto\<close> in a log, and those a list of effects should give: every datagram that UDP
  can carry, with address and port in network byte order.\<close>

definition sent_log :: "sys_log \<Rightarrow> (bytes \<times> u32 \<times> u16) list" where
  "sent_log l = concat (map (\<lambda>(c, a). case c of Sys_sendto s data addr port \<Rightarrow> [(data, addr, port)] | _ \<Rightarrow> []) l)"

definition carried :: "datagram list \<Rightarrow> (bytes \<times> u32 \<times> u16) list" where
  "carried ds = concat (map (\<lambda>(data, size_B, port, IPv4).
     if 65507 < size_B then [] else [(take (unat size_B) data, bigEndian32 IPv4, bigEndian16 port)]) ds)"

definition on_wire :: "effect list \<Rightarrow> (bytes \<times> u32 \<times> u16) list" where
  "on_wire outs = carried (effect_sends outs)"

text \<open>The system never answers \<open>socket\<close> with the descriptor 0, which is standard input.\<close>

definition no_descriptor_0 :: "os \<Rightarrow> bool" where
  "no_descriptor_0 os \<longleftrightarrow> (\<forall>l t. an_result (os l (Sys_socket t)) \<noteq> 0)"

definition silent :: "os \<Rightarrow> UDPSocket \<Rightarrow> UDPSocket \<Rightarrow> bool" where
  "silent os u u' \<longleftrightarrow> sent_log (m_log u') = sent_log (m_log u)
     \<and> (no_descriptor_0 os \<longrightarrow> m_socket u \<noteq> 0 \<longrightarrow> m_socket u' \<noteq> 0)"

lemma sent_log_simps [simp]:
  "sent_log [] = []" "sent_log (l @ l') = sent_log l @ sent_log l'"
  "sent_log ((c, a) # l) = (case c of Sys_sendto s data addr port \<Rightarrow> [(data, addr, port)] | _ \<Rightarrow> []) @ sent_log l"
  by (simp_all add: sent_log_def)

lemma sent_log_call: "(\<And>t data a p. c \<noteq> Sys_sendto t data a p) \<Longrightarrow> sent_log [(c, a)] = []"
  by (cases c) auto

lemma sent_close: "sent_log (m_log (snd (run_state (udp_close os) u))) = sent_log (m_log u)"
  by (simp add: udp_close_def run_sys_on run_sys)

interpretation silence: udp_relation "silent os" for os
  by unfold_locales (auto simp: silent_def)

lemma silent_open: "state_io_rel (silent os) (udp_open os)"
proof -
  have "sent_log (m_log (snd (run_state (udp_open os) u))) = sent_log (m_log u)" for u
    using sent_close [of os u] by (simp add: udp_open_def run_sys_on run_sys case_prod_unfold)
  then show ?thesis by (simp add: state_io_rel_def silent_def open_socket no_descriptor_0_def)
qed

lemma silent_call:
  assumes "\<And>s t data a p. c s \<noteq> Sys_sendto t data a p"
  shows "state_io_rel (silent os) (sys_on os c)"
  using sent_log_call [OF assms] by (simp add: state_io_rel_def silent_def run_sys_on run_sys)

lemma silent_scope:
  assumes "state_io_rel (silent os) body"
  shows "state_io_rel (silent os) (with_socket os body)"
proof -
  have "state_io_rel (silent os) (do { udp_open os; body })"
    using assms silent_open by (intro silence.kept_rules)
  then have body: "sent_log (m_log (snd (run_state (do { udp_open os; body }) v))) = sent_log (m_log v)" for v
    by (simp only: state_io_rel_def silent_def)
  have "sent_log (m_log (snd (run_state (do { udp_open os; r \<leftarrow> body; udp_close os; State_Monad.return r }) v)))
      = sent_log (m_log v)" for v
    using body [of v] sent_close by (simp split: prod.splits) (metis snd_conv)
  from this [of "\<lparr>m_socket = 0, m_log = l\<rparr>" for l] show ?thesis
    by (simp add: state_io_rel_def silent_def with_socket_def case_prod_unfold Let_def)
qed

lemma silent_isLocalPortOpen: "state_io_rel (silent os) (udp_isLocalPortOpen os port)"
  by (simp add: state_io_rel_def silent_def udp_isLocalPortOpen_def run_sys Let_def)

lemma silent_free:
  assumes "sys_fd c = None"
  shows "state_io_rel (silent os) (sys os c)"
proof -
  have "c \<noteq> Sys_sendto t data a p" for t data a p using assms by auto
  then show ?thesis using sent_log_call by (simp add: state_io_rel_def silent_def run_sys)
qed

interpretation silences: udp_kept "silent os" os for os
  by unfold_locales (erule silent_call | erule silent_free | rule silent_open silent_isLocalPortOpen | erule silent_scope)+

lemma sent_send:
  "m_socket u \<noteq> 0 \<Longrightarrow> sent_log (m_log (snd (run_state (udp_send os data size_B port IPv4) u)))
     = sent_log (m_log u) @ carried [(data, size_B, port, IPv4)]
   \<and> m_socket (snd (run_state (udp_send os data size_B port IPv4) u)) = m_socket u"
  by (simp add: udp_send_def run_sys_on run_sys carried_def)

lemma carried_simps [simp]:
  "carried [] = []" "carried (ds @ ds') = carried ds @ carried ds'"
  by (simp_all add: carried_def)

lemma carried_Cons: "carried (d # ds) = carried [d] @ carried ds"
  by (simp add: carried_def)

lemma on_wire_simps [simp]: "on_wire [] = []" "on_wire (outs @ outs') = on_wire outs @ on_wire outs'"
proof -
  have "effect_sends (outs @ outs') = effect_sends outs @ effect_sends outs'" by (induction outs) simp_all
  then show "on_wire [] = []" "on_wire (outs @ outs') = on_wire outs @ on_wire outs'" by (simp_all add: on_wire_def)
qed

lemma on_wire_App [simp]: "on_wire (map App evs) = []"
proof -
  have "effect_sends (map App evs) = []" by (induction evs) simp_all
  then show ?thesis by (simp add: on_wire_def)
qed

lemma sent_sends:
  "m_socket u \<noteq> 0 \<Longrightarrow> sent_log (m_log (udp_sends os ds u)) = sent_log (m_log u) @ carried ds
   \<and> m_socket (udp_sends os ds u) = m_socket u"
proof (induction ds arbitrary: u)
  case (Cons d ds)
  obtain data size_B port IPv4 where d: "d = (data, size_B, port, IPv4)" by (metis prod.exhaust)
  let ?u = "snd (run_state (udp_send os data size_B port IPv4) u)"
  have u: "sent_log (m_log ?u) = sent_log (m_log u) @ carried [d]" "m_socket ?u = m_socket u"
    using sent_send [OF Cons.prems] d by blast+
  have "udp_sends os (d # ds) u = udp_sends os ds ?u" by (simp add: udp_sends_def d)
  then show ?case using Cons.IH [of ?u] Cons.prems u carried_Cons [of d ds] by simp
qed (simp add: udp_sends_def)

lemma sent_perform:
  "m_socket u \<noteq> 0 \<Longrightarrow> sent_log (m_log (perform os outs u)) = sent_log (m_log u) @ on_wire outs
   \<and> m_socket (perform os outs u) = m_socket u"
  by (simp add: perform_def on_wire_def sent_sends)

subsection \<open>Refinement\<close>

text \<open>From \<open>u\<close> to \<open>u'\<close> the system calls send what is among \<open>outs\<close>, and descriptors are accounted for.\<close>

definition transmits :: "os \<Rightarrow> effect list \<Rightarrow> UDPSocket \<Rightarrow> UDPSocket \<Rightarrow> bool" where
  "transmits os outs u u' \<longleftrightarrow> ledger_kept u u' \<and> (no_descriptor_0 os \<and> m_socket u \<noteq> 0 \<longrightarrow>
     sent_log (m_log u') = sent_log (m_log u) @ on_wire outs \<and> m_socket u' \<noteq> 0)"

lemma transmits_trans:
  "transmits os outs u u' \<Longrightarrow> transmits os outs' u' u'' \<Longrightarrow> transmits os (outs @ outs') u u''"
  by (auto simp: transmits_def intro: ledgers.compose)

lemma transmits_nothing: "transmits os [] u u"
  by (simp add: transmits_def ledgers.same)

lemma transmits_silent:
  "state_io_rel (silent os) m \<Longrightarrow> keeps_ledger m \<Longrightarrow> run_state m u = (r, u') \<Longrightarrow> transmits os [] u u'"
  by (auto simp: transmits_def silent_def dest!: state_io_relD)

lemmas transmits_operations =
  transmits_silent [OF silences.kept_options(2) ledger_ops.kept_options(2)]
  transmits_silent [OF silences.kept_options(5) ledger_ops.kept_options(5)]
  transmits_silent [OF silences.kept_options(7) ledger_ops.kept_options(7)]
  transmits_silent [OF silences.kept_binding ledger_ops.kept_binding]
  transmits_silent [OF silences.kept_addresses(1) ledger_ops.kept_addresses(1)]
  transmits_silent [OF silences.kept_addresses(2) ledger_ops.kept_addresses(2)]

lemma transmits_perform: "transmits os outs u (perform os outs u)"
  using sent_perform ledger_sends by (auto simp: transmits_def perform_def ledger_kept_def)

lemma transmits_waiting:
  "transmits os outs u u' \<Longrightarrow> transmits os outs u (snd (run_state (sys_on os (\<lambda>d. Sys_recvfrom d n)) u'))"
  "transmits os outs u u' \<Longrightarrow> transmits os outs u (snd (run_state (sys_on os (\<lambda>d. Sys_poll d e t)) u'))"
  using transmits_trans [of os outs u u' "[]"]
    transmits_silent [OF silences.kept_waiting(1) ledger_ops.kept_waiting(1)]
    transmits_silent [OF silences.kept_waiting(2) ledger_ops.kept_waiting(2)]
  by (metis append_Nil2 prod.collapse)+

lemma receive_all_append:
  "receive_all ds i = Some (i', outs) \<Longrightarrow> receive_all ds' i' = Some (i'', outs')
   \<Longrightarrow> receive_all (ds @ ds') i = Some (i'', outs @ outs')"
  by (induction ds arbitrary: i outs) (auto split: Option.bind_splits prod.splits)

text \<open>A call of \<open>udpSocket.process\<close> with \<open>onUdpReceived\<close> as callback.\<close>

lemma udsp_process_refines:
  assumes "udp_process os (Some (udsp_onReceived os rx)) t (0, i, []) u = Some ((n, i', outs), u')"
  shows "\<exists>ds. receive_all ds i = Some (i', outs) \<and> (\<forall>d \<in> set ds. fst d \<in> range rx)" "transmits os outs u u'"
proof -
  let ?I = "\<lambda>(n, i', outs) u'. (\<exists>ds. receive_all ds i = Some (i', outs) \<and> (\<forall>d \<in> set ds. fst d \<in> range rx))
    \<and> transmits os outs u u'"
  have "?I (n, i', outs) u'"
  proof (rule udp_process_invariant [OF assms, of ?I])
    have "receive_all [] i = Some (i, []) \<and> (\<forall>d \<in> set []. fst d \<in> range rx)" by simp
    then show "?I (0, i, []) u" using transmits_nothing by blast
    show "?I s (snd (run_state (sys_on os (\<lambda>d. Sys_poll d POLLIN t)) u'))"
      "?I s (snd (run_state (sys_on os (\<lambda>d. Sys_recvfrom d 65535)) u'))" if "?I s u'" for s u'
      using that transmits_waiting by (auto split: prod.splits)
    fix f data size_B port IPv4 s v s' v'
    assume f: "Some (udsp_onReceived os rx) = Some f" and I: "?I s v" and r: "f data size_B port IPv4 s v = Some (s', v')"
    obtain m j o1 where s: "s = (m, j, o1)" by (metis prod.exhaust)
    then obtain j' o2 where call: "onUdpReceived (fst (rx m)) (snd (rx m)) data size_B port IPv4 j = Some (j', o2)"
      "s' = (Suc m, j', o1 @ o2)" "v' = perform os o2 v"
      using f r by (auto simp: udsp_onReceived_def)
    obtain ds where ds: "receive_all ds i = Some (j, o1)" "\<forall>d \<in> set ds. fst d \<in> range rx" "transmits os o1 u v"
      using I s by auto
    have "receive_all (ds @ [(rx m, data, size_B, port, IPv4)]) i = Some (j', o1 @ o2)"
      using receive_all_append [OF ds(1)] call(1) by (simp add: case_prod_unfold)
    moreover have "transmits os (o1 @ o2) u v'" using transmits_trans [OF ds(3) transmits_perform] call(3) by simp
    ultimately show "?I s' v'" using ds(2) call(2) by (auto intro!: exI [of _ "ds @ [(rx m, data, size_B, port, IPv4)]"])
  qed
  then show "\<exists>ds. receive_all ds i = Some (i', outs) \<and> (\<forall>d \<in> set ds. fst d \<in> range rx)" "transmits os outs u u'"
    by auto
qed

lemma udsp_round_refines:
  assumes "udsp_round os rx now clocks i u = Some (i', outs, u')"
  shows "\<exists>ds. process_round ds now clocks i = Some (i', outs) \<and> (\<forall>d \<in> set ds. fst d \<in> range rx)"
    "transmits os outs u u'"
proof -
  let ?i = "i\<lparr>i_TPS := i_TPS i + 1\<rparr>"
  obtain n i1 o1 u1 where p: "udp_process os (Some (udsp_onReceived os rx)) 10 (0, ?i, []) u = Some ((n, i1, o1), u1)"
    using assms by (auto simp: udsp_round_def Let_def split: Option.bind_splits)
  obtain i2 o2 where t: "process_ts now i1 = (i2, o2)" by fastforce
  obtain o3 where w: "process_all clocks i2 = Some (i', o3)" "outs = o1 @ o2 @ o3" "u' = perform os o3 (perform os o2 u1)"
    using assms p t by (auto simp: udsp_round_def Let_def split: Option.bind_splits)
  note r = udsp_process_refines [OF p]
  show "\<exists>ds. process_round ds now clocks i = Some (i', outs) \<and> (\<forall>d \<in> set ds. fst d \<in> range rx)"
  proof -
    obtain ds where ds: "receive_all ds ?i = Some (i1, o1)" "\<forall>d \<in> set ds. fst d \<in> range rx" using r(1) by blast
    have "process_round ds now clocks i = Some (i', outs)" using ds(1) t w(1,2) by (simp add: process_round_def)
    with ds(2) show ?thesis by blast
  qed
  show "transmits os outs u u'"
    using transmits_trans [OF r(2) transmits_trans [OF transmits_perform transmits_perform]] w(2,3) by simp
qed

lemma udsp_options_transmits: "run_state (udsp_options os) u = (r, u') \<Longrightarrow> transmits os [] u u'"
  by (rule transmits_silent [where m = "udsp_options os"])
     (auto simp: udsp_options_def intro!: silence.kept_rules silences.kept_options ledgers.kept_rules ledger_ops.kept_options)

lemma udsp_connect_refines:
  assumes "udsp_connect os newId port address i u = (r, i', outs, u')"
  shows "(i' = i \<and> outs = [] \<or> sock_step i outs i') \<and> transmits os outs u u'"
proof (cases "isV4 address")
  case True
  obtain ready u1 where o: "run_state (udsp_options os) u = (ready, u1)" by fastforce
  have u: "transmits os [] u u1" by (rule udsp_options_transmits [OF o])
  show ?thesis
  proof (cases ready)
    case r: True
    obtain r' j o1 where c: "impl_connect True newId port (toIntegerV4 address) i = (r', j, o1)" by (metis prod.exhaust)
    then have eq: "i' = j" "outs = o1" "u' = u1" using assms True o r by (auto simp: udsp_connect_def)
    have "sock_step i outs i'"
      using step_connect [of True newId port address i] c True eq by (simp add: socket_connect_def)
    moreover have "on_wire outs = []" 
      using c eq by (auto simp: impl_connect_def Let_def split: if_splits prod.splits)
    ultimately show ?thesis using u eq(3) by (simp add: transmits_def)
  qed (use assms True o u in \<open>auto simp: udsp_connect_def\<close>)
qed (use assms transmits_nothing in \<open>auto simp: udsp_connect_def\<close>)

lemma udsp_listen_refines:
  assumes "udsp_listen os port i u = (r, i', outs, u')"
  shows "(i' = i \<and> outs = [] \<or> sock_step i outs i') \<and> transmits os outs u u'"
proof -
  obtain bound u1 where b: "run_state (udp_bind os port IPAddress_init IPAddress_init) u = (bound, u1)" by fastforce
  obtain ready u2 where o: "run_state (udsp_options os) u1 = (ready, u2)" by fastforce
  obtain p u3 where p: "run_state (udp_getLocalPort os) u2 = (p, u3)" by fastforce
  obtain r' j o1 where l: "impl_listen True True p i = (r', j, o1)" by (metis prod.exhaust)
  note u1 = transmits_operations(4) [OF b] and u2 = udsp_options_transmits [OF o] and u3 = transmits_operations(6) [OF p]
  show ?thesis
  proof (cases "bound \<and> ready")
    case True
    then have eq: "i' = j" "outs = o1" "u' = u3" using assms b o p l by (auto simp: udsp_listen_def)
    have "on_wire outs = []" using l eq by (auto simp: impl_listen_def Let_def split: if_splits prod.splits)
    then have "transmits os outs u u'"
      using transmits_trans [OF transmits_trans [OF u1 u2] u3] eq(3) by (simp add: transmits_def)
    then show ?thesis using step_listen [OF l] eq by simp
  next
    case False
    then show ?thesis using assms b o u1 transmits_trans [OF u1 u2] by (auto simp: udsp_listen_def split: if_splits)
  qed
qed

lemma udsp_step_refines:
  assumes "udsp_step os i u outs i' u'" "sock_inv i"
  shows "sock_run (\<lambda>_. True) i outs i' \<and> transmits os outs u u'"
  using assms(1)
proof cases
  case (udsp_works now_us rx clocks)
  obtain ds where ds: "process_round ds now_us clocks i = Some (i', outs)" "\<forall>d \<in> set ds. fst d \<in> range rx"
    using udsp_round_refines(1) [OF udsp_works(4)] by blast
  then have "\<forall>d \<in> set ds. clock_ok (snd (fst d))" using udsp_works(3) by fastforce
  then have "sock_run (same_mode i) i outs i'"
    by (rule worker_round_refines_steps [OF assms(2) udsp_works(1,2) _ ds(1)])
  then show ?thesis using udsp_round_refines(2) [OF udsp_works(4)] by (auto elim: sock_run_mono)
next
  case (udsp_stops)
  then obtain j where j: "impl_stop i = (j, outs)" "i' = j" "u' = perform os outs u"
    by (auto simp: udsp_stop_def split: prod.splits)
  show ?thesis using sock_run_one [OF _ step_stop [OF j(1)]] transmits_perform j by simp
next
  case (udsp_connects newId port address r)
  then show ?thesis using udsp_connect_refines [OF udsp_connects] sock_run_one by (auto intro: run_start)
next
  case (udsp_listens port r)
  then show ?thesis using udsp_listen_refines [OF udsp_listens] sock_run_one by (auto intro: run_start)
next
  case (udsp_asks_address r)
  then show ?thesis using transmits_operations(5) run_start by (auto simp: udsp_getLocalAddress_def)
next
  case (udsp_asks_port p)
  then show ?thesis using transmits_operations(6) run_start by (auto simp: udsp_getLocalPort_def)
qed (auto intro!: sock_run_one transmits_nothing intro: sock_step.intros)

lemma udsp_run_refines:
  assumes "udsp_run os (setOnConnected a (setOnDisconnected b Impl_init)) u outs i u'"
  shows "sock_run (\<lambda>_. True) (setOnConnected a (setOnDisconnected b Impl_init)) outs i \<and> transmits os outs u u'"
  using assms
proof (induction "setOnConnected a (setOnDisconnected b Impl_init)" u outs i u' rule: udsp_run.induct)
  case (udsp_next u outs i' u' outs' i'' u'')
  then have "sock_inv i'" using sock_run_inv sock_inv_new by blast
  then show ?case
    using udsp_next udsp_step_refines [OF udsp_next(3)] sock_run_trans transmits_trans by blast
qed (auto intro: run_start transmits_nothing)

lemma udsp_new_ok:
  assumes "no_descriptor_0 os"
  shows "ledger_ok (\<lambda>_. 0) (snd (udsp_new os thread))" "sent_log (m_log (snd (udsp_new os thread))) = []"
    "m_socket (snd (udsp_new os thread)) \<noteq> 0"
proof -
  have "ledger_ok (\<lambda>_. 0) (UDPSocket_new os [])" by (rule ledger_new) (simp add: ledger_ok_def holds_def)
  then show "ledger_ok (\<lambda>_. 0) (snd (udsp_new os thread))"
    using keeps_ledgerD [OF ledger_ops.kept_priority] by (simp add: udsp_new_def)
  have "silent os (UDPSocket_new os []) (snd (udsp_new os thread))"
    using silences.kept_priority by (simp add: udsp_new_def state_io_rel_def)
  moreover have "sent_log (m_log (UDPSocket_new os [])) = []"
    using silent_open [of os] by (simp add: UDPSocket_new_def state_io_rel_def silent_def)
  moreover have "m_socket (UDPSocket_new os []) \<noteq> 0"
    using assms by (simp add: UDPSocket_new_def open_socket no_descriptor_0_def)
  ultimately show "sent_log (m_log (snd (udsp_new os thread))) = []" "m_socket (snd (udsp_new os thread)) \<noteq> 0"
    using assms by (simp_all add: silent_def)
qed

text \<open>
  C13. The whole socket refines the model of its life. For every operating system that does not give out
  the descriptor 0, over any calls of the application and rounds of the worker thread from the
  constructor on: the state of \<open>Impl\<close> is one that the steps of \<open>sock_step\<close> lead to, with the same
  effects; the calls of \<open>sendto\<close> in the log are exactly the datagrams among these effects, in order,
  with address and port in network byte order, up to those too large for UDP; the invariant of the
  socket holds; and after the destructor every descriptor is closed, each one used only while open.
\<close>

theorem udsp_refines:
  assumes "no_descriptor_0 os"
    and "udsp_run os (setOnConnected a (setOnDisconnected b (fst (udsp_new os thread)))) (snd (udsp_new os thread)) outs i u"
  shows "sock_run (\<lambda>_. True) (setOnConnected a (setOnDisconnected b Impl_init)) outs i \<and> sock_inv i
    \<and> sent_log (m_log u) = on_wire outs
    \<and> (\<forall>d. d \<noteq> 0 \<and> d \<noteq> - 1 \<longrightarrow> ledger d (snd (udsp_delete os i u)) = Some 0)"
proof -
  let ?i = "setOnConnected a (setOnDisconnected b Impl_init)"
  have run: "udsp_run os ?i (snd (udsp_new os thread)) outs i u" using assms(2) by (simp add: udsp_new_def)
  then have r: "sock_run (\<lambda>_. True) ?i outs i \<and> transmits os outs (snd (udsp_new os thread)) u" by (rule udsp_run_refines)
  then have inv: "sock_inv i" using sock_run_inv sock_inv_new by blast
  note new = udsp_new_ok [OF assms(1), of thread]
  have ok: "ledger_ok (\<lambda>_. 0) u" "sent_log (m_log u) = on_wire outs"
    using r new assms(1) by (auto simp: transmits_def ledger_kept_def)
  have "ledger_ok (\<lambda>_. 0) (perform os o' u)" for o'
    using transmits_perform [of os o' u] ok(1) by (simp add: transmits_def ledger_kept_def)
  from ledger_delete [OF this] have "ledger d (snd (udsp_delete os i u)) = Some 0" if "d \<noteq> 0" "d \<noteq> - 1" for d
    using that by (simp add: udsp_delete_def udsp_stop_def case_prod_unfold Let_def)
  then show ?thesis using r inv ok(2) by blast
qed

text \<open>An operating system that gives the descriptor 3 and the datagrams \<open>rs\<close>.\<close>

definition recv_count :: "sys_log \<Rightarrow> nat" where
  "recv_count l = length (filter (\<lambda>(c, a). case c of Sys_recvfrom s n \<Rightarrow> True | _ \<Rightarrow> False) l)"

fun example_arriving_os :: "Answer list \<Rightarrow> os" where
  "example_arriving_os rs l (Sys_socket t) = example_answer 3"
| "example_arriving_os rs l (Sys_recvfrom s n) = (if recv_count l < length rs then rs ! recv_count l else example_answer (- 1))"
| "example_arriving_os rs l (Sys_poll s e t) = example_answer 1"
| "example_arriving_os rs l c = example_answer 0"

theorem udsp_refines_witness:
  "\<exists>i u. udsp_listen (example_arriving_os []) 7 (setOnConnected True (setOnDisconnected True Impl_init))
        (snd (udsp_new (example_arriving_os []) 1)) = (True, i, [], u)
     \<and> i_isServer i \<and> sock_inv i \<and> sent_log (m_log u) = []
     \<and> ledger 3 (snd (udsp_delete (example_arriving_os []) i u)) = Some 0"
proof -
  let ?os = "example_arriving_os []" and ?i = "setOnConnected True (setOnDisconnected True Impl_init)"
  let ?u = "snd (udsp_new ?os 1)"
  have "fst (udsp_listen ?os 7 ?i ?u) \<and> fst (snd (snd (udsp_listen ?os 7 ?i ?u))) = []
      \<and> i_isServer (fst (snd (udsp_listen ?os 7 ?i ?u)))"
    by (simp add: udsp_listen_def udsp_options_def udp_setIpDontFragment_def udp_setsockopt_def udp_setRxBufferSize_B_def
        udp_setTxBufferSize_B_def udp_getLocalPort_def run_udp case_prod_unfold impl_listen_def Impl_init_def
        setOnConnected_def setOnDisconnected_def)
  then obtain i u where l: "udsp_listen ?os 7 ?i ?u = (True, i, [], u)" "i_isServer i" by (metis prod.collapse)
  have "udsp_run ?os ?i ?u ([] @ []) i u" by (rule udsp_next [OF udsp_start udsp_listens [OF l(1)]])
  moreover have "?i = setOnConnected True (setOnDisconnected True (fst (udsp_new ?os 1)))" by (simp add: udsp_new_def)
  moreover have "no_descriptor_0 ?os" by (simp add: no_descriptor_0_def)
  ultimately show ?thesis using l udsp_refines [of ?os True True 1 "[]" i u] by simp
qed

subsection \<open>A round reads everything that has arrived\<close>

text \<open>The system has the datagrams \<open>rs\<close> for the calls of \<open>recvfrom\<close>, in this order, and no more; \<open>poll\<close>
  reports that there is something to read.\<close>

definition arriving :: "os \<Rightarrow> Answer list \<Rightarrow> bool" where
  "arriving os rs \<longleftrightarrow> (\<forall>a \<in> set rs. \<not> an_result a <s 0)
     \<and> (\<forall>l s n. if recv_count l < length rs then os l (Sys_recvfrom s n) = rs ! recv_count l
                else an_result (os l (Sys_recvfrom s n)) <s 0)
     \<and> (\<forall>l s e t. 0 <s an_result (os l (Sys_poll s e t)))"

text \<open>The datagrams as \<open>onUdpReceived\<close> gets them, from the \<open>n\<close>-th of the round on.\<close>

primrec arrivals :: "rx_clock \<Rightarrow> nat \<Rightarrow> Answer list \<Rightarrow> ((tick \<times> tick) \<times> bytes \<times> u32 \<times> u16 \<times> u32) list" where
  "arrivals rx n [] = []"
| "arrivals rx n (a # rs) =
     (rx n, an_buffer a, an_result a, bigEndian16 (an_port a), bigEndian32 (an_addr a)) # arrivals rx (Suc n) rs"

lemma recv_count_simps [simp]:
  "recv_count [] = 0" "recv_count (l @ l') = recv_count l + recv_count l'"
  "recv_count ((c, a) # l) = (case c of Sys_recvfrom s n \<Rightarrow> 1 | _ \<Rightarrow> 0) + recv_count l"
  by (auto simp: recv_count_def split: SysCall.split)

lemma recv_count_perform: "recv_count (m_log (perform os outs u)) = recv_count (m_log u)"
proof -
  have "recv_count (m_log (udp_sends os ds u)) = recv_count (m_log u)" for ds
    by (induction ds arbitrary: u) (auto simp: udp_sends_def udp_send_def run_sys_on run_sys)
  then show ?thesis by (simp add: perform_def)
qed

lemma receive_loop_complete:
  assumes "arriving os rs" "receive_all (arrivals rx n (drop (recv_count (m_log u)) rs)) i = Some (i', outs')"
  shows "\<exists>n' u'. receive_loop os (udsp_onReceived os rx) (n, i, outs) u = Some ((n', i', outs @ outs'), u')"
  using assms(2)
proof (induction "length rs - recv_count (m_log u)" arbitrary: n i outs outs' u)
  case 0
  then have "an_result (os (m_log u) (Sys_recvfrom s n)) <s 0" for s n using assms(1) by (auto simp: arriving_def)
  then show ?case using 0 by (subst receive_loop.simps) (simp add: run_sys_on run_sys)
next
  case (Suc k)
  define a where "a = rs ! recv_count (m_log u)"
  define u1 where "u1 = snd (run_state (sys_on os (\<lambda>d. Sys_recvfrom d 65535)) u)"
  have lt: "recv_count (m_log u) < length rs" using Suc.hyps(2) by simp
  then have a: "os (m_log u) (Sys_recvfrom s m) = a" "\<not> an_result a <s 0" for s m
    using assms(1) by (auto simp: arriving_def a_def)
  have dr: "drop (recv_count (m_log u)) rs = a # drop (Suc (recv_count (m_log u))) rs"
    using Cons_nth_drop_Suc [OF lt] by (simp add: a_def)
  obtain i1 o1 o2 where c: "onUdpReceived (fst (rx n)) (snd (rx n)) (an_buffer a) (an_result a) (bigEndian16 (an_port a))
      (bigEndian32 (an_addr a)) i = Some (i1, o1)"
    "receive_all (arrivals rx (Suc n) (drop (Suc (recv_count (m_log u))) rs)) i1 = Some (i', o2)" "outs' = o1 @ o2"
    using Suc.prems unfolding dr by (auto simp: case_prod_unfold split: Option.bind_splits)
  let ?u = "perform os o1 u1"
  have count: "recv_count (m_log ?u) = Suc (recv_count (m_log u))"
    by (simp add: recv_count_perform u1_def run_sys_on run_sys)
  have "\<exists>n' u'. receive_loop os (udsp_onReceived os rx) (Suc n, i1, outs @ o1) ?u = Some ((n', i', (outs @ o1) @ o2), u')"
    by (rule Suc.hyps(1)) (use Suc.hyps(2) count c(2) in simp_all)
  moreover have "receive_loop os (udsp_onReceived os rx) (n, i, outs) u
      = receive_loop os (udsp_onReceived os rx) (Suc n, i1, outs @ o1) ?u"
    using c(1) a by (subst receive_loop.simps) (simp add: udsp_onReceived_def u1_def run_sys_on run_sys)
  ultimately show ?case using c(3) by simp
qed

text \<open>
  C14. A round of the worker thread ends and leaves nothing unread: when the system has any finite number
  of datagrams and no more, the loop over \<open>recvfrom\<close> ends, and the round has the state and the effects
  of \<open>process_round\<close> on all of these datagrams, in order, each with its size, port and address
  converted from network byte order, provided that \<open>process_round\<close> meets no undefined behaviour on them.
\<close>

theorem udsp_round_complete:
  assumes "arriving os rs"
    and "process_round (arrivals rx 0 (drop (recv_count (m_log u)) rs)) now clocks i = Some (i', outs)"
  shows "\<exists>u'. udsp_round os rx now clocks i u = Some (i', outs, u') \<and> transmits os outs u u'"
proof -
  let ?i = "i\<lparr>i_TPS := i_TPS i + 1\<rparr>"
  let ?u = "snd (run_state (sys_on os (\<lambda>d. Sys_poll d POLLIN 10)) u)"
  obtain i1 o1 where r: "receive_all (arrivals rx 0 (drop (recv_count (m_log u)) rs)) ?i = Some (i1, o1)"
    using assms(2) by (auto simp: process_round_def split: Option.bind_splits)
  obtain i2 o2 where t: "process_ts now i1 = (i2, o2)" by fastforce
  obtain o3 where w: "process_all clocks i2 = Some (i', o3)" "outs = o1 @ o2 @ o3"
    using assms(2) r t by (auto simp: process_round_def split: Option.bind_splits)
  have "recv_count (m_log ?u) = recv_count (m_log u)" by (simp add: run_sys_on run_sys)
  then obtain n' u1 where "receive_loop os (udsp_onReceived os rx) (0, ?i, [] @ []) ?u = Some ((n', i1, [] @ o1), u1)"
    using receive_loop_complete [OF assms(1), of rx 0 ?u ?i i1 o1 "[]"] r by auto
  moreover have "0 <s an_result (fst (run_state (sys_on os (\<lambda>d. Sys_poll d POLLIN 10)) u))"
    using assms(1) by (simp add: arriving_def run_sys_on run_sys)
  ultimately have "udp_process os (Some (udsp_onReceived os rx)) 10 (0, ?i, []) u = Some ((n', i1, o1), u1)"
    by (simp add: udp_process_def case_prod_unfold Let_def)
  then have "udsp_round os rx now clocks i u = Some (i', outs, perform os o3 (perform os o2 u1))"
    using t w by (simp add: udsp_round_def)
  then show ?thesis using udsp_round_refines(2) by blast
qed

theorem udsp_round_complete_witness:
  "\<exists>i' outs u'. udsp_round (example_arriving_os [example_answer 0, example_answer 5]) (\<lambda>n. (4, 4)) 5
      (\<lambda>_. \<lparr>k_now = 5, k_pace = \<lambda>_. 5, k_keepAlive = 5, k_end = 6\<rparr>) Impl_init \<lparr>m_socket = 3, m_log = []\<rparr> = Some (i', outs, u') \<and> i_TPS i' = 1 \<and> outs = []"
proof -
  let ?os = "example_arriving_os [example_answer 0, example_answer 5]"
    and ?k = "\<lambda>_. \<lparr>k_now = 5, k_pace = \<lambda>_. 5, k_keepAlive = 5, k_end = 6\<rparr>"
  have "process_round (arrivals (\<lambda>n. (4, 4)) 0 [example_answer 0, example_answer 5]) 5 ?k Impl_init
      = Some (Impl_init\<lparr>i_TPS := 1\<rparr>, [])"
    by (simp add: process_round_def onUdpReceived_def process_ts_def process_all_def Impl_init_def Let_def map_filter_simps)
  moreover have "arriving ?os [example_answer 0, example_answer 5]" by (simp add: arriving_def less_Suc_eq nth_Cons' word_sless_alt)
  ultimately show ?thesis
    using udsp_round_complete [of ?os "[example_answer 0, example_answer 5]" "\<lambda>n. (4, 4)" "\<lparr>m_socket = 3, m_log = []\<rparr>" 5 ?k
      Impl_init "Impl_init\<lparr>i_TPS := 1\<rparr>" "[]"] by fastforce
qed

end
