(* ===== verification/Udsp_Reassembly.thy ===== *)
theory Udsp_Reassembly
  imports Udsp_Exchange
begin

text \<open>
  Large packets: a packet that does not fit into one chunk is written by \<open>writeChunk\<close> as a
  beginOfPacket and pieces (src/UdspSocket/Stream.cpp) and put together again by \<open>readChunk\<close>. This
  theory composes the two: the chunks the transmit side writes slot by slot, the receive side that
  collects them, and the packet that reaches the application, also when a piece was lost on the way.
\<close>

subsection \<open>The chunks of a large packet\<close>

text \<open>What \<open>write_begin\<close> and \<open>write_piece\<close> write.\<close>

definition begin_bytes :: "bool \<Rightarrow> bool \<Rightarrow> u8 \<Rightarrow> u32 \<Rightarrow> u64 \<Rightarrow> bytes" where
  "begin_bytes rel front k n size_B =
     chunk_header (mk_beginOfPacket rel front (getNumberOfBits size_B)) k n
       @ write_by_bits (getNumberOfBits size_B) size_B @ write_u32 (0 :: u32)"

definition piece_bytes :: "bool \<Rightarrow> bool \<Rightarrow> u8 \<Rightarrow> u32 \<Rightarrow> u64 \<Rightarrow> bytes \<Rightarrow> bytes" where
  "piece_bytes rel front k n offset_B d =
     chunk_header (mk_pieceOfPacket rel front (getNumberOfBits offset_B) (getNumberOfBits (of_nat (length d)))) k n
       @ write_by_bits (getNumberOfBits offset_B) offset_B
       @ write_by_bits (getNumberOfBits (of_nat (length d))) (of_nat (length d)) @ d"

text \<open>The front packet \<open>n\<close> of transmit stream \<open>k\<close>: a reliable one of the bytes \<open>data\<close>, of which \<open>off\<close> have
  been sent when its transmission has begun.\<close>

definition sending :: "u8 \<Rightarrow> u32 \<Rightarrow> bytes \<Rightarrow> nat \<Rightarrow> bool \<Rightarrow> TxStreams \<Rightarrow> bool" where
  "sending k n data off started t \<longleftrightarrow> (let s = tx_stream_at k t in ts_id s = k \<and> ts_packetFifoIdx s = 0
     \<and> (\<exists>p ps. ts_fifo s = p # ps \<and> tp_id p = n \<and> tp_pointer p = data \<and> tx_packet_ok p \<and> tp_isReliable p
          \<and> tp_isStarted p = started \<and> unat (tp_offset_B p) = off))"

lemma sendingE:
  assumes "sending k n data off started t"
  obtains s p ps where "s = tx_stream_at k t" "ts_id s = k" "ts_packetFifoIdx s = 0" "ts_fifo s = p # ps" "tp_id p = n"
    "tp_pointer p = data" "tx_packet_ok p" "tp_isReliable p" "tp_isStarted p = started" "tp_offset_B p = of_nat off"
    "unat (tp_offset_B p) = off" "tp_size_B p = of_nat (length data)" "unat (tp_size_B p) = length data"
proof -
  obtain p ps where p: "ts_fifo (tx_stream_at k t) = p # ps" "tp_id p = n" "tp_pointer p = data" "tx_packet_ok p" "tp_isReliable p"
      "tp_isStarted p = started" "unat (tp_offset_B p) = off" "ts_id (tx_stream_at k t) = k" "ts_packetFifoIdx (tx_stream_at k t) = 0"
    using assms by (auto simp: sending_def Let_def)
  have size: "unat (tp_size_B p) = length data" using p(3,4) by (auto simp: tx_packet_ok_def)
  have "tp_offset_B p = of_nat off" "tp_size_B p = of_nat (length data)"
    unfolding p(7) [symmetric] size [symmetric] by simp_all
  with p size that show ?thesis by blast
qed

lemma sending_put:
  assumes "ts_id s = k" "ts_packetFifoIdx s = 0" "ts_fifo s = p # ps" "tx_packet_ok p" "tp_isReliable p"
  shows "sending k (tp_id p) (tp_pointer p) (unat (tp_offset_B p)) (tp_isStarted p) (add_sent q w (put_tx_stream k s t))"
proof -
  have "tx_stream_at k (add_sent q w (put_tx_stream k s t)) = s" by (simp add: add_sent_def) (simp add: tx_stream_at_def put_tx_stream_def update_conv')
  then show ?thesis using assms by (simp add: sending_def)
qed

lemma write_begin_sends:
  assumes t: "sending k n data 0 False t" and a: "18 \<le> unat a" "unat a < g_chunkHeader_B + length data"
  shows "\<exists>t'. write_selected on now m a priority k (tx_stream_at k t) t
      = Some (length (begin_bytes True True k n (of_nat (length data))), begin_bytes True True k n (of_nat (length data)), t', [])
    \<and> sending k n data 0 True t' \<and> length (begin_bytes True True k n (of_nat (length data))) \<le> unat a"
proof -
  obtain s p ps where s: "s = tx_stream_at k t" "ts_id s = k" "ts_packetFifoIdx s = 0" "ts_fifo s = p # ps"
    and p: "tp_id p = n" "tp_pointer p = data" "tx_packet_ok p" "tp_isReliable p" "\<not> tp_isStarted p" "tp_offset_B p = 0"
      "tp_size_B p = of_nat (length data)" "unat (tp_size_B p) = length data"
    by (rule sendingE [OF t]) simp
  let ?b = "getNumberOfBytes (getNumberOfBits (tp_size_B p))"
  have b: "?b \<le> 8" by (cases "getNumberOfBits (tp_size_B p)") auto
  have "unat (tp_size_B p) < 2 ^ 63" using p(3) by (simp add: tx_packet_ok_def)
  then have "unat ((of_nat (g_chunkHeader_B + ?b) + tp_size_B p) :: u64) = g_chunkHeader_B + ?b + length data"
    using b p(8) by (simp add: unat_word_ariths unat_of_nat_small)
  moreover have "unat (ucast a :: u64) = unat a" using unat_u32_less [of a] by (simp add: unat_ucast_mod del: unat_u32_less)
  ultimately have big: "\<not> of_nat (g_chunkHeader_B + ?b) + tp_size_B p \<le> (ucast a :: u64)"
    using a(2) by (simp add: word_le_nat_alt del: of_nat_add)
  have room: "g_chunkHeader_B + ?b + 4 \<le> unat a" using a(1) b by simp
  let ?p = "p\<lparr>tp_isStarted := True, tp_begin_us := now\<rparr>"
  have "tx_packet_ok ?p" "tp_isReliable ?p" using p(3,4) by (simp_all add: tx_packet_ok_def)
  then have "sending k n data 0 True (add_sent q w (put_tx_stream k (set_packet 0 ?p s) t))" for q w
    using sending_put [of "set_packet 0 ?p s" k ?p ps q w t] s p by (simp add: set_packet_def)
  then show ?thesis using big room s p unfolding s(1) [symmetric]
    by (simp add: write_selected_def write_begin_def begin_bytes_def chunk_header_def Let_def del: of_nat_add)
qed

text \<open>Then the next slice of the data goes out, and after the last one the packet starts over.\<close>

lemma piece_slice:
  assumes "off < length data" "17 \<le> unat a" "unat a < 65536" "unat (size_B :: u64) = length data" "unat offset_B = off"
  defines "h \<equiv> g_chunkHeader_B + getNumberOfBytes (getNumberOfBits offset_B) + 2 + 1"
  defines "w \<equiv> min (unat (a :: u32) - h + 1) (unat (size_B - offset_B))"
  shows "h \<le> unat a" "0 < w" "w < 65536" "off + w \<le> length data" "w \<le> unat a - h + 1"
    "mem_read data off w = Some (take w (drop off data))" "drop off data = take w (drop off data) @ drop (off + w) data"
    "getNumberOfBits (of_nat w) = B8 \<or> getNumberOfBits (of_nat w) = B16"
proof -
  have "getNumberOfBytes (getNumberOfBits offset_B) \<le> 8" by (cases "getNumberOfBits offset_B") auto
  then show h: "h \<le> unat a" using assms(2) by (simp add: h_def)
  have "unat (size_B - offset_B) = length data - off"
    using assms(1,4,5) by (subst unat_sub) (simp_all add: word_le_nat_alt)
  then show w: "0 < w" "w < 65536" "off + w \<le> length data" "w \<le> unat a - h + 1"
    using assms(1,3) h by (auto simp: w_def h_def)
  then show "mem_read data off w = Some (take w (drop off data))" by (simp add: mem_read_def)
  show "drop off data = take w (drop off data) @ drop (off + w) data"
    by (metis append_take_drop_id drop_drop add.commute)
  show "getNumberOfBits (of_nat w) = B8 \<or> getNumberOfBits (of_nat w) = B16"
    using w unat_of_nat_small [of w, where 'a = 64] by (intro getNumberOfBits_small) simp
qed

lemma sending_moved:
  fixes m
  assumes "ts_id s = k" "ts_packetFifoIdx s = 0" "ts_fifo s = p # ps" "tp_pointer p = data" "tx_packet_ok p" "tp_isReliable p"
    "unat (tp_offset_B p) = off" "unat (tp_size_B p) = length data" "off + w \<le> length data" "w < 65536"
  defines "q \<equiv> (if tp_size_B p \<le> tp_offset_B p + of_nat w then p\<lparr>tp_offset_B := 0, tp_isStarted := False\<rparr>
    else p\<lparr>tp_offset_B := tp_offset_B p + of_nat w, tp_isStarted := True\<rparr>)\<lparr>tp_datagramId := m\<rparr>"
  shows "if off + w < length data
    then sending k (tp_id p) data (off + w) True (add_sent r x (put_tx_stream k (set_packet 0 q s) t))
    else sending k (tp_id p) data 0 False (add_sent r x (put_tx_stream k (set_packet 0 q s) t))"
proof -
  have off: "unat (tp_offset_B p + of_nat w) = off + w"
    using assms(5,7-10) by (simp add: unat_word_ariths unat_of_nat_small tx_packet_ok_def)
  then have le: "tp_size_B p \<le> tp_offset_B p + of_nat w \<longleftrightarrow> \<not> off + w < length data"
    using assms(8) by (simp add: word_le_nat_alt not_less)
  have "tx_packet_ok q" "tp_isReliable q" "tp_id q = tp_id p" "tp_pointer q = data"
    using assms(4-6) by (simp_all add: q_def tx_packet_ok_def)
  then show ?thesis
    using sending_put [of "set_packet 0 q s" k q ps r x t] assms(1-3) off le by (auto simp: set_packet_def q_def)
qed

lemma write_piece_sends:
  assumes t: "sending k n data off True t" "off < length data" and a: "17 \<le> unat a" "unat a < 65536"
  shows "\<exists>d t'. write_selected on now m a priority k (tx_stream_at k t) t
      = Some (length (piece_bytes True True k n (of_nat off) d), piece_bytes True True k n (of_nat off) d, t', [])
    \<and> drop off data = d @ drop (off + length d) data \<and> d \<noteq> [] \<and> length d < 65536
    \<and> length (piece_bytes True True k n (of_nat off) d) \<le> unat a
    \<and> (if off + length d < length data then sending k n data (off + length d) True t' else sending k n data 0 False t')"
proof -
  obtain s p ps where s: "s = tx_stream_at k t" "ts_id s = k" "ts_packetFifoIdx s = 0" "ts_fifo s = p # ps"
    and p: "tp_id p = n" "tp_pointer p = data" "tx_packet_ok p" "tp_isReliable p" "tp_isStarted p" "tp_offset_B p = of_nat off"
      "unat (tp_offset_B p) = off" "unat (tp_size_B p) = length data"
    by (rule sendingE [OF t(1)]) simp
  define ob where "ob = getNumberOfBits (tp_offset_B p)"
  define w where "w = min (unat a - (g_chunkHeader_B + getNumberOfBytes ob + 2 + 1) + 1) (unat (tp_size_B p - tp_offset_B p))"
  note w = piece_slice [OF t(2) a p(8,7), folded ob_def, folded w_def]
  define d where "d = take w (drop off data)"
  have d: "length d = w" "mem_read data off w = Some d" using w(4,6) by (simp_all add: d_def)
  have hd: "ts_fifo s ! ts_packetFifoIdx s = p" using s(3,4) by simp
  define q where "q = (if tp_size_B p \<le> tp_offset_B p + of_nat w then p\<lparr>tp_offset_B := 0, tp_isStarted := False\<rparr>
    else p\<lparr>tp_offset_B := tp_offset_B p + of_nat w, tp_isStarted := True\<rparr>)\<lparr>tp_datagramId := ucast m\<rparr>"
  have sent: "sent_piece on now m w s = (set_packet 0 q s, [])"
    using s(3) p(4) hd by (simp add: sent_piece_def Let_def q_def)
  have "write_piece on now m a priority k s t
      = Some (length (piece_bytes True True k n (of_nat off) d), piece_bytes True True k n (of_nat off) d,
          add_sent priority (length (piece_bytes True True k n (of_nat off) d)) (put_tx_stream k (set_packet 0 q s) t), [])"
    unfolding write_piece_def Let_def hd ob_def [symmetric] w_def [symmetric]
    using w(1,8) d s(2,3) p sent by (simp add: piece_bytes_def chunk_header_def ob_def add.assoc)
  moreover have "length (piece_bytes True True k n (of_nat off) d) \<le> unat a"
    using w(1,5,8) d(1) by (auto simp: piece_bytes_def chunk_header_def p(6) [symmetric] ob_def [symmetric])
  ultimately show ?thesis
    using w(2,3) w(7) [folded d_def] d sending_moved [OF s(2-4) p(2-4,7,8) w(4,3), where m = "ucast m", folded q_def] p(1,5) hd
    unfolding s(1) [symmetric] by (intro exI [of _ d]) (auto simp: write_selected_def Let_def)
qed

subsection \<open>A packet that is being received\<close>

text \<open>The front packet \<open>n\<close> of stream \<open>k\<close> is \<open>p\<close>, begun and not complete.\<close>

definition collecting :: "u8 \<Rightarrow> u32 \<Rightarrow> RxPacket \<Rightarrow> RxStreams \<Rightarrow> bool" where
  "collecting k n p r \<longleftrightarrow> (let s = rx_stream_at k r in
     rs_id s = k \<and> \<not> rs_isNew s \<and> rs_frontPacketId s = n \<and> rs_fifo s = [p] \<and> rs_fifoShadow s = [n]
     \<and> rp_id p = n \<and> \<not> rp_isReceived p)"

lemma rx_chunk_collecting:
  assumes "collecting k n p r"
  shows "\<exists>s1 r1. rx_chunk now RTT_us k n front rel f r = f 0 s1 r1 \<and> rs_fifo s1 = [p\<lparr>rp_timeout_us := now + rtt200 RTT_us\<rparr>]
    \<and> rs_fifoShadow s1 = [n] \<and> rs_frontPacketId s1 = n \<and> rs_id s1 = k \<and> \<not> rs_isNew s1 \<and> rxs_acks r1 = rxs_acks r"
proof -
  define s where "s = rx_stream_at k r"
  have s: "rs_id s = k" "\<not> rs_isNew s" "rs_frontPacketId s = n" "rs_fifo s = [p]" "rs_fifoShadow s = [n]" "rp_id p = n"
    using assms by (auto simp: collecting_def s_def Let_def)
  have r1: "open_rx_stream now k r = put_rx_stream k s r" "rx_stream_at k (put_rx_stream k s r) = s"
    using s(2) by (simp_all add: open_rx_stream_def s_def [symmetric])
  have front: "updateFrontPacketId front n s = s"
    using s by (cases front) (auto simp: updateFrontPacketId_def advance_front_def Let_def)
  have get: "get_packet now n s = (0, s)" using s by (simp add: get_packet_def emplace_def emplace_up_eq Let_def)
  have "rx_chunk now RTT_us k n front rel f r
      = f 0 (set_rx_packet 0 (p\<lparr>rp_timeout_us := now + rtt200 RTT_us\<rparr>) s) (put_rx_stream k s r)"
    unfolding rx_chunk_def Let_def r1 front using s get by (simp add: isReceivedBefore_def)
  moreover have "rxs_acks (put_rx_stream k s r) = rxs_acks r" by (simp add: put_rx_stream_def)
  ultimately show ?thesis
    using s by (intro exI [of _ "set_rx_packet 0 (p\<lparr>rp_timeout_us := now + rtt200 RTT_us\<rparr>) s"] exI [of _ "put_rx_stream k s r"])
      (simp add: set_rx_packet_def)
qed

lemma begin_in_order:
  assumes r: "awaiting k n r" and size: "size_B \<noteq> 0" "size_B \<le> ucast th" and rtt: "0 < rtt200 RTT_us"
  shows "\<exists>p r'. rx_chunk now RTT_us k n front False (use_begin (Some f) now th k n rel size_B crc) r = Some (r', [])
    \<and> collecting k n p r' \<and> rp_size_B p = size_B \<and> rp_offset_B p = 0 \<and> rp_copy p = replicate (unat size_B) 0
    \<and> rp_isReliable p = rel \<and> rp_context p = 0 \<and> rxs_acks r' = rxs_acks r"
proof -
  define r1 where "r1 = open_rx_stream now k r"
  define s where "s = rx_stream_at k r1"
  note o = awaiting_open [OF r, of now, folded r1_def, folded s_def]
  obtain t b s1 where g: "get_packet now n s = (0, s1)" "rs_fifo s1 = [new_packet t b n]"
    "rs_fifoShadow s1 = [n]" "rs_frontPacketId s1 = n" "rs_id s1 = k" "\<not> rs_isNew s1"
    using waiting_get [OF o(1), of now] o(2,3) by auto
  define p where "p = (new_packet t b n)\<lparr>rp_timeout_us := now + rtt200 RTT_us, rp_size_B := size_B, rp_crc32 := crc,
     rp_id := n, rp_isReliable := rel, rp_copy := replicate (unat size_B) 0\<rparr>"
  define s2 where "s2 = s1\<lparr>rs_fifo := [p]\<rparr>"
  have keep: "processRxFifo (Some f) now s2 = (s2, [])"
    using g rtt by (subst processRxFifo.simps) (simp add: s2_def p_def rx_verdict_def Let_def)
  have "rx_chunk now RTT_us k n front False (use_begin (Some f) now th k n rel size_B crc) r
      = use_begin (Some f) now th k n rel size_B crc 0
          (set_rx_packet 0 ((new_packet t b n)\<lparr>rp_timeout_us := now + rtt200 RTT_us\<rparr>) s1) r1"
    unfolding rx_chunk_def Let_def r1_def [symmetric] s_def [symmetric] waiting_front [OF o(1)]
    using waiting_not_before [OF o(1)] o(1) g by (auto simp: waiting_def)
  also have "\<dots> = Some (put_rx_stream k s2 r1, [])"
  proof -
    have "vec_resize (unat size_B) [] = replicate (unat size_B) 0" by (simp add: vec_resize_def)
    then show ?thesis using g size keep by (simp add: use_begin_def set_rx_packet_def s2_def p_def Let_def)
  qed
  finally have "rx_chunk now RTT_us k n front False (use_begin (Some f) now th k n rel size_B crc) r
      = Some (put_rx_stream k s2 r1, [])" .
  moreover have "collecting k n p (put_rx_stream k s2 r1)" using g by (simp add: collecting_def s2_def p_def)
  moreover have "rxs_acks (put_rx_stream k s2 r1) = rxs_acks r" using o(4) by (simp add: put_rx_stream_def)
  moreover have "rp_size_B p = size_B" "rp_offset_B p = 0" "rp_copy p = replicate (unat size_B) 0" "rp_isReliable p = rel"
      "rp_context p = 0"
    by (simp_all add: p_def)
  ultimately show ?thesis by blast
qed

text \<open>The piece that is due: it goes into the copy, and the last one completes the packet.\<close>

lemma processRxFifo_one:
  assumes "rs_fifo s = [p]" "rs_fifoShadow s = [n]" "rs_frontPacketId s = n" "rp_id p = n" "rp_isReceived p" "rs_id s = k"
    "\<not> rs_isNew s"
  shows "\<exists>s'. processRxFifo (Some f) now s = (s', [Received (rp_context p) (if rp_copy p = [] then None else Some (rp_copy p))
      (rp_size_B p) 0 k CHR ''s'']) \<and> rs_fifo s' = [] \<and> rs_fifoShadow s' = [] \<and> rs_frontPacketId s' = n + 1
    \<and> rs_id s' = k \<and> \<not> rs_isNew s'"
proof -
  let ?s = "s\<lparr>rs_debugPacketId := n\<rparr>"
  define s' where "s' = pop_front_rx (updateFrontPacketId True (n + 1) ?s)"
  have v: "rx_verdict now n p = Deliver" using assms(5) by (simp add: rx_verdict_def)
  have s': "rs_fifo s' = []" "rs_fifoShadow s' = []" "rs_frontPacketId s' = n + 1" "rs_id s' = k" "\<not> rs_isNew s'"
    using assms advance_next [of ?s n] by (simp_all add: s'_def)
  have "rx_remove now p s = s'" using v assms(3,4) by (simp add: rx_remove_def s'_def)
  then have "processRxFifo (Some f) now s = (s', [Received (rp_context p) (if rp_copy p = [] then None else Some (rp_copy p))
      (rp_size_B p) 0 k CHR ''s''])"
    using assms v processRxFifo_Nil [OF s'(1)] by (subst processRxFifo.simps) (simp add: rx_report_def notify_received_def Let_def)
  with s' show ?thesis by blast
qed

lemma piece_taken_last:
  assumes s: "rs_fifo s = [p]" "rs_fifoShadow s = [n]" "rs_frontPacketId s = n" "rs_id s = k" "\<not> rs_isNew s"
    and p: "rp_id p = n" "rp_copy p \<noteq> []" "rp_size_B p \<le> e"
  shows "\<exists>r'. piece_taken (Some f) now k n e 0 p s r = (r', [Received (rp_context p) (Some (rp_copy p)) (rp_size_B p) 0 k CHR ''s''])
    \<and> awaiting k (n + 1) r' \<and> rxs_acks r' = rxs_acks (push_ack (rp_isReliable p) k n r)"
proof -
  let ?q = "p\<lparr>rp_offset_B := e, rp_isReceived := True\<rparr>"
  obtain s' where s': "processRxFifo (Some f) now (set_rx_packet 0 ?q s)
      = (s', [Received (rp_context p) (Some (rp_copy p)) (rp_size_B p) 0 k CHR ''s''])"
    "rs_fifo s' = []" "rs_fifoShadow s' = []" "rs_frontPacketId s' = n + 1" "rs_id s' = k" "\<not> rs_isNew s'"
    using processRxFifo_one [of "set_rx_packet 0 ?q s" ?q n k f now] s p by (auto simp: set_rx_packet_def)
  let ?r = "put_rx_stream k s' (push_ack (rp_isReliable p) k n r)"
  have "piece_taken (Some f) now k n e 0 p s r = (?r, [Received (rp_context p) (Some (rp_copy p)) (rp_size_B p) 0 k CHR ''s''])"
    using s'(1) p(3) by (simp add: piece_taken_def Let_def)
  moreover have "awaiting k (n + 1) ?r" using s' by (simp add: awaiting_def waiting_def)
  moreover have "rxs_acks ?r = rxs_acks (push_ack (rp_isReliable p) k n r)" by (simp add: put_rx_stream_def)
  ultimately show ?thesis by blast
qed

lemma piece_taken_more:
  assumes s: "rs_fifo s = [q]" "rs_fifoShadow s = [n]" "rs_frontPacketId s = n" "rs_id s = k" "\<not> rs_isNew s"
    and p: "rp_id p = n" "\<not> rp_isReceived p" "\<not> rp_size_B p \<le> e"
  shows "\<exists>r'. piece_taken (Some f) now k n e 0 p s r = (r', []) \<and> collecting k n (p\<lparr>rp_offset_B := e\<rparr>) r' \<and> rxs_acks r' = rxs_acks r"
proof -
  let ?r = "put_rx_stream k (set_rx_packet 0 (p\<lparr>rp_offset_B := e\<rparr>) s) r"
  have "piece_taken (Some f) now k n e 0 p s r = (?r, [])" using p(3) by (simp add: piece_taken_def Let_def)
  moreover have "collecting k n (p\<lparr>rp_offset_B := e\<rparr>) ?r" using s p by (simp add: collecting_def set_rx_packet_def)
  moreover have "rxs_acks ?r = rxs_acks r" by (simp add: put_rx_stream_def)
  ultimately show ?thesis by blast
qed

lemma piece_in_order:
  assumes r: "collecting k n p r" and copy: "length (rp_copy p) = unat (rp_size_B p)" "rp_copy p \<noteq> []"
    and d: "unat (rp_offset_B p) + length d \<le> unat (rp_size_B p)" "length d < 65536"
  defines "copy' \<equiv> overwrite (unat (rp_offset_B p)) d (rp_copy p)"
  shows "if unat (rp_offset_B p) + length d = unat (rp_size_B p)
    then \<exists>r'. rx_chunk now RTT_us k n front rel (use_piece (Some f) now k n rel (rp_offset_B p) (of_nat (length d)) d) r
        = Some (r', [Received (rp_context p) (Some copy') (rp_size_B p) 0 k CHR ''s'']) \<and> awaiting k (n + 1) r'
      \<and> rxs_acks r' = rxs_acks (push_ack (rp_isReliable p) k n r)
    else \<exists>p' r'. rx_chunk now RTT_us k n front rel (use_piece (Some f) now k n rel (rp_offset_B p) (of_nat (length d)) d) r
        = Some (r', []) \<and> collecting k n p' r' \<and> rp_size_B p' = rp_size_B p \<and> rp_copy p' = copy'
      \<and> unat (rp_offset_B p') = unat (rp_offset_B p) + length d \<and> rp_context p' = rp_context p
      \<and> rp_isReliable p' = rp_isReliable p \<and> rxs_acks r' = rxs_acks r"
proof -
  let ?use = "use_piece (Some f) now k n rel (rp_offset_B p) (of_nat (length d)) d"
  obtain s1 r1 where s1: "rx_chunk now RTT_us k n front rel ?use r = ?use 0 s1 r1"
    "rs_fifo s1 = [p\<lparr>rp_timeout_us := now + rtt200 RTT_us\<rparr>]" "rs_fifoShadow s1 = [n]" "rs_frontPacketId s1 = n" "rs_id s1 = k"
    "\<not> rs_isNew s1" "rxs_acks r1 = rxs_acks r"
    using rx_chunk_collecting [OF r, of now RTT_us front rel ?use] by blast
  define e where "e = rp_offset_B p + of_nat (length d)"
  have "unat (rp_offset_B p) + length d < 2 ^ 64" using d(1) unat_u64_less [of "rp_size_B p"] by (simp del: unat_u64_less)
  then have e: "unat e = unat (rp_offset_B p) + length d" using d(2) by (simp add: e_def unat_word_ariths unat_of_nat_small)
  have u: "ucast (of_nat (length d) :: u32) = (of_nat (length d) :: u64)"
    using d(2) by (simp add: word_unat_eq_iff unat_ucast_mod unat_of_nat_small)
  let ?q = "p\<lparr>rp_timeout_us := now + rtt200 RTT_us, rp_copy := copy'\<rparr>"
  have n0: "rp_size_B p \<noteq> 0" using copy by auto
  have "\<not> rp_size_B p < e" using d(1) e by (simp add: word_less_nat_alt)
  then have use: "?use 0 s1 r1 = Some (piece_taken (Some f) now k n e 0 ?q s1 r1)"
    unfolding use_piece_def Let_def u e_def [symmetric] using s1(2) copy d(1) n0 by (simp add: copy'_def)
  have id: "rp_id p = n" "\<not> rp_isReceived p" using r by (simp_all add: collecting_def Let_def)
  have copy': "copy' \<noteq> []" using copy d(1) by (auto simp: copy'_def overwrite_def)
  let ?s = "set_rx_packet 0 ?q s1"
  have s: "rs_fifo ?s = [?q]" "rs_fifoShadow ?s = [n]" "rs_frontPacketId ?s = n" "rs_id ?s = k" "\<not> rs_isNew ?s"
    using s1 by (simp_all add: set_rx_packet_def)
  have acks: "rxs_acks (push_ack b k n r1) = rxs_acks (push_ack b k n r)" for b using s1(7) by (simp add: push_ack_def)
  have same: "piece_taken (Some f) now k n e 0 ?q s1 r1 = piece_taken (Some f) now k n e 0 ?q ?s r1"
    using s1(2) by (simp add: piece_taken_def set_rx_packet_def Let_def)
  show ?thesis
  proof (cases "unat (rp_offset_B p) + length d = unat (rp_size_B p)")
    case True
    then have "rp_size_B ?q \<le> e" using e by (simp add: word_le_nat_alt)
    then show ?thesis using piece_taken_last [OF s, of e f now r1] True s1(1) use same id copy' acks by auto
  next
    case False
    then have "\<not> rp_size_B ?q \<le> e" using e d(1) by (simp add: word_le_nat_alt)
    then show ?thesis
      using piece_taken_more [OF s, of ?q e f now r1] False s1(1,7) use same id e by (auto intro!: exI [of _ "?q\<lparr>rp_offset_B := e\<rparr>"])
  qed
qed

text \<open>A piece behind a gap leaves the copy as it was and moves the offset to its own.\<close>

lemma piece_behind_gap:
  assumes r: "collecting k n p r" and p: "rp_size_B p \<noteq> 0" "rp_offset_B p < offset_B" "offset_B + ucast size_B \<le> rp_size_B p"
  shows "\<exists>p' r'. rx_chunk now RTT_us k n front rel (use_piece (Some f) now k n rel offset_B size_B d) r = Some (r', [])
    \<and> collecting k n p' r' \<and> rp_offset_B p' = offset_B \<and> rp_copy p' = rp_copy p \<and> rp_size_B p' = rp_size_B p
    \<and> rp_context p' = rp_context p \<and> rp_isReliable p' = rp_isReliable p"
proof -
  let ?use = "use_piece (Some f) now k n rel offset_B size_B d"
  obtain s r1 where s: "rx_chunk now RTT_us k n front rel ?use r = ?use 0 s r1"
    "rs_fifo s = [p\<lparr>rp_timeout_us := now + rtt200 RTT_us\<rparr>]" "rs_fifoShadow s = [n]" "rs_frontPacketId s = n" "rs_id s = k"
    "\<not> rs_isNew s"
    using rx_chunk_collecting [OF r, of now RTT_us front rel ?use] by blast
  let ?q = "p\<lparr>rp_timeout_us := now + rtt200 RTT_us, rp_offset_B := offset_B, rp_offsetRepeat_B := offset_B, rp_sizeRepeat_B := 0\<rparr>"
  have "?use 0 s r1 = Some (put_rx_stream k (set_rx_packet 0 ?q s) r1, [])"
    using use_piece_gap [OF refl, of s 0 offset_B size_B "Some f" now k n rel d r1] s(2) p by simp
  moreover have "collecting k n ?q (put_rx_stream k (set_rx_packet 0 ?q s) r1)"
    using s r by (simp add: collecting_def set_rx_packet_def Let_def)
  ultimately show ?thesis using s(1) by (auto intro!: exI [of _ ?q])
qed

subsection \<open>Reading the chunks of a large packet\<close>

text \<open>The next chunk is read whole, wherever it stands.\<close>

definition chunk_read :: "tick \<Rightarrow> u32 \<Rightarrow> Connection \<Rightarrow> bytes \<Rightarrow> Connection \<Rightarrow> event list \<Rightarrow> bool" where
  "chunk_read now th c bs c' evs \<longleftrightarrow> 0 < length bs
     \<and> (\<forall>rest a. length bs \<le> unat a \<longrightarrow> readChunk now th (bs @ rest) a c = Some (length bs, c', evs))"

lemma read_chunks_next:
  assumes "chunk_read now th c bs c1 e1" "drop off buf = bs @ tail" "unat size_B = length buf" "off \<le> length buf"
  shows "read_chunks now th buf size_B off c = map_option (\<lambda>(c, evs). (c, e1 @ evs)) (read_chunks now th buf size_B (off + length bs) c1)"
    "off + length bs \<le> length buf" "drop (off + length bs) buf = tail"
proof -
  have bs: "0 < length bs" using assms(1) by (simp add: chunk_read_def)
  have "length buf - off = length bs + length tail" using assms(2) by (metis length_append length_drop)
  then show le: "off + length bs \<le> length buf" using assms(4) bs by linarith
  show "drop (off + length bs) buf = tail" using arg_cong [OF assms(2), of "drop (length bs)"] by (simp add: add.commute)
  have "length bs \<le> unat (size_B - of_nat off)" using le assms(3,4) by (simp add: unat_sub_of_nat)
  then have "readChunk now th (drop off buf) (size_B - of_nat off) c = Some (length bs, c1, e1)"
    using assms(1,2) by (simp add: chunk_read_def)
  then show "read_chunks now th buf size_B off c = map_option (\<lambda>(c, evs). (c, e1 @ evs)) (read_chunks now th buf size_B (off + length bs) c1)"
    using bs le assms(3) by (intro read_chunks_step) linarith+
qed

primrec piece_chunks :: "bool \<Rightarrow> bool \<Rightarrow> u8 \<Rightarrow> u32 \<Rightarrow> nat \<Rightarrow> bytes list \<Rightarrow> bytes list" where
  "piece_chunks rel front k n off [] = []"
| "piece_chunks rel front k n off (d # ds) =
     piece_bytes rel front k n (of_nat off) d # piece_chunks rel front k n (off + length d) ds"

text \<open>The receiver has the first \<open>off\<close> bytes of \<open>data\<close>, and zeros for the rest.\<close>

definition expecting :: "u8 \<Rightarrow> u32 \<Rightarrow> bool \<Rightarrow> bytes \<Rightarrow> nat \<Rightarrow> RxStreams \<Rightarrow> bool" where
  "expecting k n rel data off r \<longleftrightarrow> (\<exists>p. collecting k n p r \<and> unat (rp_size_B p) = length data \<and> unat (rp_offset_B p) = off
     \<and> rp_copy p = take off data @ replicate (length data - off) 0 \<and> rp_context p = 0 \<and> rp_isReliable p = rel)"

lemma length_begin_bytes: "length (begin_bytes rel front k n size_B) = g_chunkHeader_B + getNumberOfBytes (getNumberOfBits size_B) + 4"
  by (simp add: begin_bytes_def chunk_header_def)

lemma length_piece_bytes: "length (piece_bytes rel front k n off d)
    = g_chunkHeader_B + getNumberOfBytes (getNumberOfBits off) + getNumberOfBytes (getNumberOfBits (of_nat (length d))) + length d"
  by (simp add: piece_bytes_def chunk_header_def)

lemma begin_read:
  assumes "awaiting k n (c_rxStreams c)" "c_onReceived c = Some f" "0 < rtt200 (t_RTT_us (c_traffic c))"
    "data \<noteq> []" "length data \<le> unat th"
  shows "\<exists>r. chunk_read now th c (begin_bytes rel front k n (of_nat (length data))) (c\<lparr>c_rxStreams := r\<rparr>) []
    \<and> expecting k n rel data 0 r \<and> rxs_acks r = rxs_acks (c_rxStreams c)"
proof -
  have "length data < 2 ^ 64" using assms(5) unat_u32_less [of th] by (simp del: unat_u32_less)
  then have size: "unat (of_nat (length data) :: u64) = length data" by (intro unat_of_nat_small) simp
  then have "(of_nat (length data) :: u64) \<noteq> 0" using assms(4) by auto
  moreover have "(of_nat (length data) :: u64) \<le> ucast th"
    using assms(5) size unat_u32_less [of th] by (simp add: word_le_nat_alt unat_ucast_mod del: unat_u32_less)
  ultimately obtain p r where r: "rx_chunk now (t_RTT_us (c_traffic c)) k n front False
        (use_begin (Some f) now th k n rel (of_nat (length data)) 0) (c_rxStreams c) = Some (r, [])"
      "collecting k n p r" "rp_size_B p = of_nat (length data)" "rp_offset_B p = 0"
      "rp_copy p = replicate (unat (of_nat (length data) :: u64)) 0" "rp_isReliable p = rel" "rp_context p = 0"
      "rxs_acks r = rxs_acks (c_rxStreams c)"
    using begin_in_order [OF assms(1) _ _ assms(3), where th = th and crc = 0 and now = now and f = f] by blast
  have "chunk_read now th c (begin_bytes rel front k n (of_nat (length data))) (c\<lparr>c_rxStreams := r\<rparr>) []"
    unfolding chunk_read_def length_begin_bytes
    using read_written_begin [where crc = 0 and th = th and now = now and c = c, OF _ refl] r(1) assms(2)
    by (simp add: begin_bytes_def on_rx_def)
  with r show ?thesis by (auto simp: expecting_def size intro!: exI [of _ p])
qed

lemma piece_chunk_read:
  assumes "rx_chunk now (t_RTT_us (c_traffic c)) k n front rel
      (use_piece (Some f) now k n rel offset_B (of_nat (length d)) d) (c_rxStreams c) = Some (r, evs)"
    "c_onReceived c = Some f" "length d < 65536" "d \<noteq> []"
  shows "chunk_read now th c (piece_bytes rel front k n offset_B d) (c\<lparr>c_rxStreams := r\<rparr>) evs"
  unfolding chunk_read_def length_piece_bytes
  using read_written_piece [OF _ refl _ refl refl assms(3), where offset_B = offset_B and th = th and now = now and c = c] assms(1,2,4)
  by (simp add: piece_bytes_def on_rx_def)

lemma piece_read:
  assumes r: "expecting k n rel data off (c_rxStreams c)" and f: "c_onReceived c = Some f"
    and d: "drop off data = d @ tail" "d \<noteq> []" "length d < 65536"
  shows "\<exists>r evs. chunk_read now th c (piece_bytes rel front k n (of_nat off) d) (c\<lparr>c_rxStreams := r\<rparr>) evs
    \<and> (if tail = [] then evs = [Received 0 (Some data) (of_nat (length data)) 0 k CHR ''s''] \<and> awaiting k (n + 1) r
         \<and> rxs_acks r = rxs_acks (push_ack rel k n (c_rxStreams c))
       else evs = [] \<and> expecting k n rel data (off + length d) r \<and> rxs_acks r = rxs_acks (c_rxStreams c))"
proof -
  obtain p where p: "collecting k n p (c_rxStreams c)" "unat (rp_size_B p) = length data" "unat (rp_offset_B p) = off"
      "rp_copy p = take off data @ replicate (length data - off) 0" "rp_context p = 0" "rp_isReliable p = rel"
    using r by (auto simp: expecting_def)
  have len: "length data - off = length d + length tail" using d(1) by (metis length_append length_drop)
  moreover have "0 < length d" using d(2) by simp
  ultimately have le: "off + length d + length tail = length data" by linarith
  have o: "rp_offset_B p = of_nat off" "rp_size_B p = of_nat (length data)"
    unfolding p(2,3) [symmetric] by simp_all
  have copy: "length (rp_copy p) = unat (rp_size_B p)" using p(2,4) le by simp
  then have copy: "length (rp_copy p) = unat (rp_size_B p)" "rp_copy p \<noteq> []" using p(2) le \<open>0 < length d\<close> by auto
  have over: "overwrite off d (rp_copy p) = take (off + length d) data @ replicate (length data - (off + length d)) 0"
    using d(1) le p(4) by (simp add: overwrite_def take_add)
  let ?use = "rx_chunk now (t_RTT_us (c_traffic c)) k n front rel
     (use_piece (Some f) now k n rel (of_nat off) (of_nat (length d)) d) (c_rxStreams c)"
  note read = piece_chunk_read [OF _ f d(3,2), where now = now and k = k and n = n and front = front and rel = rel
    and offset_B = "of_nat off" and th = th]
  have step: "if tail = [] then \<exists>r. ?use = Some (r, [Received 0 (Some (overwrite off d (rp_copy p))) (of_nat (length data)) 0 k CHR ''s''])
        \<and> awaiting k (n + 1) r \<and> rxs_acks r = rxs_acks (push_ack rel k n (c_rxStreams c))
      else \<exists>q r. ?use = Some (r, []) \<and> collecting k n q r \<and> rp_size_B q = rp_size_B p \<and> rp_copy q = overwrite off d (rp_copy p)
        \<and> unat (rp_offset_B q) = off + length d \<and> rp_context q = rp_context p \<and> rp_isReliable q = rp_isReliable p
        \<and> rxs_acks r = rxs_acks (c_rxStreams c)"
    using piece_in_order [OF p(1) copy, of d now "t_RTT_us (c_traffic c)" front rel f] d(3) le p(2,3,5,6)
    by (auto simp: o split: if_splits)
  show ?thesis
  proof (cases "tail = []")
    case True
    then have "overwrite off d (rp_copy p) = data" using over le by simp
    then show ?thesis using step True read by auto
  next
    case False
    then obtain q r where q: "?use = Some (r, [])" "collecting k n q r" "rp_size_B q = rp_size_B p"
        "rp_copy q = overwrite off d (rp_copy p)" "unat (rp_offset_B q) = off + length d" "rp_context q = rp_context p"
        "rp_isReliable q = rp_isReliable p" "rxs_acks r = rxs_acks (c_rxStreams c)"
      using step by auto
    then have "expecting k n rel data (off + length d) r" using p over by (auto simp: expecting_def intro!: exI [of _ q])
    then show ?thesis using False read [OF q(1)] q(8) by auto
  qed
qed

lemma gap_read:
  assumes r: "expecting k n rel (lost @ d) 0 (c_rxStreams c)" and f: "c_onReceived c = Some f"
    and d: "lost \<noteq> []" "d \<noteq> []" "length d < 65536"
  shows "\<exists>r. chunk_read now th c (piece_bytes rel front k n (of_nat (length lost)) d) (c\<lparr>c_rxStreams := r\<rparr>) []
    \<and> expecting k n rel (replicate (length lost) 0 @ d) (length lost) r"
proof -
  obtain p where p: "collecting k n p (c_rxStreams c)" "unat (rp_size_B p) = length lost + length d" "rp_offset_B p = 0"
      "rp_copy p = replicate (length lost + length d) 0" "rp_context p = 0" "rp_isReliable p = rel"
    using r by (auto simp: expecting_def unat_eq_0)
  have size: "rp_size_B p = of_nat (length lost + length d)" unfolding p(2) [symmetric] by simp
  have bound: "length lost + length d < 2 ^ 64" using unat_u64_less [of "rp_size_B p"] p(2) by simp
  then have o: "unat (of_nat (length lost) :: u64) = length lost" by (intro unat_of_nat_small) simp
  have u: "ucast (of_nat (length d) :: u32) = (of_nat (length d) :: u64)"
    using d(3) by (simp add: word_unat_eq_iff unat_ucast_mod unat_of_nat_small)
  have "rp_size_B p \<noteq> 0" using p(2) d by auto
  moreover have "rp_offset_B p < of_nat (length lost)" using o d(1) p(3) by (simp add: word_less_nat_alt)
  moreover have "of_nat (length lost) + ucast (of_nat (length d) :: u32) \<le> rp_size_B p"
    unfolding u size by simp
  ultimately obtain q r where q: "rx_chunk now (t_RTT_us (c_traffic c)) k n front rel
      (use_piece (Some f) now k n rel (of_nat (length lost)) (of_nat (length d)) d) (c_rxStreams c) = Some (r, [])"
      "collecting k n q r" "rp_offset_B q = of_nat (length lost)" "rp_copy q = rp_copy p" "rp_size_B q = rp_size_B p"
      "rp_context q = rp_context p" "rp_isReliable q = rp_isReliable p"
    using piece_behind_gap [OF p(1)] by blast
  then have "expecting k n rel (replicate (length lost) 0 @ d) (length lost) r"
    using p o by (auto simp: expecting_def replicate_add intro!: exI [of _ q])
  then show ?thesis using piece_chunk_read [OF q(1) f d(3,2)] by blast
qed

text \<open>A receiver for which the chunks \<open>bss\<close> complete the packet: the begin and all pieces, some pieces,
  or nothing.\<close>

definition ready :: "u8 \<Rightarrow> u32 \<Rightarrow> bool \<Rightarrow> bool \<Rightarrow> bytes \<Rightarrow> bytes list \<Rightarrow> RxStreams \<Rightarrow> bool" where
  "ready k n rel front data bss r \<longleftrightarrow>
     bss = [] \<and> awaiting k (n + 1) r \<and> (rel \<longrightarrow> rxs_acks r \<noteq> [] \<and> last (rxs_acks r) = (k, n))
   \<or> (\<exists>off ds. bss = piece_chunks rel front k n off ds \<and> ds \<noteq> [] \<and> concat ds = drop off data
        \<and> (\<forall>d \<in> set ds. d \<noteq> [] \<and> length d < 65536) \<and> expecting k n rel data off r)
   \<or> (\<exists>ds. bss = begin_bytes rel front k n (of_nat (length data)) # piece_chunks rel front k n 0 ds \<and> ds \<noteq> []
        \<and> concat ds = data \<and> (\<forall>d \<in> set ds. d \<noteq> [] \<and> length d < 65536) \<and> awaiting k n r)"

definition told :: "u8 \<Rightarrow> bytes \<Rightarrow> bytes list \<Rightarrow> bytes list \<Rightarrow> event list" where
  "told k data bss rest = (if bss \<noteq> [] \<and> rest = [] then [Received 0 (Some data) (of_nat (length data)) 0 k CHR ''s''] else [])"

lemma piece_chunks_empty [simp]: "(piece_chunks rel front k n off ds = []) = (ds = [])" "([] = piece_chunks rel front k n off ds) = (ds = [])"
  by (cases ds; simp)+

lemma ready_step:
  assumes "ready k n rel front data (bs # bss) (c_rxStreams c)" "c_onReceived c = Some f"
    "0 < rtt200 (t_RTT_us (c_traffic c))" "data \<noteq> []" "length data \<le> unat th"
  shows "\<exists>r. chunk_read now th c bs (c\<lparr>c_rxStreams := r\<rparr>) (told k data [bs] bss) \<and> ready k n rel front data bss r"
proof -
  consider off d ds where "bs = piece_bytes rel front k n (of_nat off) d" "bss = piece_chunks rel front k n (off + length d) ds"
      "drop off data = d @ concat ds" "\<forall>d \<in> set (d # ds). d \<noteq> [] \<and> length d < 65536" "expecting k n rel data off (c_rxStreams c)"
    | ds where "bs = begin_bytes rel front k n (of_nat (length data))" "bss = piece_chunks rel front k n 0 ds" "ds \<noteq> []"
      "concat ds = data" "\<forall>d \<in> set ds. d \<noteq> [] \<and> length d < 65536" "awaiting k n (c_rxStreams c)"
    using assms(1) unfolding ready_def
  proof (elim disjE exE conjE, goal_cases)
    case (2 off ds)
    then show ?case by (cases ds) auto
  qed auto
  then show ?thesis
  proof cases
    case 1
    have d: "d \<noteq> []" "length d < 65536" using 1(4) by auto
    obtain r evs where r: "chunk_read now th c bs (c\<lparr>c_rxStreams := r\<rparr>) evs"
      "if concat ds = [] then evs = [Received 0 (Some data) (of_nat (length data)) 0 k CHR ''s''] \<and> awaiting k (n + 1) r
         \<and> rxs_acks r = rxs_acks (push_ack rel k n (c_rxStreams c))
       else evs = [] \<and> expecting k n rel data (off + length d) r \<and> rxs_acks r = rxs_acks (c_rxStreams c)"
      using piece_read [OF 1(5) assms(2) 1(3) d, of now th front] unfolding 1(1) by blast
    have ds: "(concat ds = []) = (ds = [])" using 1(4) by (cases ds) auto
    have tail: "concat ds = drop (off + length d) data"
      using arg_cong [OF 1(3), of "drop (length d)"] by (simp add: add.commute)
    show ?thesis
    proof (cases "ds = []")
      case True
      then have "ready k n rel front data bss r" using r(2) ds 1(2) by (auto simp: ready_def push_ack_def)
      then show ?thesis using r True ds 1(2) by (auto simp: told_def)
    next
      case False
      then have "ready k n rel front data bss r" using r(2) ds 1(2,4) tail by (auto simp: ready_def)
      then show ?thesis using r False ds 1(2) by (auto simp: told_def)
    qed
  next
    case 2
    obtain r where r: "chunk_read now th c bs (c\<lparr>c_rxStreams := r\<rparr>) []" "expecting k n rel data 0 r"
      using begin_read [OF 2(6) assms(2-5), of now rel front] unfolding 2(1) by blast
    have "ready k n rel front data bss r"
      using r(2) 2 unfolding ready_def by (intro disjI2 disjI1 exI [of _ 0] exI [of _ ds]) auto
    then show ?thesis using r(1) 2(2,3) by (auto simp: told_def)
  qed
qed

text \<open>A datagram with any number of these chunks, and a sequence of such datagrams.\<close>

lemma ready_datagram:
  assumes "ready k n rel front data (bss @ rest) (c_rxStreams c)" "c_onReceived c = Some f"
    "0 < rtt200 (t_RTT_us (c_traffic c))" "data \<noteq> []" "length data \<le> unat th"
    "drop off buf = concat bss" "unat size_B = length buf" "off \<le> length buf"
  shows "\<exists>r. read_chunks now th buf size_B off c = Some (c\<lparr>c_rxStreams := r\<rparr>, told k data bss rest)
    \<and> ready k n rel front data rest r"
  using assms
proof (induction bss arbitrary: c off)
  case Nil
  then have "read_chunks now th buf size_B off c = Some (c, [])" by (intro read_chunks_end) simp
  then show ?case using Nil by (intro exI [of _ "c_rxStreams c"]) (simp add: told_def)
next
  case (Cons bs bss)
  obtain r where r: "chunk_read now th c bs (c\<lparr>c_rxStreams := r\<rparr>) (told k data [bs] (bss @ rest))"
      "ready k n rel front data (bss @ rest) r"
    using ready_step [OF _ Cons.prems(2-5), of k n rel front bs "bss @ rest" now] Cons.prems(1) by auto
  have d: "drop off buf = bs @ concat bss" using Cons.prems(6) by simp
  note nxt = read_chunks_next [OF r(1) d Cons.prems(7,8)]
  obtain r' where r': "read_chunks now th buf size_B (off + length bs) (c\<lparr>c_rxStreams := r\<rparr>)
      = Some (c\<lparr>c_rxStreams := r'\<rparr>, told k data bss rest)" "ready k n rel front data rest r'"
    using Cons.IH [of "c\<lparr>c_rxStreams := r\<rparr>" "off + length bs"] r(2) Cons.prems(2-5,7) nxt(2,3) by auto
  moreover have "told k data [bs] (bss @ rest) @ told k data bss rest = told k data (bs # bss) rest"
    by (simp add: told_def)
  ultimately show ?case using nxt(1) by auto
qed

primrec read_datagrams :: "u32 \<Rightarrow> (tick \<times> bytes) list \<Rightarrow> Connection \<Rightarrow> (Connection \<times> event list) option" where
  "read_datagrams th [] c = Some (c, [])"
| "read_datagrams th (d # ds) c = do {
     (c, evs) \<leftarrow> read_chunks (fst d) th (snd d) (of_nat (length (snd d))) sizeof_PacketHeader c;
     (c, evs') \<leftarrow> read_datagrams th ds c;
     Some (c, evs @ evs')
   }"

lemma ready_datagrams:
  assumes "ready k n rel front data (concat groups) (c_rxStreams c)" "c_onReceived c = Some f"
    "0 < rtt200 (t_RTT_us (c_traffic c))" "data \<noteq> []" "length data \<le> unat th"
    "list_all2 (\<lambda>bss d. length (snd d) < 2 ^ 32 \<and> sizeof_PacketHeader \<le> length (snd d)
       \<and> drop sizeof_PacketHeader (snd d) = concat bss) groups ds"
  shows "\<exists>r. read_datagrams th ds c = Some (c\<lparr>c_rxStreams := r\<rparr>, told k data (concat groups) []) \<and> ready k n rel front data [] r"
  using assms(6,1-5)
proof (induction groups ds arbitrary: c rule: list_all2_induct)
  case Nil
  then show ?case by (intro exI [of _ "c_rxStreams c"]) (simp add: told_def)
next
  case (Cons bss groups d ds)
  have len: "unat (of_nat (length (snd d)) :: u32) = length (snd d)" using Cons.hyps(1) by (intro unat_of_nat_u32) simp
  obtain r where r: "read_chunks (fst d) th (snd d) (of_nat (length (snd d))) sizeof_PacketHeader c
      = Some (c\<lparr>c_rxStreams := r\<rparr>, told k data bss (concat groups))" "ready k n rel front data (concat groups) r"
    using ready_datagram [OF _ Cons.prems(2-5) _ len, of k n rel front bss "concat groups" sizeof_PacketHeader "fst d"]
      Cons.prems(1) Cons.hyps(1) by auto
  obtain r' where r': "read_datagrams th ds (c\<lparr>c_rxStreams := r\<rparr>) = Some (c\<lparr>c_rxStreams := r'\<rparr>, told k data (concat groups) [])"
      "ready k n rel front data [] r'"
    using Cons.IH [of "c\<lparr>c_rxStreams := r\<rparr>"] r(2) Cons.prems(2-5) by auto
  have "told k data bss (concat groups) @ told k data (concat groups) [] = told k data (concat (bss # groups)) []"
    by (auto simp: told_def)
  then show ?case using r(1) r' by auto
qed

subsection \<open>From the sender's queue to the receiver's application\<close>

text \<open>Chunks written one after the other, each with the time, the datagram's number and the space of its slot.\<close>

primrec write_all :: "bool \<Rightarrow> Priority \<Rightarrow> u8 \<Rightarrow> (tick \<times> u32 \<times> u32) list \<Rightarrow> TxStreams \<Rightarrow> (bytes list \<times> TxStreams) option" where
  "write_all on priority k [] t = Some ([], t)"
| "write_all on priority k (x # xs) t = (case x of (now, m, a) \<Rightarrow> do {
     (w, bs, t, evs) \<leftarrow> write_selected on now m a priority k (tx_stream_at k t) t;
     (bss, t) \<leftarrow> write_all on priority k xs t;
     Some (bs # bss, t)
   })"

definition slot_fits :: "bytes \<Rightarrow> tick \<times> u32 \<times> u32 \<Rightarrow> bool" where
  "slot_fits bs x \<longleftrightarrow> length bs \<le> unat (snd (snd x))"

lemma write_all_pieces:
  assumes "sending k n data off True t" "off < length data" "length data - off \<le> length xs"
    "\<forall>x \<in> set xs. 17 \<le> unat (snd (snd x)) \<and> unat (snd (snd x)) < 65536"
  shows "\<exists>ds t'. write_all on priority k (take (length ds) xs) t = Some (piece_chunks True True k n off ds, t')
    \<and> ds \<noteq> [] \<and> concat ds = drop off data \<and> (\<forall>d \<in> set ds. d \<noteq> [] \<and> length d < 65536)
    \<and> list_all2 slot_fits (piece_chunks True True k n off ds) (take (length ds) xs)"
  using assms
proof (induction xs arbitrary: off t)
  case (Cons x xs)
  obtain now m a where x: "x = (now, m, a)" by (metis prod.exhaust)
  obtain d t1 where d: "write_selected on now m a priority k (tx_stream_at k t) t
      = Some (length (piece_bytes True True k n (of_nat off) d), piece_bytes True True k n (of_nat off) d, t1, [])"
    "drop off data = d @ drop (off + length d) data" "d \<noteq> []" "length d < 65536"
    "length (piece_bytes True True k n (of_nat off) d) \<le> unat a"
    "if off + length d < length data then sending k n data (off + length d) True t1 else sending k n data 0 False t1"
    using write_piece_sends [OF Cons.prems(1,2), of a on now m priority] Cons.prems(4) x by auto
  have fits: "slot_fits (piece_bytes True True k n (of_nat off) d) x" using d(5) x by (simp add: slot_fits_def)
  have "0 < length d" using d(3) by simp
  then have left: "length data - (off + length d) \<le> length xs" using Cons.prems(3) unfolding length_Cons by linarith
  show ?case
  proof (cases "off + length d < length data")
    case True
    then obtain ds t' where "write_all on priority k (take (length ds) xs) t1 = Some (piece_chunks True True k n (off + length d) ds, t')"
      "ds \<noteq> []" "concat ds = drop (off + length d) data" "\<forall>d \<in> set ds. d \<noteq> [] \<and> length d < 65536"
      "list_all2 slot_fits (piece_chunks True True k n (off + length d) ds) (take (length ds) xs)"
      using Cons.IH [of "off + length d" t1] d(6) left Cons.prems(4) by auto
    then show ?thesis using x d fits by (intro exI [of _ "d # ds"] exI [of _ t']) simp
  next
    case False
    then have "drop off data = d" using d(2) by simp
    then show ?thesis using x d fits by (intro exI [of _ "[d]"] exI [of _ t1]) simp
  qed
qed simp

lemma example_receiver_awaits:
  "awaiting 4 0 (c_rxStreams example_receiver)" "c_onReceived example_receiver = Some (\<lambda>_ _ _ _ _ _. 0)"
  "0 < rtt200 (t_RTT_us (c_traffic example_receiver))"
proof -
  show "awaiting 4 0 (c_rxStreams example_receiver)" using example_receiver_ok by (simp add: receiver_def)
  show "c_onReceived example_receiver = Some (\<lambda>_ _ _ _ _ _. 0)" by (simp add: example_receiver_eq)
  show "0 < rtt200 (t_RTT_us (c_traffic example_receiver))"
    by (simp add: example_receiver_eq rtt200_def partialReset_Connection_init)
qed

definition example_large :: TxStreams where
  "example_large = run_send 9 (replicate 40 7) 40 True 4 5000 1000 TxStreams_init"

lemma example_large_sending: "sending 4 0 (replicate 40 7) 0 False example_large"
  by (simp add: sending_def example_large_def run_send_def open_tx_stream_def tx_stream_at_def put_tx_stream_def
      TxStreams_init_def TxStream_init_def TxPacket_init_def tx_packet_ok_def Let_def)

lemma slots_bound: "list_all2 slot_fits bss (replicate j (5, 1, 30)) \<Longrightarrow> \<forall>bs \<in> set bss. length bs \<le> 30"
  by (induction j arbitrary: bss) (auto simp: list_all2_Cons2 slot_fits_def)

lemma concat_singletons: "concat (map (\<lambda>x. [x]) xs) = xs"
  by (induction xs) auto

text \<open>
  C1. A large packet arrives whole. A reliable packet that does not fit into the space of the next slot
  is written as a begin and pieces, one per slot, each within its space, until all of it is written, when the
  first slot has at least 18 bytes and the others at least 17; however these chunks are packed into datagrams,
  reading the datagrams in order reports the packet once, with exactly the bytes that were sent, and
  acknowledges it, when the packet is not larger than the receiver's threshold for buffering.
\<close>

theorem large_packet_delivered:
  assumes send: "sending k n data 0 False t" "18 \<le> unat (snd (snd x))" "unat (snd (snd x)) < g_chunkHeader_B + length data"
      "length data \<le> length xs" "\<forall>y \<in> set xs. 17 \<le> unat (snd (snd y)) \<and> unat (snd (snd y)) < 65536"
    and rcv: "awaiting k n (c_rxStreams c)" "c_onReceived c = Some f" "0 < rtt200 (t_RTT_us (c_traffic c))" "length data \<le> unat th"
  shows "\<exists>j bss t'. write_all on priority k (x # take j xs) t = Some (bss, t') \<and> list_all2 slot_fits bss (x # take j xs)
    \<and> (\<forall>groups ds. concat groups = bss \<longrightarrow> list_all2 (\<lambda>bss d. length (snd d) < 2 ^ 32 \<and> sizeof_PacketHeader \<le> length (snd d)
          \<and> drop sizeof_PacketHeader (snd d) = concat bss) groups ds \<longrightarrow>
        (\<exists>c'. read_datagrams th ds c = Some (c', [Received 0 (Some data) (of_nat (length data)) 0 k CHR ''s''])
          \<and> awaiting k (n + 1) (c_rxStreams c') \<and> rxs_acks (c_rxStreams c') \<noteq> [] \<and> last (rxs_acks (c_rxStreams c')) = (k, n)))"
proof -
  obtain now m a where x: "x = (now, m, a)" by (metis prod.exhaust)
  let ?b = "begin_bytes True True k n (of_nat (length data))"
  obtain t1 where t1: "write_selected on now m a priority k (tx_stream_at k t) t = Some (length ?b, ?b, t1, [])"
      "sending k n data 0 True t1" "length ?b \<le> unat a"
    using write_begin_sends [OF send(1), of a on now m priority] send(2,3) x by auto
  have data: "data \<noteq> []" by (rule sendingE [OF send(1)]) (auto simp: tx_packet_ok_def)
  obtain ds t' where ds: "write_all on priority k (take (length ds) xs) t1 = Some (piece_chunks True True k n 0 ds, t')"
    "ds \<noteq> []" "concat ds = data" "\<forall>d \<in> set ds. d \<noteq> [] \<and> length d < 65536"
    "list_all2 slot_fits (piece_chunks True True k n 0 ds) (take (length ds) xs)"
    using write_all_pieces [OF t1(2), of xs on priority] send(4,5) data by auto
  have ready: "ready k n True True data (?b # piece_chunks True True k n 0 ds) (c_rxStreams c)"
    unfolding ready_def using ds(2,3,4) rcv(1) by (intro disjI2) auto
  have "\<exists>c'. read_datagrams th dgs c = Some (c', [Received 0 (Some data) (of_nat (length data)) 0 k CHR ''s''])
      \<and> awaiting k (n + 1) (c_rxStreams c') \<and> rxs_acks (c_rxStreams c') \<noteq> [] \<and> last (rxs_acks (c_rxStreams c')) = (k, n)"
    if g: "concat groups = ?b # piece_chunks True True k n 0 ds"
      "list_all2 (\<lambda>bss d. length (snd d) < 2 ^ 32 \<and> sizeof_PacketHeader \<le> length (snd d)
         \<and> drop sizeof_PacketHeader (snd d) = concat bss) groups dgs" for groups dgs
  proof -
    obtain r where r: "read_datagrams th dgs c = Some (c\<lparr>c_rxStreams := r\<rparr>, told k data (concat groups) [])"
        "ready k n True True data [] r"
      using ready_datagrams [OF _ rcv(2,3) data rcv(4) g(2), of k n True True] ready g(1) by auto
    show ?thesis using r g(1) by (auto simp: told_def ready_def)
  qed
  moreover have "slot_fits ?b x" using t1(3) x by (simp add: slot_fits_def)
  ultimately show ?thesis
    using t1(1) ds(1,5) x
    by (intro exI [of _ "length ds"] exI [of _ "?b # piece_chunks True True k n 0 ds"] exI [of _ t']) simp
qed


theorem large_packet_delivered_witness:
  "\<exists>j bss t'. write_all True Medium 4 ((5, 1, 30) # take j (replicate 40 (5, 1, 30))) example_large = Some (bss, t')
    \<and> (\<exists>c'. read_datagrams 0x100000 (map (\<lambda>bs. (9, replicate 26 0 @ bs)) bss) example_receiver
        = Some (c', [Received 0 (Some (replicate 40 7)) 40 0 4 CHR ''s'']))"
proof -
  let ?xs = "replicate 40 (5 :: tick, 1 :: u32, 30 :: u32)"
  have slots: "18 \<le> unat (snd (snd (5 :: tick, 1 :: u32, 30 :: u32)))"
      "unat (snd (snd (5 :: tick, 1 :: u32, 30 :: u32))) < g_chunkHeader_B + length (replicate 40 (7 :: u8))"
      "length (replicate 40 (7 :: u8)) \<le> length ?xs" "\<forall>y \<in> set ?xs. 17 \<le> unat (snd (snd y)) \<and> unat (snd (snd y)) < 65536"
    by simp_all
  have th: "length (replicate 40 (7 :: u8)) \<le> unat (0x100000 :: u32)" by simp
  obtain j bss t' where w: "write_all True Medium 4 ((5, 1, 30) # take j ?xs) example_large = Some (bss, t')"
      "list_all2 slot_fits bss ((5, 1, 30) # take j ?xs)"
      "\<forall>groups ds. concat groups = bss \<longrightarrow> list_all2 (\<lambda>bss d. length (snd d) < 2 ^ 32 \<and> sizeof_PacketHeader \<le> length (snd d)
          \<and> drop sizeof_PacketHeader (snd d) = concat bss) groups ds \<longrightarrow>
        (\<exists>c'. read_datagrams 0x100000 ds example_receiver = Some (c', [Received 0 (Some (replicate 40 7)) (of_nat (length (replicate 40 (7 :: u8)))) 0 4 CHR ''s''])
          \<and> awaiting 4 (0 + 1) (c_rxStreams c') \<and> rxs_acks (c_rxStreams c') \<noteq> [] \<and> last (rxs_acks (c_rxStreams c')) = (4, 0))"
    using large_packet_delivered [OF example_large_sending slots example_receiver_awaits th, of True Medium]
    by (elim exE conjE) (rule that; assumption)
  have "list_all2 slot_fits bss (replicate (Suc (min j 40)) (5, 1, 30))" using w(2) by (simp only: take_replicate replicate_Suc)
  then have "\<forall>bs \<in> set bss. length bs \<le> 30" by (rule slots_bound)
  then have "list_all2 (\<lambda>bss d. length (snd d) < 2 ^ 32 \<and> sizeof_PacketHeader \<le> length (snd d)
      \<and> drop sizeof_PacketHeader (snd d) = concat bss) (map (\<lambda>bs. [bs]) bss) (map (\<lambda>bs. (9 :: tick, replicate 26 0 @ bs)) bss)"
    by (induction bss) auto
  then obtain c' where "read_datagrams 0x100000 (map (\<lambda>bs. (9, replicate 26 0 @ bs)) bss) example_receiver
      = Some (c', [Received 0 (Some (replicate 40 7)) (of_nat (length (replicate 40 (7 :: u8)))) 0 4 CHR ''s''])"
    using w(3) concat_singletons [of bss] by blast
  moreover have "(of_nat (length (replicate 40 (7 :: u8))) :: u64) = 40" by simp
  ultimately show ?thesis using w(1) by (intro exI conjI) (assumption, simp only:)
qed

text \<open>
  C36. A lost piece corrupts the packet. When the piece with the bytes \<open>lost\<close> never arrives, the piece
  behind it is dropped but moves the offset past the gap; when that piece arrives once more it is taken
  for the one that is due, and the packet is reported as received successfully and acknowledged, with
  zeros in place of the lost bytes.
\<close>

theorem lost_piece_corrupts:
  assumes "awaiting k n (c_rxStreams c)" "c_onReceived c = Some f" "0 < rtt200 (t_RTT_us (c_traffic c))"
    "length (lost @ d) \<le> unat th" "lost \<noteq> []" "d \<noteq> []" "length d < 65536"
  shows "\<exists>c1 c2 c3. chunk_read t1 th c (begin_bytes True front k n (of_nat (length (lost @ d)))) c1 []
    \<and> chunk_read t2 th c1 (piece_bytes True front k n (of_nat (length lost)) d) c2 []
    \<and> chunk_read t3 th c2 (piece_bytes True front k n (of_nat (length lost)) d) c3
        [Received 0 (Some (replicate (length lost) 0 @ d)) (of_nat (length (lost @ d))) 0 k CHR ''s'']
    \<and> awaiting k (n + 1) (c_rxStreams c3) \<and> last (rxs_acks (c_rxStreams c3)) = (k, n)"
proof -
  let ?data = "replicate (length lost) 0 @ d"
  have "lost @ d \<noteq> []" using assms(5) by simp
  then obtain r1 where r1: "chunk_read t1 th c (begin_bytes True front k n (of_nat (length (lost @ d)))) (c\<lparr>c_rxStreams := r1\<rparr>) []"
      "expecting k n True (lost @ d) 0 r1"
    using begin_read [OF assms(1-3) _ assms(4)] by blast
  then obtain r2 where r2: "chunk_read t2 th (c\<lparr>c_rxStreams := r1\<rparr>) (piece_bytes True front k n (of_nat (length lost)) d)
        (c\<lparr>c_rxStreams := r2\<rparr>) []" "expecting k n True ?data (length lost) r2"
    using gap_read [of k n True lost d "c\<lparr>c_rxStreams := r1\<rparr>" f t2 th front] assms(2,5-7) by auto
  then obtain r3 where r3: "chunk_read t3 th (c\<lparr>c_rxStreams := r2\<rparr>) (piece_bytes True front k n (of_nat (length lost)) d)
        (c\<lparr>c_rxStreams := r3\<rparr>) [Received 0 (Some ?data) (of_nat (length ?data)) 0 k CHR ''s'']"
      "awaiting k (n + 1) r3" "rxs_acks r3 = rxs_acks (push_ack True k n r2)"
    using piece_read [of k n True ?data "length lost" "c\<lparr>c_rxStreams := r2\<rparr>" f d "[]" t3 th front] assms(2,6,7) by auto
  have "last (rxs_acks r3) = (k, n)" using r3(3) by (simp add: push_ack_def)
  then show ?thesis using r1(1) r2(1) r3(1,2)
    by (intro exI [of _ "c\<lparr>c_rxStreams := r1\<rparr>"] exI [of _ "c\<lparr>c_rxStreams := r2\<rparr>"] exI [of _ "c\<lparr>c_rxStreams := r3\<rparr>"]) simp
qed

theorem lost_piece_corrupts_witness:
  "\<exists>c1 c2 c3. chunk_read 1000 0x100000 example_receiver (begin_bytes True True 4 0 5) c1 []
    \<and> chunk_read 2000 0x100000 c1 (piece_bytes True True 4 0 3 [8, 9]) c2 []
    \<and> chunk_read 3000 0x100000 c2 (piece_bytes True True 4 0 3 [8, 9]) c3 [Received 0 (Some [0, 0, 0, 8, 9]) 5 0 4 CHR ''s'']"
proof -
  have "replicate 3 (0 :: u8) @ [8, 9] = [0, 0, 0, 8, 9]" by (simp add: numeral_eq_Suc)
  then show ?thesis
    using lost_piece_corrupts [OF example_receiver_awaits, of "[5, 6, 7]" "[8, 9]" "0x100000" 1000 True 2000 3000] by auto
qed

end
