(* ===== verification/Udsp_Reordering.thy ===== *)
theory Udsp_Reordering
  imports Udsp_Reassembly
begin

text \<open>
  The receiver of a stream of small packets over a network that loses, repeats and reorders datagrams.
  As long as the gaps close within the 50 milliseconds that \<open>emplace\<close> grants, the application gets
  every packet once and in order; after that a gap is given up, also on a reliable stream.
\<close>

subsection \<open>The queue\<close>

text \<open>The packets of the stream have the identifiers of \<open>n0\<close> on and the contents \<open>D\<close>; \<open>A\<close> are those that
  have arrived. The queue starts with packet \<open>m\<close>, all before it are delivered. A packet that has not
  arrived does not expire before the time \<open>T\<close>.\<close>

definition slot :: "tick \<Rightarrow> (nat \<Rightarrow> bytes) \<Rightarrow> nat set \<Rightarrow> nat \<Rightarrow> RxPacket \<Rightarrow> bool" where
  "slot T D A i p \<longleftrightarrow> rp_context p = 0 \<and>
     (if i \<in> A then rp_isReceived p \<and> rp_copy p = D i \<and> rp_size_B p = of_nat (length (D i))
      else \<not> rp_isReceived p \<and> T \<le> rp_timeout_us p)"

definition buffered :: "tick \<Rightarrow> (nat \<Rightarrow> bytes) \<Rightarrow> u8 \<Rightarrow> nat \<Rightarrow> nat set \<Rightarrow> nat \<Rightarrow> nat \<Rightarrow> RxStream \<Rightarrow> bool" where
  "buffered T D k n0 A m b s \<longleftrightarrow> rx_range s m b \<and> rs_frontPacketId s = of_nat m \<and> rs_id s = k \<and> \<not> rs_isNew s
     \<and> n0 \<le> m \<and> {n0 ..< m} \<subseteq> A \<and> A \<subseteq> {n0 ..< b} \<and> (\<forall>i < b - m. slot T D A (m + i) (rs_fifo s ! i))"

definition told_s :: "(nat \<Rightarrow> bytes) \<Rightarrow> u8 \<Rightarrow> nat \<Rightarrow> event" where
  "told_s D k i = Received 0 (Some (D i)) (of_nat (length (D i))) 0 k CHR ''s''"

lemma of_nat_less_u32: "i < j \<Longrightarrow> j < 2 ^ 32 \<Longrightarrow> (of_nat i :: u32) < of_nat j"
  by (simp add: word_less_nat_alt unat_of_nat_u32)

lemma of_nat_quarter: "i < 2 ^ 32 \<Longrightarrow> (of_nat i :: u32) < quarter \<longleftrightarrow> i < 2 ^ 30 - 1"
  "i < 2 ^ 32 \<Longrightarrow> quarter3 < (of_nat i :: u32) \<longleftrightarrow> 3 * 2 ^ 30 - 3 < i"
  by (simp_all add: word_less_nat_alt unat_of_nat_u32)

lemma buffered_hd: "buffered T D k n0 A m b s \<Longrightarrow> m < b \<Longrightarrow> hd (rs_fifoShadow s) = of_nat m \<and> rs_fifoShadow s \<noteq> []
   \<and> rs_fifo s \<noteq> [] \<and> hd (rs_fifo s) = rs_fifo s ! 0 \<and> rp_id (rs_fifo s ! 0) = of_nat m"
proof -
  assume a: "buffered T D k n0 A m b s" "m < b"
  then have r: "rx_range s m b" by (simp add: buffered_def)
  then have "rs_fifo s \<noteq> []" using rx_range_length [OF r] a(2) by auto
  then show ?thesis using r a(2) rx_range_nth [OF r, of 0] by (auto simp: rx_range_def hd_conv_nth)
qed

lemma buffered_first:
  assumes "buffered T D k n0 A m b s"
  shows "updateFrontPacketId False i s = s"
  using buffered_hd [OF assms] assms
  by (cases "m < b") (auto simp: updateFrontPacketId_def advance_front_def buffered_def rx_range_def Let_def)

text \<open>Removing the first packet when it has arrived.\<close>

lemma advance_to:
  assumes "rs_frontPacketId s = of_nat m" "m + 1 < 2 ^ 32" "rs_fifoShadow s \<noteq> [] \<Longrightarrow> hd (rs_fifoShadow s) = of_nat m"
  shows "rs_frontPacketId (updateFrontPacketId True (of_nat m + 1) s) = of_nat (Suc m)"
proof -
  have "advance_front (of_nat m) s = s" using assms(1) by (auto simp: advance_front_def)
  then have "updateFrontPacketId True (of_nat m + 1) s = advance_front (of_nat (Suc m)) s"
    using assms(3) by (auto simp: updateFrontPacketId_def Let_def add.commute)
  then show ?thesis using of_nat_less_u32 [of m "Suc m"] assms(1,2) by (simp add: advance_front_def)
qed

lemma rx_range_pop: "rx_range s m b \<Longrightarrow> m < b \<Longrightarrow> rs_fifo t = tl (rs_fifo s) \<Longrightarrow> rs_fifoShadow t = tl (rs_fifoShadow s)
   \<Longrightarrow> rx_range t (Suc m) b"
  by (auto simp: rx_range_def upt_conv_Cons map_tl)

lemma buffered_pop:
  assumes "buffered T D k n0 A m b s" "m < b" "m \<in> A"
    and "rs_fifo t = tl (rs_fifo s)" "rs_fifoShadow t = tl (rs_fifoShadow s)" "rs_frontPacketId t = of_nat (Suc m)"
    and "rs_id t = k" "\<not> rs_isNew t"
  shows "buffered T D k n0 A (Suc m) b t"
proof -
  have r: "rx_range s m b" using assms(1) by (simp add: buffered_def)
  have len: "length (rs_fifo s) = b - m" by (rule rx_range_length [OF r])
  have "slot T D A (Suc m + i) (rs_fifo t ! i)" if "i < b - Suc m" for i
    using assms(1,4) that len by (auto simp: buffered_def nth_tl dest: spec [of _ "Suc i"])
  moreover have "{n0 ..< Suc m} \<subseteq> A" using assms(1,3) by (auto simp: buffered_def less_Suc_eq)
  ultimately show ?thesis
    using rx_range_pop [OF r assms(2,4,5)] assms by (simp add: buffered_def)
qed

lemma drain_buffered:
  assumes "buffered T D k n0 A m b s" "now < T" "b < 2 ^ 32" "\<And>i. i \<in> A \<Longrightarrow> D i \<noteq> []"
  shows "\<exists>m' s'. processRxFifo (Some f) now s = (s', map (told_s D k) [m ..< m']) \<and> m \<le> m' \<and> m' \<notin> A
    \<and> buffered T D k n0 A m' b s'"
  using assms(1)
proof (induction "b - m" arbitrary: m s)
  case 0
  then have "m = b" "rs_fifo s = []" using rx_range_length [of s m b] by (auto simp: buffered_def rx_range_def)
  then show ?case
    using 0 by (intro exI [of _ m] exI [of _ s]) (auto simp: processRxFifo_Nil buffered_def)
next
  case (Suc n)
  have mb: "m < b" using Suc.hyps(2) by simp
  note h = buffered_hd [OF Suc.prems mb]
  define p where "p = rs_fifo s ! 0"
  have slot: "slot T D A m p" using Suc.prems mb by (auto simp: buffered_def p_def dest: spec [of _ 0])
  have front: "rs_frontPacketId s = of_nat m" "rs_id s = k" "\<not> rs_isNew s" using Suc.prems by (auto simp: buffered_def)
  have fifo: "rs_fifo s = p # tl (rs_fifo s)" using h by (metis p_def list.collapse)
  show ?case
  proof (cases "m \<in> A")
    case False
    then have "rx_verdict now (rs_frontPacketId s) p = Keep"
      using slot h assms(2) front(1) by (simp add: rx_verdict_def slot_def p_def)
    then have "processRxFifo (Some f) now s = (s, [])" by (simp add: processRxFifo_Cons [OF fifo])
    then show ?thesis using False Suc.prems by (intro exI [of _ m] exI [of _ s]) simp
  next
    case True
    define t where "t = rx_remove now p s"
    have v: "rx_verdict now (rs_frontPacketId s) p = Deliver" using True slot by (simp add: rx_verdict_def slot_def)
    have "rs_frontPacketId t = of_nat (Suc m)"
      using advance_to [of "s\<lparr>rs_debugPacketId := rp_id p\<rparr>" m] front(1) h mb assms(3) v
      by (simp add: t_def rx_remove_def p_def)
    then have "buffered T D k n0 A (Suc m) b t"
      using front by (intro buffered_pop [OF Suc.prems mb True]) (simp_all add: t_def)
    then obtain m' s' where IH: "processRxFifo (Some f) now t = (s', map (told_s D k) [Suc m ..< m'])" "Suc m \<le> m'"
      "m' \<notin> A" "buffered T D k n0 A m' b s'"
      using Suc.hyps(1) [of "Suc m" t] diff_Suc_eq_diff_pred [of b m] Suc.hyps(2) by fastforce
    have "rx_report k p Deliver = told_s D k m"
      using slot True assms(4) by (simp add: rx_report_def slot_def told_s_def)
    then have "processRxFifo (Some f) now s = (s', told_s D k m # map (told_s D k) [Suc m ..< m'])"
      using v IH(1) front(2) by (simp add: processRxFifo_Cons [OF fifo] t_def [symmetric] notify_received_def)
    then show ?thesis using IH by (intro exI [of _ m'] exI [of _ s']) (simp add: upt_conv_Cons)
  qed
qed

subsection \<open>A packet arrives\<close>

text \<open>Where the queue is not at its front, an old packet and one already there change nothing, one ahead
  is stored, the first one is delivered with those that wait behind it.\<close>

lemma buffered_push:
  assumes "buffered T D k n0 A m b s" "m \<le> j" "j < 2 ^ 32" "T \<le> now + 50000"
  shows "buffered T D k n0 A m (max b (Suc j)) (fold (push_packet now) (map of_nat [b ..< Suc j]) s)"
proof -
  let ?s = "fold (push_packet now) (map of_nat [b ..< Suc j]) s"
  have r: "rx_range s m b" "A \<subseteq> {n0 ..< b}" using assms(1) by (auto simp: buffered_def)
  have len: "length (rs_fifo s) = b - m" by (rule rx_range_length [OF r(1)])
  have range: "rx_range ?s m (max b (Suc j))"
    using rx_range_push [OF r(1), of "Suc j" now] assms(3) r(1) by (cases "b \<le> Suc j") (simp_all add: max_def del: upt_Suc)
  have "slot T D A (m + i) (rs_fifo ?s ! i)" if i: "i < max b (Suc j) - m" for i
  proof (cases "i < b - m")
    case True
    then show ?thesis using assms(1) len by (auto simp: buffered_def nth_append simp del: upt_Suc)
  next
    case False
    then have "b \<le> m + i" "m + i < Suc j" using i by auto
    moreover from this have "rs_fifo ?s ! i = new_packet now (rs_isReliable s) (of_nat (m + i))"
      using False len r(1) by (auto simp: nth_append rx_range_def add.commute simp del: upt_Suc of_nat_add)
    moreover have "m + i \<notin> A" using \<open>b \<le> m + i\<close> r(2) by auto
    ultimately show ?thesis using assms(4) by (simp add: slot_def)
  qed
  moreover have "A \<subseteq> {n0 ..< max b (Suc j)}" using r(2) by fastforce
  ultimately show ?thesis using range assms(1) by (simp add: buffered_def del: upt_Suc)
qed

lemma buffered_set:
  assumes "buffered T D k n0 A m b s" "m \<le> j" "j < b" "rp_id p = of_nat j" "slot T D (insert j A) j p"
    and "rs_fifo t = (rs_fifo s)[j - m := p]" "rs_fifoShadow t = rs_fifoShadow s"
    and "rs_frontPacketId t = rs_frontPacketId s" "rs_id t = rs_id s" "rs_isNew t = rs_isNew s"
  shows "buffered T D k n0 (insert j A) m b t"
proof -
  have r: "rx_range s m b" "n0 \<le> m" "A \<subseteq> {n0 ..< b}" using assms(1) by (auto simp: buffered_def)
  have len: "length (rs_fifo s) = b - m" by (rule rx_range_length [OF r(1)])
  have "map rp_id (rs_fifo t) = map rp_id (rs_fifo s)"
    using rx_range_nth [OF r(1), of "j - m"] assms(2-4,6) len by (auto simp: map_update intro!: list_update_same_conv [THEN iffD2])
  then have "rx_range t m b" using r(1) assms(7) by (simp add: rx_range_def)
  moreover have "slot T D (insert j A) (m + i) (rs_fifo t ! i)" if "i < b - m" for i
  proof (cases "i = j - m")
    case True
    then show ?thesis using assms(2,3,5,6) len by simp
  next
    case False
    then have "m + i \<noteq> j" using assms(2) by auto
    moreover have "slot T D A (m + i) (rs_fifo s ! i)" using assms(1) that by (simp add: buffered_def)
    ultimately show ?thesis using False assms(6) len by (simp add: slot_def)
  qed
  ultimately show ?thesis using assms r by (auto simp: buffered_def)
qed

text \<open>What a small chunk with packet \<open>j\<close> does to the receive streams.\<close>

abbreviation small_arrives ::
  "on_received \<Rightarrow> (nat \<Rightarrow> bytes) \<Rightarrow> u8 \<Rightarrow> tick \<Rightarrow> u32 \<Rightarrow> bool \<Rightarrow> bool \<Rightarrow> nat \<Rightarrow> RxStreams \<Rightarrow> (RxStreams \<times> event list) option" where
  "small_arrives f D k now RTT_us front rel j \<equiv> rx_chunk now RTT_us k (of_nat j) front rel
     (use_small (Some f) now k (of_nat j) rel (of_nat (length (D j))) (D j))"

lemma buffered_front:
  assumes "buffered T D k n0 A m b s" "front \<longrightarrow> j \<le> m" "n0 \<le> j" "m \<le> n0 + 32767" "m < 2 ^ 32"
  shows "updateFrontPacketId front (of_nat j) s = s"
proof (cases front)
  case True
  then have j: "j \<le> m" "j < 2 ^ 32" using assms by auto
  have "\<not> (of_nat m :: u32) < of_nat j" using j assms(5) by (simp add: word_less_nat_alt unat_of_nat_u32)
  moreover have "\<not> ((of_nat j :: u32) < quarter \<and> quarter3 < (of_nat m :: u32))"
    unfolding of_nat_quarter(1) [OF j(2)] of_nat_quarter(2) [OF assms(5)] using assms(3,4) by simp
  ultimately have "advance_front (of_nat j) s = s"
    using assms(1) unfolding buffered_def advance_front_def by (metis (no_types))
  then show ?thesis using buffered_first [OF assms(1), of "of_nat j"] True by (auto simp: updateFrontPacketId_def Let_def split: if_splits)
qed (use buffered_first [OF assms(1)] in simp)

lemma buffered_before:
  assumes "buffered T D k n0 A m b s" "n0 \<le> j" "m \<le> n0 + 32767" "m < 2 ^ 32" "j < m + 32767" "j < 2 ^ 32"
  shows "isReceivedBefore (of_nat j) s \<longleftrightarrow> j < m"
proof -
  have F: "rs_frontPacketId s = of_nat m" using assms(1) by (simp add: buffered_def)
  have lt: "(of_nat j :: u32) < of_nat m \<longleftrightarrow> j < m" using assms(4,6) by (simp add: word_less_nat_alt unat_of_nat_u32)
  have "unat ((of_nat m :: u32) - of_nat j) = m - j" if "j < m"
    using that assms(4,6) by (subst unat_sub) (auto simp: word_le_nat_alt unat_of_nat_u32)
  moreover have "unat ((of_nat j :: u32) - of_nat m) = j - m" if "\<not> j < m"
    using that assms(4,6) by (subst unat_sub) (auto simp: word_le_nat_alt unat_of_nat_u32)
  ultimately show ?thesis
    unfolding isReceivedBefore_def F lt using assms(2,3,5) by (auto simp: word_le_nat_alt)
qed

text \<open>The first packet that is missing.\<close>

definition gap :: "nat \<Rightarrow> nat set \<Rightarrow> nat \<Rightarrow> bool" where
  "gap n0 A m \<longleftrightarrow> n0 \<le> m \<and> {n0 ..< m} \<subseteq> A \<and> m \<notin> A"

lemma gap_unique: "gap n0 A m \<Longrightarrow> gap n0 A m' \<Longrightarrow> m = m'"
  by (rule antisym; rule ccontr) (auto simp: gap_def subset_iff)

lemma buffered_gap: "buffered T D k n0 A m b s \<Longrightarrow> m \<notin> A \<Longrightarrow> gap n0 A m"
  by (simp add: buffered_def gap_def)

lemma drain_gap:
  assumes "buffered T D k n0 A m b s" "m \<notin> A" "now < T" "b < 2 ^ 32" "\<And>i. i \<in> A \<Longrightarrow> D i \<noteq> []"
  shows "\<exists>s'. processRxFifo (Some f) now s = (s', []) \<and> buffered T D k n0 A m b s'"
  using drain_buffered [OF assms(1,3-5), of f] gap_unique buffered_gap [OF assms(1,2)] buffered_gap
  by (metis list.simps(8) upt_rec less_irrefl)

lemma use_small_known:
  assumes "buffered T D k n0 A m b s" "m \<notin> A" "j \<in> A" "m < j" "j < b" "now < T" "b < 2 ^ 32" "\<And>i. D i \<noteq> []"
  shows "\<exists>s'. use_small (Some f) now k (of_nat j) rel sz data (j - m)
      (set_rx_packet (j - m) ((rs_fifo s ! (j - m))\<lparr>rp_timeout_us := t\<rparr>) s) r
      = Some (put_rx_stream k s' (push_ack rel k (of_nat j) r), []) \<and> buffered T D k n0 A m b s'"
proof -
  let ?p = "rs_fifo s ! (j - m)"
  let ?s = "set_rx_packet (j - m) (?p\<lparr>rp_timeout_us := t\<rparr>) s"
  have r: "rx_range s m b" "slot T D A j ?p" using assms(1,4,5) by (auto simp: buffered_def dest: spec [of _ "j - m"])
  have len: "length (rs_fifo s) = b - m" by (rule rx_range_length [OF r(1)])
  have rec: "rp_isReceived ?p" "rp_id ?p = of_nat j"
    using r(2) assms(3-5) rx_range_nth [OF r(1), of "j - m"] by (auto simp: slot_def)
  have "buffered T D k n0 (insert j A) m b ?s"
    by (rule buffered_set [OF assms(1), of j "?p\<lparr>rp_timeout_us := t\<rparr>"])
      (use assms(3-5) rec r(2) in \<open>simp_all add: slot_def set_rx_packet_def\<close>)
  then have "buffered T D k n0 A m b ?s" using assms(3) by (simp add: insert_absorb)
  then obtain s' where "processRxFifo (Some f) now ?s = (s', [])" "buffered T D k n0 A m b s'"
    using drain_gap [OF _ assms(2,6,7)] assms(8) by blast
  then show ?thesis using rec(1) len assms(4,5) by (auto simp: use_small_def Let_def set_rx_packet_def)
qed

lemma use_small_ahead:
  assumes "buffered T D k n0 A m b s" "m \<notin> A" "j \<notin> A" "m < j" "j < b" "now < T" "b < 2 ^ 32" "\<And>i. D i \<noteq> []"
  shows "\<exists>s'. use_small (Some f) now k (of_nat j) rel (of_nat (length (D j))) (D j) (j - m)
      (set_rx_packet (j - m) ((rs_fifo s ! (j - m))\<lparr>rp_timeout_us := t\<rparr>) s) r
      = Some (put_rx_stream k s' (push_ack rel k (of_nat j) r), []) \<and> buffered T D k n0 (insert j A) m b s'"
proof -
  let ?p = "rs_fifo s ! (j - m)"
  let ?q = "?p\<lparr>rp_timeout_us := t, rp_isReceived := True, rp_size_B := of_nat (length (D j)), rp_copy := D j\<rparr>"
  let ?s = "set_rx_packet (j - m) ?q s"
  have r: "rx_range s m b" "slot T D A j ?p" using assms(1,4,5) by (auto simp: buffered_def dest: spec [of _ "j - m"])
  have len: "length (rs_fifo s) = b - m" by (rule rx_range_length [OF r(1)])
  have rec: "\<not> rp_isReceived ?p" "rp_id ?p = of_nat j" "rp_context ?p = 0"
    using r(2) assms(3-5) rx_range_nth [OF r(1), of "j - m"] by (auto simp: slot_def)
  have hd: "rp_id (hd (rs_fifo s)) = of_nat m" using buffered_hd [OF assms(1)] assms(4,5) by simp
  have ne: "(of_nat m :: u32) \<noteq> of_nat j" using of_nat_less_u32 [of m j] assms(4,5,7) by simp
  have "buffered T D k n0 (insert j A) m b ?s"
    by (rule buffered_set [OF assms(1), of j ?q]) (use assms(3-5) rec in \<open>simp_all add: slot_def set_rx_packet_def\<close>)
  then obtain s' where "processRxFifo (Some f) now ?s = (s', [])" "buffered T D k n0 (insert j A) m b s'"
    using drain_gap [of T D k n0 "insert j A" m b ?s now f] assms(2,4,6-8) by auto
  moreover have "rs_fifo s \<noteq> []" "0 < j - m" using len assms(4,5) by auto
  ultimately show ?thesis
    using rec len assms(4,5) hd ne by (auto simp: use_small_def Let_def set_rx_packet_def hd_conv_nth)
qed

lemma tl_update: "tl (xs[0 := x]) = tl xs"
  by (cases xs) simp_all

lemma use_small_first:
  assumes "buffered T D k n0 A m b s" "m \<notin> A" "m < b" "now < T" "b < 2 ^ 32" "\<And>i. D i \<noteq> []"
  shows "\<exists>s' m'. use_small (Some f) now k (of_nat m) rel (of_nat (length (D m))) (D m) 0
      (set_rx_packet 0 ((rs_fifo s ! 0)\<lparr>rp_timeout_us := t\<rparr>) s) r
      = Some (put_rx_stream k s' (push_ack rel k (of_nat m) r), map (told_s D k) [m ..< m'])
      \<and> m \<le> m' \<and> m' \<notin> insert m A \<and> buffered T D k n0 (insert m A) m' b s'"
proof -
  let ?p = "rs_fifo s ! 0"
  let ?q = "?p\<lparr>rp_timeout_us := t, rp_isReceived := True, rp_size_B := of_nat (length (D m)), rp_copy := D m\<rparr>"
  let ?s = "set_rx_packet 0 ?q s"
  define u where "u = (set_rx_packet 0 (?p\<lparr>rp_timeout_us := t, rp_isReceived := True\<rparr>) s)\<lparr>rs_debugPacketId := of_nat m\<rparr>"
  define v where "v = pop_front_rx (updateFrontPacketId True (of_nat m + 1) u)"
  note h = buffered_hd [OF assms(1,3)]
  have r: "slot T D A m ?p" "rs_frontPacketId s = of_nat m" "rs_id s = k" "\<not> rs_isNew s"
    using assms(1,3) by (auto simp: buffered_def dest: spec [of _ 0])
  have rec: "\<not> rp_isReceived ?p" "rp_context ?p = 0" using r(1) assms(2) by (auto simp: slot_def)
  have b: "buffered T D k n0 (insert m A) m b ?s"
    by (rule buffered_set [OF assms(1), of m ?q]) (use assms(2,3) rec h in \<open>simp_all add: slot_def set_rx_packet_def\<close>)
  have "rs_frontPacketId (updateFrontPacketId True (of_nat m + 1) u) = of_nat (Suc m)"
    by (rule advance_to) (use h r assms(3,5) in \<open>simp_all add: u_def set_rx_packet_def\<close>)
  then have "buffered T D k n0 (insert m A) (Suc m) b v"
    by (intro buffered_pop [OF b assms(3)]) (use h r in \<open>simp_all add: v_def u_def set_rx_packet_def tl_update\<close>)
  then obtain s' m' where d: "processRxFifo (Some f) now v = (s', map (told_s D k) [Suc m ..< m'])" "Suc m \<le> m'"
    "m' \<notin> insert m A" "buffered T D k n0 (insert m A) m' b s'"
    using drain_buffered [of T D k n0 "insert m A" "Suc m" b v now f] assms(4-6) by auto
  have hd: "hd ((rs_fifo s)[0 := x]) = x" for x using h by (cases "rs_fifo s") auto
  have "use_small (Some f) now k (of_nat m) rel (of_nat (length (D m))) (D m) 0
      (set_rx_packet 0 (?p\<lparr>rp_timeout_us := t\<rparr>) s) r
    = Some (put_rx_stream k s' (push_ack rel k (of_nat m) r), told_s D k m # map (told_s D k) [Suc m ..< m'])"
    using h rec d(1) by (simp add: use_small_def Let_def set_rx_packet_def hd u_def v_def notify_received_def told_s_def)
  then show ?thesis using d by (intro exI [of _ s'] exI [of _ m']) (simp add: upt_conv_Cons)
qed

definition receiving :: "tick \<Rightarrow> (nat \<Rightarrow> bytes) \<Rightarrow> u8 \<Rightarrow> nat \<Rightarrow> nat set \<Rightarrow> RxStreams \<Rightarrow> bool" where
  "receiving T D k n0 A r \<longleftrightarrow> (let s = rx_stream_at k r in
     if rs_isNew s then s = RxStream_init \<and> n0 = 0 \<and> A = {}
     else \<exists>m b. buffered T D k n0 A m b s \<and> m \<notin> A \<and> b \<le> n0 + 32766)"

lemma receiving_open:
  assumes "receiving T D k n0 A r" "T \<le> now + 50000"
  shows "\<exists>m b. buffered T D k n0 A m b (rx_stream_at k (open_rx_stream now k r)) \<and> m \<notin> A \<and> b \<le> n0 + 32766"
proof (cases "rs_isNew (rx_stream_at k r)")
  case True
  then have s: "rx_stream_at k r = RxStream_init" "n0 = 0" "A = {}" using assms(1) by (auto simp: receiving_def Let_def)
  let ?s = "push_packet now 0 (RxStream_init\<lparr>rs_isNew := False, rs_id := k\<rparr>)"
  have "rx_stream_at k (open_rx_stream now k r) = ?s"
    using s(1) by (simp add: open_rx_stream_def Let_def get_packet_init)
  moreover have "buffered T D k 0 {} 0 1 ?s"
    using assms(2) by (simp add: buffered_def rx_range_def slot_def)
  ultimately show ?thesis using s by (intro exI [of _ 0] exI [of _ 1]) simp
next
  case False
  then show ?thesis using assms(1) by (simp add: receiving_def open_rx_stream_def Let_def)
qed

lemma receiving_put:
  "buffered T D k n0 A m b s \<Longrightarrow> m \<notin> A \<Longrightarrow> b \<le> n0 + 32766 \<Longrightarrow> receiving T D k n0 A (put_rx_stream k s r)"
  by (auto simp: receiving_def Let_def) (auto simp: buffered_def)

lemma receiving_ack [simp]: "receiving T D k n0 A (push_ack rel k' i r) = receiving T D k n0 A r"
  by (simp add: receiving_def push_ack_def rx_stream_at_def)

lemma put_rx_ack: "push_ack rel k i (put_rx_stream k s r) = put_rx_stream k s (push_ack rel k i r)"
  by (simp add: push_ack_def put_rx_stream_def)

lemma use_small_buffered:
  assumes "buffered T D k n0 A m c s" "m \<notin> A" "m \<le> j" "j < c" "now < T" "c < 2 ^ 32" "\<And>i. D i \<noteq> []"
  shows "\<exists>s' m'. use_small (Some f) now k (of_nat j) rel (of_nat (length (D j))) (D j) (j - m)
      (set_rx_packet (j - m) ((rs_fifo s ! (j - m))\<lparr>rp_timeout_us := t\<rparr>) s) r
      = Some (put_rx_stream k s' (push_ack rel k (of_nat j) r), map (told_s D k) [m ..< m'])
      \<and> m \<le> m' \<and> m' \<notin> insert j A \<and> buffered T D k n0 (insert j A) m' c s'"
proof -
  consider "j = m" | "j \<in> A" "m < j" | "j \<notin> A" "m < j" using assms(2,3) by fastforce
  then show ?thesis
  proof cases
    case 1
    then show ?thesis using use_small_first [OF assms(1,2) _ assms(5-7)] assms(4) by simp
  next
    case 2
    then show ?thesis
      using use_small_known [OF assms(1,2) 2 assms(4-7), of f rel "of_nat (length (D j))" "D j" t r] assms(2)
      by (metis insert_absorb list.simps(8) order_refl upt_rec less_irrefl)
  next
    case 3
    then show ?thesis
      using use_small_ahead [OF assms(1,2) 3 assms(4-7), of f rel t r] assms(2)
      by (metis insert_iff list.simps(8) order_refl upt_rec less_irrefl)
  qed
qed

text \<open>Every arrival delivers the packets that it makes complete, and only those.\<close>

lemma buffered_get:
  assumes s: "buffered T D k n0 A m b s" "m \<le> j" "b \<le> n0 + 32766" "j < n0 + 32766" "n0 + 32766 < 2 ^ 32" "T \<le> now + 50000"
  shows "\<exists>s1. get_packet now (of_nat j) s = (j - m, s1) \<and> buffered T D k n0 A m (max b (Suc j)) s1
    \<and> rp_id (rs_fifo s1 ! (j - m)) = of_nat j"
proof -
  define s1 where "s1 = fold (push_packet now) (map of_nat [b ..< Suc j]) s"
  have mb: "n0 \<le> m" "m \<le> b" using s(1) by (auto simp: buffered_def rx_range_def)
  have s1: "buffered T D k n0 A m (max b (Suc j)) s1"
    unfolding s1_def using buffered_push [OF s(1), of j now] s(2,4-6) by (simp del: upt_Suc)
  have "get_packet now (of_nat j) s = (j - m, s1)"
    using get_packet_eq [of s m b "of_nat j" now] s(1-5) mb
    by (simp add: s1_def buffered_def word_le_nat_alt unat_of_nat_u32 del: upt_Suc)
  moreover have "rp_id (rs_fifo s1 ! (j - m)) = of_nat j"
    using rx_range_nth [of s1 m "max b (Suc j)" "j - m"] s1 s(2) by (simp add: buffered_def)
  ultimately show ?thesis using s1 by simp
qed

lemma arrival:
  assumes "receiving T D k n0 A r" "n0 \<le> j" "j < n0 + 32766" "n0 + 32766 < 2 ^ 32" "front \<longrightarrow> {n0 ..< j} \<subseteq> A"
    and "T \<le> now + 50000" "now < T" "\<And>i. D i \<noteq> []"
  shows "\<exists>r' m m'. small_arrives f D k now RTT_us front rel j r = Some (r', map (told_s D k) [m ..< m']) \<and> m \<le> m'
    \<and> gap n0 A m \<and> gap n0 (insert j A) m' \<and> receiving T D k n0 (insert j A) r'"
proof -
  define r1 where "r1 = open_rx_stream now k r"
  define s where "s = rx_stream_at k r1"
  obtain m b where s: "buffered T D k n0 A m b s" "m \<notin> A" "b \<le> n0 + 32766"
    using receiving_open [OF assms(1,6)] by (auto simp: s_def r1_def)
  have mb: "n0 \<le> m" "m \<le> b" using s(1) by (auto simp: buffered_def rx_range_def)
  have jm: "front \<longrightarrow> j \<le> m" using assms(5) s(2) mb by (metis atLeastLessThan_iff not_le subsetD)
  have upd: "updateFrontPacketId front (of_nat j) s = s"
    using buffered_front [OF s(1) jm assms(2)] s(3) mb assms(4) by simp
  have len: "\<not> 32767 \<le> length (rs_fifo s)" using rx_range_length [of s m b] s mb by (simp add: buffered_def)
  have before: "isReceivedBefore (of_nat j) s \<longleftrightarrow> j < m"
    using buffered_before [OF s(1) assms(2)] s(3) mb assms(3,4) by simp
  have chunk: "small_arrives f D k now RTT_us front rel j r =
    (if j < m then Some (push_ack rel k (of_nat j) (put_rx_stream k s r1), [])
     else let (i, s1) = get_packet now (of_nat j) s; p = rs_fifo s1 ! i in
       if rp_id p \<noteq> of_nat j then Some (put_rx_stream k s1 r1, [])
       else use_small (Some f) now k (of_nat j) rel (of_nat (length (D j))) (D j) i
         (set_rx_packet i (p\<lparr>rp_timeout_us := now + rtt200 RTT_us\<rparr>) s1) r1)"
    unfolding rx_chunk_def Let_def r1_def [symmetric] s_def [symmetric] upd using len before by simp
  show ?thesis
  proof (cases "j < m")
    case True
    then have "insert j A = A" using s(1) assms(2) by (auto simp: buffered_def)
    moreover have "receiving T D k n0 A (push_ack rel k (of_nat j) (put_rx_stream k s r1))" using receiving_put [OF s] by simp
    ultimately show ?thesis
      using True chunk buffered_gap [OF s(1,2)] by (intro exI [of _ "push_ack rel k (of_nat j) (put_rx_stream k s r1)"] exI [of _ m]) simp
  next
    case False
    define c where "c = max b (Suc j)"
    have c: "j < c" "c \<le> n0 + 32766" "c < 2 ^ 32" using s(3) assms(3,4) by (auto simp: c_def)
    obtain s1 where g: "get_packet now (of_nat j) s = (j - m, s1)" and s1: "buffered T D k n0 A m c s1"
        and id: "rp_id (rs_fifo s1 ! (j - m)) = of_nat j"
      using buffered_get [OF s(1) _ s(3) assms(3,4,6)] False by (auto simp: c_def)
    have chunk: "small_arrives f D k now RTT_us front rel j r =
        use_small (Some f) now k (of_nat j) rel (of_nat (length (D j))) (D j) (j - m)
         (set_rx_packet (j - m) ((rs_fifo s1 ! (j - m))\<lparr>rp_timeout_us := now + rtt200 RTT_us\<rparr>) s1) r1"
      using chunk False g id by (simp add: Let_def)
    obtain s' m' where u: "small_arrives f D k now RTT_us front rel j r
        = Some (put_rx_stream k s' (push_ack rel k (of_nat j) r1), map (told_s D k) [m ..< m'])"
      "m \<le> m'" "m' \<notin> insert j A" "buffered T D k n0 (insert j A) m' c s'"
      using use_small_buffered [OF s1 s(2) _ c(1) assms(7) c(3) assms(8), of f rel "now + rtt200 RTT_us" r1] False chunk by auto
    show ?thesis
      using u receiving_put [OF u(4,3) c(2)] buffered_gap [OF s(1,2)] buffered_gap [OF u(4,3)]
      by (intro exI [of _ "put_rx_stream k s' (push_ack rel k (of_nat j) r1)"] exI [of _ m] exI [of _ m']) simp
  qed
qed

subsection \<open>Datagrams that arrive\<close>

text \<open>The bytes of a small chunk as the sender writes it: packet \<open>j\<close> of stream \<open>k\<close>, marked as the front
  of the sender's queue or not.\<close>

definition small_chunk_of :: "(nat \<Rightarrow> bytes) \<Rightarrow> u8 \<Rightarrow> bool \<times> nat \<Rightarrow> bytes \<Rightarrow> bool" where
  "small_chunk_of D k fj bs \<longleftrightarrow> (\<exists>s p. ts_id s = k \<and> (ts_packetFifoIdx s = 0) = fst fj \<and> small_packet_bytes s p = Some bs
     \<and> tp_id p = of_nat (snd fj) \<and> tp_pointer p = D (snd fj) \<and> tx_packet_ok p \<and> unat (tp_size_B p) < 65536)"

text \<open>The sender marks a packet as the front only when all packets before it are acknowledged, and an
  acknowledgement comes only after the packet has arrived.\<close>

fun fronts_ok :: "nat \<Rightarrow> nat set \<Rightarrow> (bool \<times> nat) list \<Rightarrow> bool" where
  "fronts_ok n0 A [] = True"
| "fronts_ok n0 A ((front, j) # fjs) = ((front \<longrightarrow> {n0 ..< j} \<subseteq> A) \<and> fronts_ok n0 (insert j A) fjs)"

lemma fronts_ok_append: "fronts_ok n0 A (xs @ ys) \<longleftrightarrow> fronts_ok n0 A xs \<and> fronts_ok n0 (snd ` set xs \<union> A) ys"
  by (induction n0 A xs rule: fronts_ok.induct) auto

lemma receiving_gap: "receiving T D k n0 A r \<Longrightarrow> \<exists>m. gap n0 A m"
  using buffered_gap [of T D k n0 A _ _ "rx_stream_at k r"] by (fastforce simp: receiving_def Let_def gap_def split: if_splits)

lemma told_append: "m \<le> m' \<Longrightarrow> m' \<le> m'' \<Longrightarrow> map g [m ..< m'] @ map g [m' ..< m''] = map g [m ..< m'']"
  by (metis le_add_diff_inverse map_append upt_add_eq_append)

lemma read_small_chunk_of:
  assumes "small_chunk_of D k (front, j) bs" "c_onReceived c = Some f" "length bs \<le> unat a"
  shows "\<exists>rel. readChunk now th (bs @ rest) a c
    = on_rx (length bs) c (small_arrives f D k now (t_RTT_us (c_traffic c)) front rel j (c_rxStreams c))" "0 < length bs"
proof -
  obtain s p where s: "ts_id s = k" "(ts_packetFifoIdx s = 0) = front" "small_packet_bytes s p = Some bs"
    "tp_id p = of_nat j" "tp_pointer p = D j" "tx_packet_ok p" "unat (tp_size_B p) < 65536"
    using assms(1) by (auto simp: small_chunk_of_def)
  have "tp_size_B p = of_nat (length (D j))" using s(5,6) by (auto simp: tx_packet_ok_def)
  then show "\<exists>rel. readChunk now th (bs @ rest) a c
      = on_rx (length bs) c (small_arrives f D k now (t_RTT_us (c_traffic c)) front rel j (c_rxStreams c))"
    using read_written_small [OF s(6,7,3) assms(3)] s assms(2) by auto
  show "0 < length bs" using small_packet_length [OF s(3)] by simp
qed

lemma read_chunks_arrivals:
  assumes "list_all2 (small_chunk_of D k) fjs bss" "receiving T D k n0 A (c_rxStreams c)" "fronts_ok n0 A fjs"
    and "c_onReceived c = Some f" "drop off buf = concat bss" "unat size_B = length buf" "off \<le> length buf"
    and "\<forall>j \<in> snd ` set fjs. n0 \<le> j \<and> j < n0 + 32766"
    and "n0 + 32766 < 2 ^ 32" "T \<le> now + 50000" "now < T" "\<And>i. D i \<noteq> []"
  shows "\<exists>r' m m'. read_chunks now th buf size_B off c = Some (c\<lparr>c_rxStreams := r'\<rparr>, map (told_s D k) [m ..< m'])
    \<and> m \<le> m' \<and> gap n0 A m \<and> gap n0 (snd ` set fjs \<union> A) m' \<and> receiving T D k n0 (snd ` set fjs \<union> A) r'"
  using assms(1-8)
proof (induction fjs bss arbitrary: A c off rule: list_all2_induct)
  case Nil
  then have "read_chunks now th buf size_B off c = Some (c, [])" by (intro read_chunks_end) simp
  moreover obtain m where "gap n0 A m" using receiving_gap [OF Nil.prems(1)] by blast
  ultimately show ?case using Nil.prems(1) by (intro exI [of _ "c_rxStreams c"] exI [of _ m]) simp
next
  case (Cons fj fjs bs bss)
  obtain front j where fj: "fj = (front, j)" by fastforce
  have d: "drop off buf = bs @ concat bss" using Cons.prems(4) by simp
  then have "length buf - off = length bs + length (concat bss)" by (metis length_append length_drop)
  then have off: "off + length bs \<le> length buf" using Cons.prems(6) by linarith
  have av: "length bs \<le> unat (size_B - of_nat off)" using off Cons.prems(5) by (simp add: unat_sub_of_nat)
  obtain rel where rd: "readChunk now th (drop off buf) (size_B - of_nat off) c
      = on_rx (length bs) c (small_arrives f D k now (t_RTT_us (c_traffic c)) front rel j (c_rxStreams c))"
    using read_small_chunk_of(1) [OF Cons.hyps(1) [unfolded fj] Cons.prems(3) av, of now th "concat bss"] d by auto
  have len: "0 < length bs" using read_small_chunk_of(2) [OF Cons.hyps(1) [unfolded fj] Cons.prems(3) av] .
  obtain r1 m m1 where a: "small_arrives f D k now (t_RTT_us (c_traffic c)) front rel j (c_rxStreams c)
      = Some (r1, map (told_s D k) [m ..< m1])" "m \<le> m1" "gap n0 A m" "gap n0 (insert j A) m1" "receiving T D k n0 (insert j A) r1"
    using arrival [OF Cons.prems(1), where j = j and front = front and now = now and f = f
        and RTT_us = "t_RTT_us (c_traffic c)" and rel = rel] Cons.prems(2,7) fj assms(9-12) by auto
  let ?c = "c\<lparr>c_rxStreams := r1\<rparr>"
  have step: "readChunk now th (drop off buf) (size_B - of_nat off) c = Some (length bs, ?c, map (told_s D k) [m ..< m1])"
    using rd a(1) by (simp add: on_rx_def)
  have "drop (off + length bs) buf = concat bss"
    using arg_cong [OF d, of "drop (length bs)"] by (simp add: add.commute)
  then obtain r' m2 m' where b: "read_chunks now th buf size_B (off + length bs) ?c = Some (?c\<lparr>c_rxStreams := r'\<rparr>, map (told_s D k) [m2 ..< m'])"
    "m2 \<le> m'" "gap n0 (insert j A) m2" "gap n0 (snd ` set fjs \<union> insert j A) m'" "receiving T D k n0 (snd ` set fjs \<union> insert j A) r'"
    using Cons.IH [of "insert j A" ?c "off + length bs"] a(5) Cons.prems fj off by auto
  have "m2 = m1" using gap_unique [OF b(3) a(4)] .
  then have "read_chunks now th buf size_B off c = Some (c\<lparr>c_rxStreams := r'\<rparr>, map (told_s D k) [m ..< m'])"
    using read_chunks_step [OF step len] off len Cons.prems(5) b(1,2) told_append [OF a(2), of m'] by simp
  then show ?case using a(2,3) b \<open>m2 = m1\<close> fj by (intro exI [of _ r'] exI [of _ m] exI [of _ m']) simp
qed

text \<open>A datagram that holds small chunks after its header, and a stream whose queue is empty.\<close>

definition small_datagram :: "(nat \<Rightarrow> bytes) \<Rightarrow> u8 \<Rightarrow> (bool \<times> nat) list \<Rightarrow> bytes \<Rightarrow> bool" where
  "small_datagram D k fjs buf \<longleftrightarrow> sizeof_PacketHeader \<le> length buf \<and> length buf < 2 ^ 32
     \<and> (\<exists>bss. list_all2 (small_chunk_of D k) fjs bss \<and> drop sizeof_PacketHeader buf = concat bss)"

definition idle_at :: "u8 \<Rightarrow> nat \<Rightarrow> RxStreams \<Rightarrow> bool" where
  "idle_at k n0 r \<longleftrightarrow> (let s = rx_stream_at k r in
     if rs_isNew s then s = RxStream_init \<and> n0 = 0
     else rs_id s = k \<and> rs_frontPacketId s = of_nat n0 \<and> rs_fifo s = [] \<and> rs_fifoShadow s = [])"

lemma idle_receiving: "idle_at k n0 r \<Longrightarrow> n0 < 2 ^ 32 \<Longrightarrow> receiving T D k n0 {} r"
  by (auto simp: idle_at_def receiving_def buffered_def rx_range_def Let_def split: if_splits
      intro!: exI [of _ n0])

lemma read_datagrams_arrivals:
  assumes "list_all2 (\<lambda>fjs d. small_datagram D k fjs (snd d) \<and> T \<le> fst d + 50000 \<and> fst d < T) groups ds"
    and "receiving T D k n0 A (c_rxStreams c)" "fronts_ok n0 A (concat groups)" "c_onReceived c = Some f"
    and "\<forall>j \<in> snd ` set (concat groups). n0 \<le> j \<and> j < n0 + 32766" "n0 + 32766 < 2 ^ 32" "\<And>i. D i \<noteq> []"
  shows "\<exists>r' m m'. read_datagrams th ds c = Some (c\<lparr>c_rxStreams := r'\<rparr>, map (told_s D k) [m ..< m'])
    \<and> m \<le> m' \<and> gap n0 A m \<and> gap n0 (snd ` set (concat groups) \<union> A) m'"
  using assms(1-5)
proof (induction groups ds arbitrary: A c rule: list_all2_induct)
  case Nil
  obtain m where "gap n0 A m" using receiving_gap [OF Nil(1)] by (elim exE)
  then show ?case by (intro exI [of _ "c_rxStreams c"] exI [of _ m]) simp
next
  case (Cons fjs groups d ds)
  obtain bss where d: "sizeof_PacketHeader \<le> length (snd d)" "length (snd d) < 2 ^ 32"
    "list_all2 (small_chunk_of D k) fjs bss" "drop sizeof_PacketHeader (snd d) = concat bss"
    using Cons.hyps(1) by (auto simp: small_datagram_def)
  have "unat (of_nat (length (snd d)) :: u32) = length (snd d)" using d(2) by (intro unat_of_nat_u32) simp
  note size = this
  have fronts: "fronts_ok n0 A fjs" "fronts_ok n0 (snd ` set fjs \<union> A) (concat groups)"
    using Cons.prems(2) by (simp_all add: fronts_ok_append)
  have js: "\<forall>j \<in> snd ` set fjs. n0 \<le> j \<and> j < n0 + 32766" "\<forall>j \<in> snd ` set (concat groups). n0 \<le> j \<and> j < n0 + 32766"
    using Cons.prems(4) by simp_all
  have time: "T \<le> fst d + 50000" "fst d < T" using Cons.hyps(1) by simp_all
  obtain r1 m m1 where a: "read_chunks (fst d) th (snd d) (of_nat (length (snd d))) sizeof_PacketHeader c
      = Some (c\<lparr>c_rxStreams := r1\<rparr>, map (told_s D k) [m ..< m1])" "m \<le> m1" "gap n0 A m"
    "gap n0 (snd ` set fjs \<union> A) m1" "receiving T D k n0 (snd ` set fjs \<union> A) r1"
    using read_chunks_arrivals [OF d(3) Cons.prems(1) fronts(1) Cons.prems(3) d(4) size d(1) js(1) assms(6) time assms(7), of th]
    by (elim exE conjE) (rule that)
  have c1: "receiving T D k n0 (snd ` set fjs \<union> A) (c_rxStreams (c\<lparr>c_rxStreams := r1\<rparr>))"
    "c_onReceived (c\<lparr>c_rxStreams := r1\<rparr>) = Some f" using a(5) Cons.prems(3) by simp_all
  obtain r' m2 m' where b: "read_datagrams th ds (c\<lparr>c_rxStreams := r1\<rparr>)
      = Some (c\<lparr>c_rxStreams := r1\<rparr>\<lparr>c_rxStreams := r'\<rparr>, map (told_s D k) [m2 ..< m'])" "m2 \<le> m'" "gap n0 (snd ` set fjs \<union> A) m2"
    "gap n0 (snd ` set (concat groups) \<union> (snd ` set fjs \<union> A)) m'"
    using Cons.IH [OF c1(1) fronts(2) c1(2) js(2)] by (elim exE conjE) (rule that)
  have all: "snd ` set (concat (fjs # groups)) \<union> A = snd ` set (concat groups) \<union> (snd ` set fjs \<union> A)"
    by (simp add: image_Un Un_ac)
  have "m2 = m1" using gap_unique [OF b(3) a(4)] .
  then show ?case
    using a(1-3) b told_append [OF a(2), of m'] unfolding all
    by (intro exI [of _ r'] exI [of _ m] exI [of _ m']) simp
qed

lemma read_datagrams_in_order:
  assumes "list_all2 (\<lambda>fjs d. small_datagram D k fjs (snd d) \<and> t0 \<le> fst d \<and> fst d < t0 + 50000) groups ds"
    and "idle_at k n0 (c_rxStreams c)" "c_onReceived c = Some f" "fronts_ok n0 {} (concat groups)"
    and "\<forall>j \<in> snd ` set (concat groups). n0 \<le> j \<and> j < n0 + 32766" "n0 + 32766 < 2 ^ 32" "\<forall>i. D i \<noteq> []"
  shows "\<exists>c' m. read_datagrams th ds c = Some (c', map (told_s D k) [n0 ..< m])
    \<and> {n0 ..< m} \<subseteq> snd ` set (concat groups) \<and> m \<notin> snd ` set (concat groups)"
proof -
  have ds: "list_all2 (\<lambda>fjs d. small_datagram D k fjs (snd d) \<and> t0 + 50000 \<le> fst d + 50000 \<and> fst d < t0 + 50000) groups ds"
    using assms(1) by (rule list_all2_mono) simp
  have rc: "receiving (t0 + 50000) D k n0 {} (c_rxStreams c)" using idle_receiving [OF assms(2)] assms(6) by simp
  obtain r' m m' where r: "read_datagrams th ds c = Some (c\<lparr>c_rxStreams := r'\<rparr>, map (told_s D k) [m ..< m'])"
    "m \<le> m'" "gap n0 {} m" "gap n0 (snd ` set (concat groups) \<union> {}) m'"
    using read_datagrams_arrivals [OF ds rc assms(4,3,5,6) assms(7) [rule_format], of th] by (elim exE conjE) (rule that)
  have "m = n0" using r(3) by (auto simp: gap_def)
  then show ?thesis using r(1,4) by (intro exI [of _ "c\<lparr>c_rxStreams := r'\<rparr>"] exI [of _ m']) (simp add: gap_def)
qed

text \<open>
  C2. Reliable delivery over a network that loses, repeats and reorders. A stream waits for packet \<open>n0\<close>;
  datagrams with small chunks of its packets arrive in any order and any number of times, some never,
  within 50 milliseconds, up to 32766 packets ahead, and a packet is marked as the front only when
  those before it have arrived; identifiers do not wrap around meanwhile. Then the application gets exactly
  the packets before the first missing one: whole, in order, each once. Nothing else is reported.
\<close>

theorem reordered_packets_delivered:
  assumes "list_all2 (\<lambda>fjs d. small_datagram D k fjs (snd d) \<and> t0 \<le> fst d \<and> fst d < t0 + 50000) groups ds"
    and "idle_at k n0 (c_rxStreams c)" "c_onReceived c = Some f" "fronts_ok n0 {} (concat groups)"
    and "\<forall>j \<in> snd ` set (concat groups). n0 \<le> j \<and> j < n0 + 32766" "n0 + 32766 < 2 ^ 32" "\<forall>i. D i \<noteq> []"
  shows "\<exists>c' m. read_datagrams th ds c
      = Some (c', map (\<lambda>i. Received 0 (Some (D i)) (of_nat (length (D i))) 0 k CHR ''s'') [n0 ..< m])
    \<and> {n0 ..< m} \<subseteq> snd ` set (concat groups) \<and> m \<notin> snd ` set (concat groups)"
proof -
  have "told_s D k = (\<lambda>i. Received 0 (Some (D i)) (of_nat (length (D i))) 0 k CHR ''s'')"
    by (simp add: told_s_def fun_eq_iff)
  with read_datagrams_in_order [OF assms, of th] show ?thesis by (simp only:)
qed

text \<open>Packets 0, 1 and 2 arrive as 2, then 0 and 2 once more, then 1.\<close>

definition example_small :: "nat \<Rightarrow> bytes" where
  "example_small j = the (small_packet_bytes (example_stream\<lparr>ts_packetFifoIdx := 1\<rparr>) (example_packet\<lparr>tp_id := of_nat j\<rparr>))"

lemma example_small_ok: "small_chunk_of (\<lambda>_. [1, 2, 3]) 4 (False, j) (example_small j)" "length (example_small j) = 10"
proof -
  have b: "small_packet_bytes (example_stream\<lparr>ts_packetFifoIdx := 1\<rparr>) (example_packet\<lparr>tp_id := of_nat j\<rparr>) = Some (example_small j)"
    by (simp add: example_small_def small_packet_bytes_def write_data_def mem_read_def example_packet_def Let_def)
  then show "small_chunk_of (\<lambda>_. [1, 2, 3]) 4 (False, j) (example_small j)"
    unfolding small_chunk_of_def
    by (intro exI [of _ "example_stream\<lparr>ts_packetFifoIdx := 1\<rparr>"] exI [of _ "example_packet\<lparr>tp_id := of_nat j\<rparr>"])
       (simp add: example_stream_def tx_packet_ok_def, simp add: example_packet_def)
  show "length (example_small j) = 10"
    using small_packet_length [OF b] by (simp add: example_packet_def getNumberOfBits_def masked_def code_bits_def)
qed

lemma example_small_datagram:
  "small_datagram (\<lambda>_. [1, 2, 3]) 4 [(False, i)] (replicate 26 0 @ example_small i)"
  "small_datagram (\<lambda>_. [1, 2, 3]) 4 [(False, i), (False, j)] (replicate 26 0 @ example_small i @ example_small j)"
  using example_small_ok [of i] example_small_ok [of j]
  by (auto simp: small_datagram_def intro: exI [of _ "[example_small i]"] exI [of _ "[example_small i, example_small j]"])

lemma first_missing_3: "{0 ..< m} \<subseteq> {0, 1, 2 :: nat} \<Longrightarrow> m \<notin> {0, 1, 2} \<Longrightarrow> m = 3"
  using subsetD [of "{0 ..< m}" "{0, 1, 2}" 3] by (cases "3 < m") auto

theorem reordered_packets_delivered_witness:
  "\<exists>c'. read_datagrams 0x100000 [(1000, replicate 26 0 @ example_small 2),
       (2000, replicate 26 0 @ example_small 0 @ example_small 2), (40000, replicate 26 0 @ example_small 1)] example_receiver
     = Some (c', replicate 3 (Received 0 (Some [1, 2, 3]) 3 0 4 CHR ''s''))"
proof -
  let ?g = "[[(False, 2)], [(False, 0), (False, 2)], [(False, 1)]] :: (bool \<times> nat) list list"
  let ?ds = "[(1000, replicate 26 0 @ example_small 2), (2000, replicate 26 0 @ example_small 0 @ example_small 2),
     (40000, replicate 26 0 @ example_small 1)] :: (tick \<times> bytes) list"
  have ds: "list_all2 (\<lambda>fjs d. small_datagram (\<lambda>_. [1, 2, 3]) 4 fjs (snd d) \<and> 1000 \<le> fst d \<and> fst d < 1000 + 50000) ?g ?ds"
    using example_small_datagram by simp
  have idle: "idle_at 4 0 (c_rxStreams example_receiver)" "c_onReceived example_receiver = Some (\<lambda>_ _ _ _ _ _. 0)"
    by (simp_all add: idle_at_def example_receiver_eq partialReset_Connection_init RxStreams_init_def rx_stream_at_def)
  have js: "fronts_ok 0 {} (concat ?g)" "\<forall>j \<in> snd ` set (concat ?g). 0 \<le> j \<and> j < 0 + 32766" "(0 :: nat) + 32766 < 2 ^ 32"
    "\<forall>i :: nat. [1, 2, 3] \<noteq> ([] :: bytes)"
    by simp_all
  have all: "snd ` set (concat ?g) = {0, 1, 2}" by auto
  note ex = reordered_packets_delivered [where D = "\<lambda>_. [1, 2, 3]" and k = 4 and th = "0x100000" and ?n0.0 = 0 and groups = ?g and ds = ?ds and ?t0.0 = 1000 and c = example_receiver and f = "\<lambda>_ _ _ _ _ _. 0",
      OF ds idle js]
  obtain c' m where m: "read_datagrams 0x100000 ?ds example_receiver
      = Some (c', map (\<lambda>i. Received 0 (Some [1, 2, 3]) (of_nat (length [1, 2, 3 :: u8])) 0 4 CHR ''s'') [0 ..< m])
    \<and> {0 ..< m} \<subseteq> snd ` set (concat ?g) \<and> m \<notin> snd ` set (concat ?g)"
    using ex by (elim exE) (rule that)
  have "m = 3"
    by (rule first_missing_3 [OF conjunct1 [OF conjunct2 [OF m], unfolded all] conjunct2 [OF conjunct2 [OF m], unfolded all]])
  then have "map (\<lambda>i. Received 0 (Some [1, 2, 3]) (of_nat (length [1, 2, 3 :: u8])) 0 4 CHR ''s'') [0 ..< m]
      = replicate 3 (Received 0 (Some [1, 2, 3]) 3 0 4 CHR ''s'')"
    by (simp add: map_replicate_const)
  then show ?thesis using conjunct1 [OF m] by (intro exI [of _ c']) (simp only:)
qed

subsection \<open>A gap that is not closed in time\<close>

text \<open>Stream \<open>k\<close> after its first chunk is packet 1, and after packets 0 to 2 are gone.\<close>

definition gap_stream :: "tick \<Rightarrow> tick \<Rightarrow> bytes \<Rightarrow> u8 \<Rightarrow> RxStream" where
  "gap_stream t1 t d k = RxStream_init\<lparr>rs_isNew := False, rs_id := k, rs_fifoShadow := [0, 1],
     rs_fifo := [new_packet t1 False 0, (new_packet t1 False 1)\<lparr>rp_timeout_us := t, rp_isReceived := True,
       rp_size_B := of_nat (length d), rp_copy := d\<rparr>]\<rparr>"

definition past_stream :: "u8 \<Rightarrow> RxStream" where
  "past_stream k = RxStream_init\<lparr>rs_isNew := False, rs_id := k, rs_debugPacketId := 2, rs_frontPacketId := 3,
     rs_fifo := [], rs_fifoShadow := [], rs_packetIdx := rs_packetIdx RxStream_init - 3\<rparr>"

lemmas run_rx = rx_chunk_def Let_def updateFrontPacketId_def advance_front_def isReceivedBefore_def get_packet_def
  emplace_def emplace_up_eq use_small_def set_rx_packet_def processRxFifo_Cons processRxFifo_Nil rx_verdict_def gap_stream_def past_stream_def
  push_packet_def notify_received_def rx_remove_def pop_front_rx_def rx_report_def told_s_def

lemma gap_opens:
  "small_arrives f D k t1 RTT_us False True 1 RxStreams_init
   = Some (put_rx_stream k (gap_stream t1 (t1 + rtt200 RTT_us) (D 1) k)
       (push_ack True k 1 (open_rx_stream t1 k RxStreams_init)), [])"
proof -
  have o: "rx_stream_at k (open_rx_stream t1 k RxStreams_init)
      = push_packet t1 0 (RxStream_init\<lparr>rs_isNew := False, rs_id := k\<rparr>)"
    by (simp add: open_rx_stream_def rx_stream_at_def RxStreams_init_def get_packet_init Let_def)
  have q: "\<not> quarter3 \<le> (1 :: u32)" by (simp add: word_le_nat_alt)
  show ?thesis by (simp add: o q run_rx upt_rec)
qed

lemma gap_expires:
  assumes "rx_stream_at k r = gap_stream t1 t (D 1) k" "t1 + 50000 \<le> t2" "D 1 \<noteq> []" "D 2 \<noteq> []"
  shows "small_arrives f D k t2 RTT_us False True 2 r = Some (put_rx_stream k (past_stream k)
    (push_ack True k 2 (open_rx_stream t2 k r)), [Received 0 None 0 0 k CHR ''t'', told_s D k 1, told_s D k 2])"
proof -
  have o: "rx_stream_at k (open_rx_stream t2 k r) = gap_stream t1 t (D 1) k"
    using assms(1) by (simp add: open_rx_stream_def Let_def gap_stream_def)
  have i: "0 < rs_packetIdx RxStream_init" "0 < rs_packetIdx RxStream_init - 1" "0 < rs_packetIdx RxStream_init - 2" by (simp_all add: RxStream_init_def)
  show ?thesis using assms(2-4) by (simp add: o i run_rx upt_rec)
qed

lemma gap_refused:
  assumes "rx_stream_at k r = past_stream k"
  shows "small_arrives f D k t3 RTT_us front True 0 r = Some (push_ack True k 0 (put_rx_stream k (past_stream k)
    (open_rx_stream t3 k r)), [])"
proof -
  have o: "rx_stream_at k (open_rx_stream t3 k r) = past_stream k"
    using assms(1) by (simp add: open_rx_stream_def Let_def past_stream_def)
  show ?thesis by (simp add: o run_rx)
qed

lemma push_ack_in: "(k, j) \<in> set (rxs_acks (push_ack True k j r))"
  by (simp add: push_ack_def) (metis last_in_set)

text \<open>
  C35. A late packet of a reliable stream is lost although it arrives. When packet 1 comes before packet 0, the
  receiver grants packet 0 the 50 milliseconds of \<open>emplace\<close>. If it has not come when packet 2 arrives after them,
  the application is told that it timed out, although the packets are reliable, and gets 1 and 2. The
  retransmission of packet 0 is then dropped as received before, and acknowledged to the sender.
\<close>

theorem late_gap_given_up:
  assumes "t1 + 50000 \<le> t2" "\<forall>i. D i \<noteq> []"
  shows "\<exists>r1 r2 r3. small_arrives f D k t1 RTT1 False True 1 RxStreams_init = Some (r1, [])
    \<and> small_arrives f D k t2 RTT2 False True 2 r1
      = Some (r2, [Received 0 None 0 0 k CHR ''t'', told_s D k 1, told_s D k 2])
    \<and> small_arrives f D k t3 RTT3 front True 0 r2 = Some (r3, []) \<and> (k, 0) \<in> set (rxs_acks r3)"
proof -
  show ?thesis
    by (intro exI conjI, rule gap_opens, rule gap_expires, simp, rule assms(1), simp add: assms(2), simp add: assms(2),
      rule gap_refused, simp, rule push_ack_in)
qed

theorem late_gap_given_up_witness:
  "\<exists>r1 r2 r3. small_arrives (\<lambda>_ _ _ _ _ _. 0) (\<lambda>i. [of_nat i]) 4 0 40000 False True 1 RxStreams_init = Some (r1, [])
    \<and> small_arrives (\<lambda>_ _ _ _ _ _. 0) (\<lambda>i. [of_nat i]) 4 60000 40000 False True 2 r1
      = Some (r2, [Received 0 None 0 0 4 CHR ''t'', Received 0 (Some [1]) 1 0 4 CHR ''s'', Received 0 (Some [2]) 1 0 4 CHR ''s''])
    \<and> small_arrives (\<lambda>_ _ _ _ _ _. 0) (\<lambda>i. [of_nat i]) 4 80000 40000 False True 0 r2 = Some (r3, [])
    \<and> (4, 0) \<in> set (rxs_acks r3)"
proof -
  have t: "told_s (\<lambda>i. [of_nat i]) 4 1 = Received 0 (Some [1]) 1 0 4 CHR ''s''"
    "told_s (\<lambda>i. [of_nat i]) 4 2 = Received 0 (Some [2]) 1 0 4 CHR ''s''"
    by (simp_all add: told_s_def)
  have a: "(0 :: tick) + 50000 \<le> 60000" "\<forall>i :: nat. [of_nat i :: u8] \<noteq> []" by simp_all
  show ?thesis
    using late_gap_given_up [where k = 4 and front = False and ?t3.0 = 80000 and f = "\<lambda>_ _ _ _ _ _. 0"
      and D = "\<lambda>i. [of_nat i]" and ?RTT1.0 = 40000 and ?RTT2.0 = 40000 and ?RTT3.0 = 40000, OF a]
    unfolding t .
qed

end
