(* ===== verification/Udsp_Demo.thy ===== *)
theory Udsp_Demo
  imports Udsp_Reordering
begin

text \<open>
  The demo programs \<open>main_client.cpp\<close> and \<open>main_server.cpp\<close>: the client numbers its packets and sends
  them on streams of several priorities, step by step; the server checks the numbers of what it receives.
  The calls into the library and the lines that the server prints are lists, in order.
\<close>

abbreviation letter :: "char \<Rightarrow> u8" where
  "letter c \<equiv> of_nat (of_char c)"

definition data_streams :: "u8 list" where
  "data_streams = map letter ''RrHhMmLl''"

subsection \<open>StreamGenerator\<close>

record StreamGenerator =
  g_buffer :: bytes
  g_queueSizeLimit_B :: u32
  g_queueSize_B :: u32
  g_totalBytesToSend_B :: u32
  g_totalBytesSent_B :: u32
  g_packetSize_B :: u32
  g_packetsCount :: u32

definition StreamGenerator_init :: StreamGenerator where
  "StreamGenerator_init = \<lparr>g_buffer = [], g_queueSizeLimit_B = 16 * 1024 * 1024, g_queueSize_B = 0,
     g_totalBytesToSend_B = 1, g_totalBytesSent_B = 1, g_packetSize_B = 0, g_packetsCount = 0\<rparr>"

definition gen_onDelivered :: "u64 \<Rightarrow> StreamGenerator \<Rightarrow> StreamGenerator" where
  "gen_onDelivered size_B g =
     (if size_B \<le> ucast (g_queueSize_B g) then g\<lparr>g_queueSize_B := g_queueSize_B g - ucast size_B\<rparr>
      else g\<lparr>g_queueSize_B := 0\<rparr>)"

definition gen_start :: "u32 \<Rightarrow> u32 \<Rightarrow> StreamGenerator \<Rightarrow> StreamGenerator" where
  "gen_start totalBytesToSend_B packetSize_B g =
     g\<lparr>g_queueSize_B := 0, g_totalBytesToSend_B := totalBytesToSend_B, g_totalBytesSent_B := 0,
       g_packetSize_B := packetSize_B, g_packetsCount := 0, g_buffer := vec_resize (unat packetSize_B) (g_buffer g)\<rparr>"

definition gen_isFinished :: "StreamGenerator \<Rightarrow> bool" where
  "gen_isFinished g \<longleftrightarrow> g_totalBytesToSend_B g \<le> g_totalBytesSent_B g"

text \<open>\<open>process\<close> with the packets it hands to \<open>onSend\<close>. \<open>None\<close> stands for a number that does not fit into the
  buffer, and for a loop that does not end, as with packets of size zero.\<close>

definition gen_number :: "StreamGenerator \<Rightarrow> StreamGenerator" where
  "gen_number g = g\<lparr>g_buffer := overwrite 0 (write_u32 (g_packetsCount g)) (g_buffer g),
     g_packetsCount := g_packetsCount g + 1, g_queueSize_B := g_queueSize_B g + g_packetSize_B g,
     g_totalBytesSent_B := g_totalBytesSent_B g + g_packetSize_B g\<rparr>"

partial_function (option) gen_process :: "StreamGenerator \<Rightarrow> (StreamGenerator \<times> bytes list) option" where
  "gen_process g =
     (if g_queueSize_B g < g_queueSizeLimit_B g then
        if gen_isFinished g then Some (g, [])
        else if length (g_buffer g) < max 4 (unat (g_packetSize_B g)) then None
        else Option.bind (gen_process (gen_number g)) (\<lambda>(g', sends).
          Some (g', take (unat (g_packetSize_B g)) (g_buffer (gen_number g)) # sends))
      else Some (g, []))"

text \<open>The percentage is a \<open>float\<close>; a total of zero is a division by zero.\<close>

definition gen_getProgress_prc :: "StreamGenerator \<Rightarrow> rat option" where
  "gen_getProgress_prc g =
     (if g_totalBytesToSend_B g = 0 then None
      else let permille = (ucast (g_totalBytesSent_B g) * 1000) div (ucast (g_totalBytesToSend_B g)) :: u64
           in Some (round32 (of_nat (unat (min (ucast permille) (1000 :: u32))) * round32 (1 / 10))))"

subsection \<open>Client\<close>

datatype Step = Start | TestTxSpeed | TestRxSpeed | TestRtxSpeed | SingleReliable | SeveralReliable
  | SingleUnreliable | SeveralUnreliable | SingleSmallReliable | SeveralSmallReliable | Finish

datatype client_call =
    Call_send bytes u8 u32
  | Call_setTestBandwidthState bool
  | Call_setTxStreamPriority u8 char
  | Call_disconnect
  | Print_progress "rat list"

text \<open>The eight generators are a function of the letter of their stream; the four counters of bytes are
  those of the letters without case.\<close>

record Client =
  cl_step :: Step
  cl_connected :: bool
  cl_stream :: "u8 \<Rightarrow> StreamGenerator"
  cl_count_B :: "u8 \<Rightarrow> u64"
  cl_counter :: u32
  cl_counter10Hz :: u32

definition Client_init :: Client where
  "Client_init = \<lparr>cl_step = Start, cl_connected = False, cl_stream = (\<lambda>_. StreamGenerator_init),
     cl_count_B = (\<lambda>_. 0), cl_counter = 0, cl_counter10Hz = 0\<rparr>"

definition steps_to_run :: "Step list" where
  "steps_to_run = [Start, SeveralReliable, Finish]"

abbreviation totalBytesToSend :: u32 where
  "totalBytesToSend \<equiv> 10 * 50 * 1024 * 1024"

definition start_streams :: "string \<Rightarrow> u32 \<Rightarrow> Client \<Rightarrow> Client" where
  "start_streams ls packetSize_B c = c\<lparr>cl_stream := (\<lambda>k. if k \<in> set (map letter ls)
     then gen_start totalBytesToSend packetSize_B (cl_stream c k) else cl_stream c k)\<rparr>"

definition control :: "bool \<Rightarrow> bool \<Rightarrow> client_call list" where
  "control peer own = [Call_send [if peer then 1 else 0] (letter CHR ''C'') 5000, Call_setTestBandwidthState own]"

definition enter_step :: "Step \<Rightarrow> Client \<Rightarrow> Client \<times> client_call list" where
  "enter_step st c = (case st of
     TestTxSpeed \<Rightarrow> (c, control False True)
   | TestRxSpeed \<Rightarrow> (c, control True False)
   | TestRtxSpeed \<Rightarrow> (c, control True True)
   | SingleReliable \<Rightarrow> (start_streams ''R'' 4096 c, [])
   | SeveralReliable \<Rightarrow> (start_streams ''RHML'' 4096 c, [])
   | SingleUnreliable \<Rightarrow> (start_streams ''r'' 4096 c, [])
   | SeveralUnreliable \<Rightarrow> (start_streams ''rhml'' 4096 c, [])
   | SingleSmallReliable \<Rightarrow> (start_streams ''R'' 4 c, [])
   | SeveralSmallReliable \<Rightarrow> (start_streams ''RHML'' 4 c, [])
   | _ \<Rightarrow> (c, []))"

definition nextStep :: "Client \<Rightarrow> Client \<times> client_call list" where
  "nextStep c =
     (let idx = length (takeWhile (\<lambda>st. st \<noteq> cl_step c) steps_to_run) in
      if length steps_to_run \<le> idx + 1 then (c, [])
      else let begun = (if cl_step c = Start then control False False
                 @ Call_setTxStreamPriority (letter CHR ''C'') CHR ''R''
                 # map (\<lambda>ch. Call_setTxStreamPriority (letter ch) ch) ''RrHhMmLl'' else []);
               st = steps_to_run ! (idx + 1);
               quiet = (if st \<in> {TestTxSpeed, TestRxSpeed, TestRtxSpeed} then [] else control False False);
               (c, calls) = enter_step st (c\<lparr>cl_step := st\<rparr>)
           in (c, begun @ quiet @ calls))"

text \<open>The callbacks of \<open>main\<close>; \<open>onDelivered\<close> returns at once unless the packet was delivered.\<close>

definition client_onConnected :: "Client \<Rightarrow> Client" where
  "client_onConnected c = c\<lparr>cl_step := Start, cl_connected := True\<rparr>"

definition client_onDisconnected :: "Client \<Rightarrow> Client" where
  "client_onDisconnected c = c\<lparr>cl_connected := False\<rparr>"

definition upper :: "u8 \<Rightarrow> u8" where
  "upper k = (if 97 \<le> k then k - 32 else k)"

definition client_onDelivered :: "u64 \<Rightarrow> u8 \<Rightarrow> char \<Rightarrow> Client \<Rightarrow> Client" where
  "client_onDelivered size_B streamId status c =
     (if status \<noteq> CHR ''s'' \<or> streamId \<notin> set data_streams then c
      else c\<lparr>cl_count_B := (cl_count_B c)(upper streamId := cl_count_B c (upper streamId) + size_B),
             cl_stream := (cl_stream c)(streamId := gen_onDelivered size_B (cl_stream c streamId))\<rparr>)"

text \<open>\<open>process\<close> of some streams in turn; a packet goes to \<open>send\<close> with ten minutes to time out.\<close>

primrec process_streams :: "u8 list \<Rightarrow> Client \<Rightarrow> (Client \<times> client_call list) option" where
  "process_streams [] c = Some (c, [])"
| "process_streams (k # ks) c =
     Option.bind (gen_process (cl_stream c k)) (\<lambda>(g, sends).
       Option.bind (process_streams ks (c\<lparr>cl_stream := (cl_stream c)(k := g)\<rparr>)) (\<lambda>(c, calls).
         Some (c, map (\<lambda>data. Call_send data k (10 * 60 * 1000)) sends @ calls)))"

definition run_streams :: "string \<Rightarrow> Client \<Rightarrow> (Client \<times> client_call list) option" where
  "run_streams ls c =
     Option.bind (process_streams (map letter ls) c) (\<lambda>(c, calls).
       if \<forall>k \<in> set (map letter ls). gen_isFinished (cl_stream c k)
       then let (c, more) = nextStep c in Some (c, calls @ more) else Some (c, calls))"

definition count_rounds :: "Client \<Rightarrow> Client \<times> client_call list" where
  "count_rounds c =
     (let c = c\<lparr>cl_counter := cl_counter c + 1\<rparr>
      in if 15 * 10 \<le> cl_counter c then nextStep (c\<lparr>cl_counter := 0\<rparr>) else (c, []))"

definition report_state :: "Client \<Rightarrow> (Client \<times> client_call list) option" where
  "report_state c =
     (let c = c\<lparr>cl_counter10Hz := cl_counter10Hz c + 1\<rparr> in
      if 10 \<le> cl_counter10Hz c
      then Option.bind (those (map (\<lambda>ch. gen_getProgress_prc (cl_stream c (letter ch))) ''RHMLrhml'')) (\<lambda>ps.
        Some (c\<lparr>cl_counter10Hz := 0, cl_count_B := (\<lambda>_. 0)\<rparr>, [Print_progress ps]))
      else Some (c, []))"

text \<open>A round of the loop of \<open>main\<close>; \<open>True\<close> when \<open>main\<close> returns.\<close>

definition client_step :: "Client \<Rightarrow> (Client \<times> client_call list) option" where
  "client_step c = (case cl_step c of
     Start \<Rightarrow> Some (nextStep c)
   | TestTxSpeed \<Rightarrow> Some (count_rounds c)
   | TestRxSpeed \<Rightarrow> Some (count_rounds c)
   | TestRtxSpeed \<Rightarrow> Some (count_rounds c)
   | SingleReliable \<Rightarrow> run_streams ''R'' c
   | SingleSmallReliable \<Rightarrow> run_streams ''R'' c
   | SingleUnreliable \<Rightarrow> run_streams ''r'' c
   | SeveralReliable \<Rightarrow> run_streams ''RHML'' c
   | SeveralSmallReliable \<Rightarrow> run_streams ''RHML'' c
   | Finish \<Rightarrow> Some (c, [Call_disconnect])
   | SeveralUnreliable \<Rightarrow> Some (c, []))"

definition client_round :: "Client \<Rightarrow> (bool \<times> Client \<times> client_call list) option" where
  "client_round c =
     (if \<not> cl_connected c then Some (False, c, [])
      else Option.bind (report_state c) (\<lambda>(c, calls).
        Option.bind (client_step c) (\<lambda>(c', calls'). Some (cl_step c = Finish, c', calls @ calls'))))"

subsection \<open>Server\<close>

datatype server_out =
    Unknown_streamId u8
  | Timed_out u8 u32
  | Something_went_wrong char u64 u64
  | Started u8
  | Loss_detected u8 u32 u32 u32
  | Set_test_bandwidth bool

text \<open>The last number on each data stream. The letter of the stream selects it.\<close>

type_synonym server_state = "u8 \<Rightarrow> u32"

definition Server_init :: server_state where
  "Server_init = (\<lambda>_. 0)"

definition server_onReceived ::
  "bytes option \<Rightarrow> u64 \<Rightarrow> u64 \<Rightarrow> u8 \<Rightarrow> char \<Rightarrow> server_state \<Rightarrow> (server_state \<times> server_out list) option" where
  "server_onReceived data size_B offset_B rxStreamId status prev =
     (if rxStreamId = letter CHR ''C'' then
        if status \<noteq> CHR ''s'' then Some (prev, [])
        else Option.bind data (\<lambda>bs. if bs = [] then None else Some (prev, [Set_test_bandwidth (hd bs \<noteq> 0)]))
      else if rxStreamId \<notin> set data_streams then Some (prev, [Unknown_streamId rxStreamId])
      else if status = CHR ''t'' then
        Some (prev(rxStreamId := prev rxStreamId + 1), [Timed_out rxStreamId (prev rxStreamId + 1)])
      else if status = CHR ''s'' then
        if size_B < 4 \<or> offset_B \<noteq> 0 then Some (prev, [Something_went_wrong status size_B offset_B])
        else Option.bind (Option.bind data read_u32) (\<lambda>(packetId, _).
          if packetId = 0 then Some (prev(rxStreamId := 0), [Started rxStreamId])
          else Some (prev(rxStreamId := packetId),
                 if 1 < packetId - prev rxStreamId
                 then [Loss_detected rxStreamId (packetId - prev rxStreamId) packetId (prev rxStreamId)] else []))
      else Some (prev, [Something_went_wrong status size_B offset_B]))"

primrec server_run :: "event list \<Rightarrow> server_state \<Rightarrow> (server_state \<times> server_out list) option" where
  "server_run [] prev = Some (prev, [])"
| "server_run (e # evs) prev = (case e of
     Received ctx data size_B offset_B k status \<Rightarrow>
       Option.bind (server_onReceived data size_B offset_B k status prev) (\<lambda>(prev, outs).
         Option.bind (server_run evs prev) (\<lambda>(prev, more). Some (prev, outs @ more)))
   | _ \<Rightarrow> server_run evs prev)"

subsection \<open>The generator\<close>

text \<open>The packet with number \<open>i\<close>, and what the operations keep of a generator.\<close>

definition gen_packet :: "StreamGenerator \<Rightarrow> u32 \<Rightarrow> bytes" where
  "gen_packet g i = write_u32 i @ drop 4 (g_buffer g)"

definition gen_inv :: "StreamGenerator \<Rightarrow> bool" where
  "gen_inv g \<longleftrightarrow> g_totalBytesToSend_B g \<noteq> 0 \<and> unat (g_totalBytesToSend_B g) + unat (g_packetSize_B g) < 2 ^ 32
     \<and> unat (g_queueSizeLimit_B g) + unat (g_packetSize_B g) < 2 ^ 32
     \<and> (gen_isFinished g \<or> length (g_buffer g) = unat (g_packetSize_B g) \<and> 4 \<le> unat (g_packetSize_B g))"

lemma unat_add_u32: "unat (a :: u32) + unat b < 2 ^ 32 \<Longrightarrow> unat (a + b) = unat a + unat b"
  by (subst unat_word_ariths(1)) simp

lemma gen_number_sizes:
  assumes "gen_inv g" "\<not> gen_isFinished g" "g_queueSize_B g < g_queueSizeLimit_B g"
  shows "unat (g_totalBytesSent_B (gen_number g)) = unat (g_totalBytesSent_B g) + unat (g_packetSize_B g)"
    "unat (g_queueSize_B (gen_number g)) = unat (g_queueSize_B g) + unat (g_packetSize_B g)"
  using assms by (simp_all add: gen_inv_def gen_number_def gen_isFinished_def not_le word_less_nat_alt unat_add_u32)

lemma gen_number_buffer:
  assumes "gen_inv g" "\<not> gen_isFinished g"
  shows "take (unat (g_packetSize_B g)) (g_buffer (gen_number g)) = gen_packet g (g_packetsCount g)"
    "gen_packet (gen_number g) = gen_packet g" "gen_inv (gen_number g)"
proof -
  have b: "g_buffer (gen_number g) = gen_packet g (g_packetsCount g)" "length (g_buffer g) = unat (g_packetSize_B g)"
    "4 \<le> unat (g_packetSize_B g)"
    using assms by (simp_all add: gen_inv_def gen_number_def gen_packet_def overwrite_def)
  then show "take (unat (g_packetSize_B g)) (g_buffer (gen_number g)) = gen_packet g (g_packetsCount g)"
    by (simp add: gen_packet_def)
  show "gen_packet (gen_number g) = gen_packet g" by (simp add: gen_packet_def fun_eq_iff b(1))
  show "gen_inv (gen_number g)"
    using assms(1) b by (simp add: gen_inv_def gen_packet_def) (simp add: gen_number_def)
qed

lemma gen_number_simps [simp]:
  "g_packetsCount (gen_number g) = g_packetsCount g + 1" "g_packetSize_B (gen_number g) = g_packetSize_B g"
  "g_totalBytesToSend_B (gen_number g) = g_totalBytesToSend_B g" "g_queueSizeLimit_B (gen_number g) = g_queueSizeLimit_B g"
  by (simp_all add: gen_number_def)

lemma gen_process_sends:
  assumes "gen_inv g"
  shows "\<exists>n g'. gen_process g = Some (g', map (\<lambda>i. gen_packet g (g_packetsCount g + of_nat i)) [0 ..< n]) \<and> gen_inv g'
    \<and> g_packetsCount g' = g_packetsCount g + of_nat n \<and> unat (g_queueSize_B g') = unat (g_queueSize_B g) + n * unat (g_packetSize_B g)
    \<and> unat (g_totalBytesSent_B g') = unat (g_totalBytesSent_B g) + n * unat (g_packetSize_B g)
    \<and> g_queueSizeLimit_B g' = g_queueSizeLimit_B g \<and> (gen_isFinished g' \<or> g_queueSizeLimit_B g \<le> g_queueSize_B g')"
  using assms
proof (induction "unat (g_totalBytesToSend_B g) - unat (g_totalBytesSent_B g)" arbitrary: g rule: less_induct)
  case less
  show ?case
  proof (cases "gen_isFinished g \<or> \<not> g_queueSize_B g < g_queueSizeLimit_B g")
    case True
    then have "gen_process g = Some (g, [])" by (subst gen_process.simps) auto
    with less.prems True show ?thesis by (intro exI [of _ 0] exI [of _ g]) auto
  next
    case False
    let ?g = "gen_number g"
    note sz = gen_number_sizes [OF less.prems] and bf = gen_number_buffer [OF less.prems]
    have "unat (g_totalBytesSent_B g) < unat (g_totalBytesToSend_B g)"
      using False by (simp add: gen_isFinished_def not_le word_less_nat_alt)
    moreover have "0 < unat (g_packetSize_B g)" using False less.prems by (auto simp: gen_inv_def)
    ultimately have "unat (g_totalBytesToSend_B ?g) - unat (g_totalBytesSent_B ?g)
        < unat (g_totalBytesToSend_B g) - unat (g_totalBytesSent_B g)"
      using sz False by simp
    from less.hyps [OF this bf(3)] False obtain n g' where
      IH: "gen_process ?g = Some (g', map (\<lambda>i. gen_packet g (g_packetsCount g + 1 + of_nat i)) [0 ..< n])" "gen_inv g'"
        "g_packetsCount g' = g_packetsCount g + 1 + of_nat n"
        "unat (g_queueSize_B g') = unat (g_queueSize_B ?g) + n * unat (g_packetSize_B g)"
        "unat (g_totalBytesSent_B g') = unat (g_totalBytesSent_B ?g) + n * unat (g_packetSize_B g)"
        "g_queueSizeLimit_B g' = g_queueSizeLimit_B g" "gen_isFinished g' \<or> g_queueSizeLimit_B g \<le> g_queueSize_B g'"
      using bf(2) by auto
    have "map (\<lambda>i. gen_packet g (g_packetsCount g + of_nat i)) [0 ..< Suc n] =
        gen_packet g (g_packetsCount g) # map (\<lambda>i. gen_packet g (g_packetsCount g + 1 + of_nat i)) [0 ..< n]"
      by (simp add: map_upt_Suc add.assoc del: upt_Suc)
    moreover have "\<not> length (g_buffer g) < max 4 (unat (g_packetSize_B g))"
      using less.prems False by (auto simp: gen_inv_def)
    ultimately have "gen_process g = Some (g', map (\<lambda>i. gen_packet g (g_packetsCount g + of_nat i)) [0 ..< Suc n])"
      using False IH(1) bf(1) by (subst gen_process.simps) simp
    then show ?thesis using IH(2-) sz False by (intro exI [of _ "Suc n"] exI [of _ g']) simp
  qed
qed

lemma gen_inv_init: "gen_inv StreamGenerator_init"
  by (simp add: gen_inv_def StreamGenerator_init_def gen_isFinished_def)

lemma gen_inv_onDelivered [simp]: "gen_inv (gen_onDelivered size_B g) = gen_inv g"
  by (simp add: gen_inv_def gen_onDelivered_def gen_isFinished_def)

lemma gen_inv_start:
  "tot \<noteq> 0 \<Longrightarrow> unat tot + unat ps < 2 ^ 32 \<Longrightarrow> unat (g_queueSizeLimit_B g) + unat ps < 2 ^ 32 \<Longrightarrow> 4 \<le> unat ps
   \<Longrightarrow> gen_inv (gen_start tot ps g)"
  by (simp add: gen_inv_def gen_start_def)

subsection \<open>The client\<close>

definition client_inv :: "Client \<Rightarrow> bool" where
  "client_inv c \<longleftrightarrow> (\<forall>k. gen_inv (cl_stream c k) \<and> g_queueSizeLimit_B (cl_stream c k) = 16 * 1024 * 1024)"

definition sent_on :: "u8 \<Rightarrow> client_call list \<Rightarrow> bytes list" where
  "sent_on k calls = concat (map (\<lambda>x. case x of Call_send data k' _ \<Rightarrow> if k' = k then [data] else [] | _ \<Rightarrow> []) calls)"

text \<open>Packets of stream \<open>k\<close> with consecutive numbers, from the number that its generator has come to.\<close>

definition numbered :: "Client \<Rightarrow> u8 \<Rightarrow> bytes list \<Rightarrow> bool" where
  "numbered c k sends \<longleftrightarrow> (\<exists>n. sends =
     map (\<lambda>i. gen_packet (cl_stream c k) (g_packetsCount (cl_stream c k) + of_nat i)) [0 ..< n])"

lemma sent_on_simps [simp]: "sent_on k [] = []" "sent_on k (xs @ ys) = sent_on k xs @ sent_on k ys"
  "sent_on k (map (\<lambda>data. Call_send data k t) sends) = sends"
  "k' \<noteq> k \<Longrightarrow> sent_on k (map (\<lambda>data. Call_send data k' t) sends) = []"
  by (simp_all add: sent_on_def, (induction sends, simp_all)+)

lemma numbered_nil [simp]: "numbered c k []"
  by (simp add: numbered_def)

lemma client_inv_init: "client_inv Client_init"
  using gen_inv_init by (simp add: client_inv_def Client_init_def) (simp add: StreamGenerator_init_def)

lemma client_inv_callbacks: "client_inv c \<Longrightarrow> client_inv (client_onConnected c)" "client_inv c \<Longrightarrow> client_inv (client_onDisconnected c)"
  "client_inv c \<Longrightarrow> client_inv (client_onDelivered size_B k status c)"
  by (simp_all add: client_inv_def client_onConnected_def client_onDisconnected_def client_onDelivered_def)
     (simp add: gen_onDelivered_def)

lemma client_inv_start: "client_inv c \<Longrightarrow> ps \<in> {4, 4096} \<Longrightarrow> client_inv (start_streams ls ps c)"
  by (auto simp: client_inv_def start_streams_def intro!: gen_inv_start) (simp_all add: gen_start_def)

lemma client_inv_frame:
  "client_inv (c\<lparr>cl_step := st\<rparr>) = client_inv c" "client_inv (c\<lparr>cl_counter := n\<rparr>) = client_inv c"
  "client_inv (c\<lparr>cl_counter10Hz := n\<rparr>) = client_inv c" "client_inv (c\<lparr>cl_count_B := f\<rparr>) = client_inv c"
  by (simp_all add: client_inv_def)

lemma nextStep_keeps:
  assumes "client_inv c" "nextStep c = (c', calls)"
  shows "client_inv c' \<and> (k \<noteq> letter CHR ''C'' \<longrightarrow> sent_on k calls = [])"
proof -
  have s: "k \<noteq> letter CHR ''C'' \<Longrightarrow> sent_on k (control a b) = []" for a b by (simp add: control_def sent_on_def)
  have e: "client_inv d \<Longrightarrow> client_inv (fst (enter_step st d)) \<and> (k \<noteq> letter CHR ''C'' \<longrightarrow> sent_on k (snd (enter_step st d)) = [])" for st d
    using s by (cases st) (auto simp: enter_step_def client_inv_start)
  have p: "sent_on k (Call_setTxStreamPriority a b # xs) = sent_on k xs" for a b xs by (simp add: sent_on_def)
  show ?thesis
    using assms e [of "c\<lparr>cl_step := steps_to_run ! Suc (length (takeWhile (\<lambda>st. st \<noteq> cl_step c) steps_to_run))\<rparr>"] s
    by (auto simp: nextStep_def Let_def case_prod_unfold p client_inv_frame split: if_splits)
qed

lemma process_streams_returns:
  assumes "client_inv c" "distinct ks"
  shows "\<exists>c' calls. process_streams ks c = Some (c', calls) \<and> client_inv c' \<and> cl_step c' = cl_step c
    \<and> (\<forall>k. numbered c k (sent_on k calls) \<and> (k \<notin> set ks \<longrightarrow> sent_on k calls = []))"
  using assms
proof (induction ks arbitrary: c)
  case Nil
  then show ?case by simp
next
  case (Cons k ks)
  then have "gen_inv (cl_stream c k)" by (simp add: client_inv_def)
  from gen_process_sends [OF this] obtain n g where
    g: "gen_process (cl_stream c k) = Some (g, map (\<lambda>i. gen_packet (cl_stream c k) (g_packetsCount (cl_stream c k) + of_nat i)) [0 ..< n])"
      (is "_ = Some (g, ?sends)") "gen_inv g" "g_queueSizeLimit_B g = g_queueSizeLimit_B (cl_stream c k)"
    by auto
  let ?c = "c\<lparr>cl_stream := (cl_stream c)(k := g)\<rparr>"
  have "client_inv ?c" using Cons.prems(1) g(2,3) by (simp add: client_inv_def)
  from Cons.IH [OF this] Cons.prems(2) obtain c' calls where
    c': "process_streams ks ?c = Some (c', calls)" "client_inv c'" "cl_step c' = cl_step c"
      "\<And>j. numbered ?c j (sent_on j calls)" "\<And>j. j \<notin> set ks \<Longrightarrow> sent_on j calls = []"
    by auto
  have "numbered c j (sent_on j (map (\<lambda>data. Call_send data k (10 * 60 * 1000)) ?sends @ calls))" for j
    using c'(4) [of j] c'(5) [of k] Cons.prems(2) by (cases "j = k") (auto simp: numbered_def simp del: map_map)
  moreover have "j \<notin> set (k # ks) \<Longrightarrow> sent_on j (map (\<lambda>data. Call_send data k (10 * 60 * 1000)) ?sends @ calls) = []" for j
    using c'(5) by (auto simp del: map_map)
  ultimately show ?case using g(1) c'(1-3) by (auto simp del: map_map)
qed

lemma run_streams_returns:
  assumes "client_inv c" "distinct (map letter ls)" "letter CHR ''C'' \<notin> set (map letter ls)"
  shows "\<exists>c' calls. run_streams ls c = Some (c', calls) \<and> client_inv c'
    \<and> (\<forall>k. k \<noteq> letter CHR ''C'' \<longrightarrow> numbered c k (sent_on k calls))"
proof -
  obtain c1 calls where c1: "process_streams (map letter ls) c = Some (c1, calls)" "client_inv c1"
      "\<And>k. numbered c k (sent_on k calls)"
    using process_streams_returns [OF assms(1,2)] by auto
  obtain c2 more where c2: "nextStep c1 = (c2, more)" by fastforce
  from nextStep_keeps [OF c1(2) c2] c1 c2 show ?thesis
    by (auto simp: run_streams_def Let_def simp del: of_nat_of_char)
qed

lemma report_state_returns:
  assumes "client_inv c"
  shows "\<exists>c' calls. report_state c = Some (c', calls) \<and> client_inv c' \<and> cl_stream c' = cl_stream c \<and> cl_step c' = cl_step c
    \<and> (\<forall>k. sent_on k calls = [])"
proof -
  have "\<exists>p. gen_getProgress_prc (cl_stream c k) = Some p" for k
    using assms by (simp add: client_inv_def gen_inv_def gen_getProgress_prc_def Let_def)
  then obtain f where "\<And>k. gen_getProgress_prc (cl_stream c k) = Some (f k)" by metis
  then show ?thesis using assms by (simp add: report_state_def Let_def client_inv_frame) (simp add: sent_on_def)
qed

lemma client_step_returns:
  assumes "client_inv c"
  shows "\<exists>c' calls. client_step c = Some (c', calls) \<and> client_inv c'
    \<and> (\<forall>k. k \<noteq> letter CHR ''C'' \<longrightarrow> numbered c k (sent_on k calls))"
proof -
  have n: "client_inv d \<Longrightarrow> \<exists>c' calls. nextStep d = (c', calls) \<and> client_inv c'
      \<and> (\<forall>k. k \<noteq> letter CHR ''C'' \<longrightarrow> sent_on k calls = [])" for d
    using nextStep_keeps by (metis prod.collapse)
  then have r: "\<exists>c' calls. count_rounds c = (c', calls) \<and> client_inv c'
      \<and> (\<forall>k. k \<noteq> letter CHR ''C'' \<longrightarrow> sent_on k calls = [])"
    using assms by (simp add: count_rounds_def Let_def client_inv_frame)
  have "sent_on k [Call_disconnect] = []" for k by (simp add: sent_on_def)
  then show ?thesis
    using assms n [OF assms] r run_streams_returns [OF assms, of "''R''"] run_streams_returns [OF assms, of "''r''"]
      run_streams_returns [OF assms, of "''RHML''"]
    by (cases "cl_step c") (fastforce simp: client_step_def)+
qed

lemma client_round_returns:
  assumes "client_inv c"
  shows "\<exists>r c' calls. client_round c = Some (r, c', calls) \<and> client_inv c'
    \<and> (\<forall>k. k \<noteq> letter CHR ''C'' \<longrightarrow> numbered c k (sent_on k calls))"
proof (cases "cl_connected c")
  case True
  obtain d calls where d: "report_state c = Some (d, calls)" "client_inv d" "cl_stream d = cl_stream c" "\<And>k. sent_on k calls = []"
    using report_state_returns [OF assms] by auto
  obtain c' more where c': "client_step d = Some (c', more)" "client_inv c'"
      "\<And>k. k \<noteq> letter CHR ''C'' \<Longrightarrow> numbered d k (sent_on k more)"
    using client_step_returns [OF d(2)] by blast
  then show ?thesis using True d by (simp add: client_round_def numbered_def)
next
  case False
  then show ?thesis using assms by (intro exI [of _ False]) (simp add: client_round_def)
qed

text \<open>What can happen to the client: callbacks of the library and rounds of its loop. The callbacks of the worker
  thread are taken to fall between the rounds.\<close>

inductive client_reach :: "Client \<Rightarrow> bool" where
  begun: "client_reach Client_init"
| connected: "client_reach c \<Longrightarrow> client_reach (client_onConnected c)"
| disconnected: "client_reach c \<Longrightarrow> client_reach (client_onDisconnected c)"
| delivered: "client_reach c \<Longrightarrow> client_reach (client_onDelivered size_B k status c)"
| round: "client_reach c \<Longrightarrow> client_round c = Some (r, c', calls) \<Longrightarrow> client_reach c'"

lemma client_reach_inv: "client_reach c \<Longrightarrow> client_inv c"
proof (induction rule: client_reach.induct)
  case (round c r c' calls)
  then show ?case using client_round_returns [of c] by auto
qed (simp_all add: client_inv_init client_inv_callbacks)

text \<open>
  C11. The demo client never gets stuck in a round and never touches memory outside its buffers. In whatever
  order it connects, loses the connection, hears of deliveries and runs its loop, a round returns; and
  the packets that it hands to the library on a data stream carry consecutive numbers in their first
  four bytes, from the number that the stream has come to. The callbacks fall between the rounds.
\<close>

theorem demo_client_returns:
  assumes "client_reach c" "k \<in> set data_streams"
  shows "\<exists>r c' calls n. client_round c = Some (r, c', calls)
    \<and> sent_on k calls = map (\<lambda>i. write_u32 (g_packetsCount (cl_stream c k) + of_nat i) @ drop 4 (g_buffer (cl_stream c k))) [0 ..< n]"
proof -
  have "k \<noteq> letter CHR ''C''" using assms(2) by (auto simp: data_streams_def)
  with client_round_returns [OF client_reach_inv [OF assms(1)]] show ?thesis
    by (fastforce simp: numbered_def gen_packet_def)
qed

text \<open>The client in its second round, with the generators of four streams started.\<close>

theorem demo_client_returns_witness:
  "\<exists>c r c' calls n. client_round (client_onConnected Client_init) = Some (False, c, control False False
       @ Call_setTxStreamPriority 67 CHR ''R'' # map (\<lambda>ch. Call_setTxStreamPriority (letter ch) ch) ''RrHhMmLl'' @ control False False)
    \<and> cl_step c = SeveralReliable \<and> client_round c = Some (r, c', calls)
    \<and> sent_on 82 calls = map (\<lambda>i. write_u32 (of_nat i :: u32) @ replicate 4092 0) [0 ..< n]"
proof -
  let ?c = "client_onConnected Client_init"
  have ten: "\<not> (10 :: u32) \<le> 1" by (simp add: word_le_nat_alt)
  obtain c where c: "client_round ?c = Some (False, c, control False False
       @ Call_setTxStreamPriority 67 CHR ''R'' # map (\<lambda>ch. Call_setTxStreamPriority (letter ch) ch) ''RrHhMmLl'' @ control False False)"
      "cl_step c = SeveralReliable" "cl_stream c 82 = gen_start totalBytesToSend 4096 StreamGenerator_init"
    using ten by (simp add: client_round_def report_state_def client_step_def nextStep_def enter_step_def start_streams_def
        steps_to_run_def client_onConnected_def Client_init_def Let_def)
  have "client_reach ?c" by (intro client_reach.intros)
  from client_reach.round [OF this c(1)] have "client_reach c" .
  moreover have "82 \<in> set data_streams" by (simp add: data_streams_def)
  ultimately obtain r c' calls n where "client_round c = Some (r, c', calls)"
      "sent_on 82 calls = map (\<lambda>i. write_u32 (g_packetsCount (cl_stream c 82) + of_nat i) @ drop 4 (g_buffer (cl_stream c 82))) [0 ..< n]"
    using demo_client_returns by blast
  then show ?thesis using c by (auto simp: gen_start_def StreamGenerator_init_def vec_resize_def)
qed

text \<open>The client counts a packet out of its queue only when it is delivered. Once a stream has a full queue
  and its packets time out, it sends nothing more and the client stays in its step for ever.\<close>

lemma demo_client_stalls:
  assumes "client_inv c" "cl_step c = SeveralReliable" "k \<in> set (map letter ''RHML'')"
    and "\<not> gen_isFinished (cl_stream c k)" "g_queueSizeLimit_B (cl_stream c k) \<le> g_queueSize_B (cl_stream c k)"
  shows "status \<noteq> CHR ''s'' \<Longrightarrow> client_onDelivered size_B j status c = c"
    and "client_round c = Some (r, c', calls) \<Longrightarrow> \<not> r \<and> sent_on k calls = [] \<and> cl_step c' = SeveralReliable \<and> cl_stream c' k = cl_stream c k"
proof -
  show "status \<noteq> CHR ''s'' \<Longrightarrow> client_onDelivered size_B j status c = c" by (simp add: client_onDelivered_def)
  have full: "gen_process (cl_stream c k) = Some (cl_stream c k, [])"
    using assms(5) by (subst gen_process.simps) auto
  have ps: "process_streams ks d = Some (d', calls') \<Longrightarrow> cl_stream d k = cl_stream c k
      \<Longrightarrow> cl_stream d' k = cl_stream c k \<and> sent_on k calls' = [] \<and> cl_step d' = cl_step d" for ks d d' calls'
  proof (induction ks arbitrary: d d' calls')
    case (Cons j ks)
    then show ?case using full by (cases "j = k") (fastforce split: Option.bind_splits)+
  qed simp
  assume r: "client_round c = Some (r, c', calls)"
  obtain d x where d: "report_state c = Some (d, x)" "cl_stream d = cl_stream c" "cl_step d = cl_step c" "\<And>k. sent_on k x = []"
    using report_state_returns [OF assms(1)] by auto
  have run: "client_step d = Some (c', y) \<Longrightarrow> sent_on k y = [] \<and> cl_step c' = SeveralReliable \<and> cl_stream c' k = cl_stream c k" for y
    using d(2,3) assms(2-4) ps [of "map letter ''RHML''" d]
    by (fastforce simp: client_step_def run_streams_def simp del: process_streams.simps split: Option.bind_splits if_splits)
  show "\<not> r \<and> sent_on k calls = [] \<and> cl_step c' = SeveralReliable \<and> cl_stream c' k = cl_stream c k"
    using r d run assms(2) by (auto simp: client_round_def split: if_splits Option.bind_splits)
qed

subsection \<open>Client and server\<close>

lemma server_told:
  assumes "k \<in> set data_streams" "4 \<le> length (D i)" "length (D i) < 2 ^ 32" "take 4 (D i) = write_u32 (of_nat i :: u32)"
    and "i < 2 ^ 32" "0 < i \<Longrightarrow> prev k = of_nat (i - 1)"
  shows "server_run (told_s D k i # evs) prev = Option.bind (server_run evs (prev(k := of_nat i)))
    (\<lambda>(prev, more). Some (prev, (if i = 0 then [Started k] else []) @ more))"
proof -
  have k: "k \<noteq> letter CHR ''C''" using assms(1) by (auto simp: data_streams_def)
  have r: "read_u32 (D i) = Some (of_nat i :: u32, drop 4 (D i))"
    using codec_u32.dec_enc [of "of_nat i" "drop 4 (D i)"] append_take_drop_id [of 4 "D i"] assms(4) by simp
  have l: "\<not> (of_nat (length (D i)) :: u64) < 4"
    using assms(2,3) by (simp add: word_less_nat_alt unat_of_nat_small)
  have z: "(of_nat i :: u32) = 0 \<longleftrightarrow> i = 0"
    using arg_cong [of "of_nat i :: u32" 0 unat] unat_of_nat_u32 [OF assms(5)] by (cases "i = 0") auto
  have d: "i \<noteq> 0 \<Longrightarrow> of_nat i - prev k = 1" using assms(6) by (cases i) simp_all
  show ?thesis
    using k assms(1) r l d by (cases "i = 0") (simp_all add: told_s_def server_onReceived_def z)
qed

lemma server_told_all:
  assumes "k \<in> set data_streams" "m \<le> m'" "m' \<le> 2 ^ 32" "0 < m \<Longrightarrow> prev k = of_nat (m - 1)"
    and "\<And>i. i < m' \<Longrightarrow> 4 \<le> length (D i) \<and> length (D i) < 2 ^ 32 \<and> take 4 (D i) = write_u32 (of_nat i :: u32)"
  shows "server_run (map (told_s D k) [m ..< m']) prev
    = Some (if m < m' then prev(k := of_nat (m' - 1)) else prev, if m = 0 \<and> m < m' then [Started k] else [])"
  using assms(2,4)
proof (induction "m' - m" arbitrary: m prev)
  case (Suc d)
  then have m: "m < m'" by simp
  have "server_run (map (told_s D k) [Suc m ..< m']) (prev(k := of_nat m))
      = Some (if Suc m < m' then (prev(k := of_nat m))(k := of_nat (m' - 1)) else prev(k := of_nat m), [])"
    using Suc.hyps(1) [of "Suc m" "prev(k := of_nat m)"] Suc.hyps(2) m by simp
  moreover have "\<not> Suc m < m' \<Longrightarrow> m' - 1 = m" using m by simp
  ultimately show ?case
    using server_told [OF assms(1), where D = D and i = m and prev = prev and evs = "map (told_s D k) [Suc m ..< m']"] assms(3) assms(5) [of m] Suc.prems(2) m
    by (auto simp: upt_conv_Cons)
qed simp

text \<open>
  C10. Client and server of the demo together. A generator numbers its packets; they go as small packets over
  a network that loses, repeats and reorders datagrams within 50 milliseconds, up to 32766 packets ahead, with a
  packet marked as the front only when those before it have arrived. Then the server gets a prefix of them
  and prints that the stream has started and nothing else: neither a loss nor a time-out.
\<close>

theorem demo_no_false_alarm:
  assumes "gen_inv (gen_start tot ps g)" "4 \<le> ps" "gen_process (gen_start tot ps g) = Some (g', sends)"
    and "\<forall>i < length sends. D i = sends ! i" "\<forall>i. D i \<noteq> []" "k \<in> set data_streams"
    and "list_all2 (\<lambda>fjs d. small_datagram D k fjs (snd d) \<and> t0 \<le> fst d \<and> fst d < t0 + 50000) groups ds"
    and "idle_at k 0 (c_rxStreams c)" "c_onReceived c = Some f" "fronts_ok 0 {} (concat groups)"
    and "\<forall>j \<in> snd ` set (concat groups). j < length sends \<and> j < 32766"
  shows "\<exists>c' evs m. read_datagrams th ds c = Some (c', evs) \<and> {0 ..< m} \<subseteq> snd ` set (concat groups)
    \<and> m \<notin> snd ` set (concat groups)
    \<and> server_run evs prev = (if m = 0 then Some (prev, []) else Some (prev(k := of_nat (m - 1)), [Started k]))"
proof -
  obtain n where n: "sends = map (\<lambda>i. gen_packet (gen_start tot ps g) (of_nat i)) [0 ..< n]"
    using gen_process_sends [OF assms(1)] assms(3) by (auto simp: gen_start_def)
  have D: "4 \<le> length (D i) \<and> length (D i) < 2 ^ 32 \<and> take 4 (D i) = write_u32 (of_nat i :: u32)" if "i < length sends" for i
  proof -
    have "D i = gen_packet (gen_start tot ps g) (of_nat i)" using assms(4) that n by simp
    then show ?thesis using assms(2) unsigned_less [of ps]
      by (simp add: gen_packet_def gen_start_def word_le_nat_alt)
  qed
  have js: "\<forall>j \<in> snd ` set (concat groups). 0 \<le> j \<and> j < 0 + 32766" "(0 :: nat) + 32766 < 2 ^ 32" using assms(11) by auto
  obtain c' m where m: "read_datagrams th ds c = Some (c', map (told_s D k) [0 ..< m])"
      "{0 ..< m} \<subseteq> snd ` set (concat groups)" "m \<notin> snd ` set (concat groups)"
    using read_datagrams_in_order [OF assms(7-10) js assms(5), of th] by (elim exE conjE) (rule that)
  have "i < length sends \<and> i < 32766" if "i < m" for i
    using assms(11) [rule_format, OF subsetD [OF m(2), of i]] that by simp
  then have "m \<le> length sends" "m \<le> 32766" by (meson not_le less_irrefl)+
  then have "server_run (map (told_s D k) [0 ..< m]) prev
      = Some (if 0 < m then prev(k := of_nat (m - 1)) else prev, if 0 = (0 :: nat) \<and> 0 < m then [Started k] else [])"
    using D by (intro server_told_all [OF assms(6)]) auto
  then show ?thesis using m by (intro exI [of _ c'] exI [of _ "map (told_s D k) [0 ..< m]"] exI [of _ m]) simp
qed

text \<open>A generator of three packets of four bytes on the stream \<open>R\<close>; they arrive as 2, then 0 and 2 once more,
  then 1.\<close>

definition example_numbered :: "nat \<Rightarrow> bytes" where
  "example_numbered j = the (small_packet_bytes (example_stream\<lparr>ts_id := 82, ts_packetFifoIdx := 1\<rparr>)
     (example_packet\<lparr>tp_id := of_nat j, tp_pointer := write_u32 (of_nat j :: u32), tp_size_B := 4\<rparr>))"

lemma example_numbered_ok: "small_chunk_of (\<lambda>i. write_u32 (of_nat i :: u32)) 82 (False, j) (example_numbered j)"
  "length (example_numbered j) = 11"
proof -
  let ?s = "example_stream\<lparr>ts_id := 82, ts_packetFifoIdx := 1\<rparr>"
  let ?p = "example_packet\<lparr>tp_id := of_nat j, tp_pointer := write_u32 (of_nat j :: u32), tp_size_B := 4\<rparr>"
  have b: "small_packet_bytes ?s ?p = Some (example_numbered j)"
    by (simp add: example_numbered_def small_packet_bytes_def write_data_def mem_read_def Let_def)
  then show "small_chunk_of (\<lambda>i. write_u32 (of_nat i :: u32)) 82 (False, j) (example_numbered j)"
    unfolding small_chunk_of_def by (intro exI [of _ ?s] exI [of _ ?p]) (simp add: tx_packet_ok_def)
  show "length (example_numbered j) = 11"
    using small_packet_length [OF b] by (simp add: getNumberOfBits_def masked_def code_bits_def)
qed

lemma example_numbered_datagram:
  "small_datagram (\<lambda>i. write_u32 (of_nat i :: u32)) 82 [(False, i)] (replicate sizeof_PacketHeader 0 @ example_numbered i)"
  "small_datagram (\<lambda>i. write_u32 (of_nat i :: u32)) 82 [(False, i), (False, j)]
     (replicate sizeof_PacketHeader 0 @ example_numbered i @ example_numbered j)"
  using example_numbered_ok [of i] example_numbered_ok [of j]
  by (auto simp: small_datagram_def intro: exI [of _ "[example_numbered i]"] exI [of _ "[example_numbered i, example_numbered j]"])

lemma example_generator:
  "\<exists>g'. gen_process (gen_start 12 4 StreamGenerator_init) = Some (g', map (\<lambda>i. write_u32 (of_nat i :: u32)) [0 ..< 3])"
  by (simp add: gen_process.simps gen_isFinished_def gen_number_def gen_start_def StreamGenerator_init_def vec_resize_def
      overwrite_def upt_rec)

theorem demo_no_false_alarm_witness:
  "\<exists>c' evs. read_datagrams 0x100000 [(1000, replicate sizeof_PacketHeader 0 @ example_numbered 2),
       (2000, replicate sizeof_PacketHeader 0 @ example_numbered 0 @ example_numbered 2),
       (40000, replicate sizeof_PacketHeader 0 @ example_numbered 1)] example_receiver = Some (c', evs)
     \<and> server_run evs Server_init = Some (Server_init(82 := 2), [Started 82])"
proof -
  let ?D = "\<lambda>i. write_u32 (of_nat i :: u32)"
  let ?g = "[[(False, 2)], [(False, 0), (False, 2)], [(False, 1)]] :: (bool \<times> nat) list list"
  let ?ds = "[(1000, replicate sizeof_PacketHeader 0 @ example_numbered 2),
     (2000, replicate sizeof_PacketHeader 0 @ example_numbered 0 @ example_numbered 2),
     (40000, replicate sizeof_PacketHeader 0 @ example_numbered 1)] :: (tick \<times> bytes) list"
  obtain g' where g: "gen_process (gen_start 12 4 StreamGenerator_init) = Some (g', map ?D [0 ..< 3])"
    using example_generator by blast
  have i: "gen_inv (gen_start 12 4 StreamGenerator_init)" "(4 :: u32) \<le> 4"
    by (intro gen_inv_start) (simp_all add: StreamGenerator_init_def)
  have ne: "write_u32 v \<noteq> []" for v :: u32 using codec_u32.length_enc [of v] by force
  have D: "\<forall>i < length (map ?D [0 ..< 3]). ?D i = map ?D [0 ..< 3] ! i" "\<forall>i. ?D i \<noteq> []" "82 \<in> set data_streams"
    using ne by (simp_all add: data_streams_def)
  have ds: "list_all2 (\<lambda>fjs d. small_datagram ?D 82 fjs (snd d) \<and> 1000 \<le> fst d \<and> fst d < 1000 + 50000) ?g ?ds"
    using example_numbered_datagram by simp
  have idle: "idle_at 82 0 (c_rxStreams example_receiver)" "c_onReceived example_receiver = Some (\<lambda>_ _ _ _ _ _. 0)"
    by (simp_all add: idle_at_def example_receiver_eq partialReset_Connection_init RxStreams_init_def rx_stream_at_def)
  have js: "fronts_ok 0 {} (concat ?g)" "\<forall>j \<in> snd ` set (concat ?g). j < length (map ?D [0 ..< 3]) \<and> j < 32766"
    by simp_all
  have all: "snd ` set (concat ?g) = {0, 1, 2}" by auto
  obtain c' evs m where m: "read_datagrams 0x100000 ?ds example_receiver = Some (c', evs) \<and> {0 ..< m} \<subseteq> snd ` set (concat ?g)
      \<and> m \<notin> snd ` set (concat ?g) \<and> server_run evs Server_init
        = (if m = 0 then Some (Server_init, []) else Some (Server_init(82 := of_nat (m - 1)), [Started 82]))"
    using demo_no_false_alarm [OF i g D ds idle js, of "0x100000" Server_init] by (elim exE) (rule that)
  note m' = conjunct1 [OF m] conjunct2 [OF m]
  have "m = 3" using first_missing_3 [OF m'(2) [THEN conjunct1, unfolded all] m'(2) [THEN conjunct2, THEN conjunct1, unfolded all]] .
  then show ?thesis using m'(1) m'(2) [THEN conjunct2, THEN conjunct2] by (intro exI [of _ c'] exI [of _ evs] conjI) simp_all
qed

end
