(* ===== verification/Udsp_Evaluate.thy ===== *)
theory Udsp_Evaluate
  imports Udsp_Datagram
begin

text \<open>
  Running the model inside the logic: the collection \<open>run_simps\<close> turns the simplifier into an interpreter
  of the stream layer, from queued commands to chunks written and read. It holds the definitions of the
  model and equations for the recursions on numerals. The congruence rules \<open>run_congs\<close> make it evaluate
  the argument of a \<open>let\<close>, of a bind or of \<open>map_option\<close> before the body, as the code does. A function of
  the priority is kept as the table of its values.
\<close>

subsection \<open>Functions of the priority\<close>

primrec table :: "'a \<times> 'a \<times> 'a \<times> 'a \<times> 'a \<Rightarrow> Priority \<Rightarrow> 'a" where
  "table x Realtime = fst x"
| "table x High = fst (snd x)"
| "table x Medium = fst (snd (snd x))"
| "table x Low = fst (snd (snd (snd x)))"
| "table x NoPriority = snd (snd (snd (snd x)))"

definition tabulate :: "(Priority \<Rightarrow> 'a) \<Rightarrow> Priority \<Rightarrow> 'a" where
  "tabulate f = table (f Realtime, f High, f Medium, f Low, f NoPriority)"

lemma tabulate_id: "tabulate f = f"
proof
  show "tabulate f p = f p" for p by (cases p) (simp_all add: tabulate_def)
qed

definition meta_scanned :: "TxStreams \<Rightarrow> Priority \<Rightarrow> PriorityMeta" where
  "meta_scanned t p = (txs_vec t p)\<lparr>pm_vec := map fst (filter (\<lambda>(k, s). ts_priority s = p) (txs_map t))\<rparr>"

definition meta_updated :: "TxStreams \<Rightarrow> Priority \<Rightarrow> PriorityMeta \<Rightarrow> Priority \<Rightarrow> PriorityMeta" where
  "meta_updated t p m q = (if q = p then m else txs_vec t q)"

definition meta_cleared :: "TxStreams \<Rightarrow> Priority \<Rightarrow> PriorityMeta" where
  "meta_cleared t p = (txs_vec t p)\<lparr>pm_countSent_B := 0\<rparr>"

lemma update_streams_run:
  "update_streams t = (if \<not> txs_isStreamsChanged t then t
     else t\<lparr>txs_vec := tabulate (meta_scanned t), txs_isStreamsChanged := False\<rparr>)"
  by (simp add: tabulate_id update_streams_def meta_scanned_def [abs_def])

lemma next_vecIdx_run:
  "next_vecIdx p t = (let meta = txs_vec t p; i = Suc (pm_vecIdx meta) in
      t\<lparr>txs_vec := tabulate (meta_updated t p (meta\<lparr>pm_vecIdx := (if length (pm_vec meta) \<le> i then 0 else i)\<rparr>))\<rparr>)"
  by (simp add: tabulate_id next_vecIdx_def meta_updated_def [abs_def] fun_upd_def Let_def)

lemma add_sent_run:
  "add_sent p n t = t\<lparr>txs_vec := tabulate (meta_updated t p
     ((txs_vec t p)\<lparr>pm_countSent_B := pm_countSent_B (txs_vec t p) + of_nat n\<rparr>))\<rparr>"
  by (simp add: tabulate_id add_sent_def meta_updated_def [abs_def] fun_upd_def)

lemma conn_onDisconnected_run:
  "conn_onDisconnected c =
     (c\<lparr>c_commands := [], c_connectionId := 0,
        c_txStreams := (c_txStreams c)\<lparr>txs_map := [], txs_isStreamsChanged := True,
          txs_vec := tabulate (meta_cleared (c_txStreams c))\<rparr>,
        c_rxStreams := (c_rxStreams c)\<lparr>rxs_acks := [], rxs_map := [], rxs_isStreamsChanged := True\<rparr>\<rparr>,
      (if c_onDelivered c then disconnect_tx (txs_map (c_txStreams c)) else [])
      @ (if c_onReceived c \<noteq> None then disconnect_rx (rxs_map (c_rxStreams c)) else []))"
  by (simp add: tabulate_id conn_onDisconnected_def meta_cleared_def [abs_def])

lemmas run_tables = tabulate_def meta_scanned_def meta_updated_def meta_cleared_def
  update_streams_run next_vecIdx_run add_sent_run conn_onDisconnected_run

subsection \<open>Commands, numerals and bytes\<close>

lemma run_command_run:
  "run_command (Cmd_setTxStreamPriority k newPriority priority) c =
     c\<lparr>c_txStreams := run_setTxStreamPriority k newPriority priority (c_txStreams c)\<rparr>"
  "run_command (Cmd_send ctx data size_B copy k timeout_ms now_us) c =
     c\<lparr>c_txStreams := run_send ctx data size_B copy k timeout_ms now_us (c_txStreams c)\<rparr>"
  by (simp_all add: run_command_def)

lemma txPacketsCount_run: "n_txPacketsCount Counters_init = 0"
  by (simp add: Counters_init_def)

lemma le_encode_numeral: "le_encode (numeral k) v = of_nat v # le_encode (pred_numeral k) (v div 256)"
  by (metis le_encode.simps(2) numeral_eq_Suc)

lemma le_decode_zeros: "le_decode (replicate n 0) = 0"
  by (induction n) auto

lemma take_next: "take n xs @ take m (drop n xs) = take (n + m) xs"
  by (simp add: take_add)

lemma upt_four: "[0 ..< 4] = [0, 1, 2, 3 :: nat]" "[Suc 0 ..< 4] = [1, 2, 3 :: nat]"
  by (simp_all add: upt_rec)

lemma word_le_one: "(x :: 'a::len word) \<le> 1 \<longleftrightarrow> x = 0 \<or> x = 1"
  using word_less_1 [of x] by (auto simp: le_less)

lemmas loop_numerals =
  scan_tx_fifo.simps(2) [where n = "pred_numeral m" for m, folded numeral_eq_Suc]
  scan_priority.simps(2) [where n = "pred_numeral m" for m, folded numeral_eq_Suc]
  scan_rx_streams.simps(2) [where n = "pred_numeral m" for m, folded numeral_eq_Suc]
  scan_repeat.simps(2) [where n = "pred_numeral m" for m, folded numeral_eq_Suc]
  cycle_priorities.simps(2) [where n = "pred_numeral m" for m, folded numeral_eq_Suc]

subsection \<open>The collections\<close>

lemma bind_case: "Option.bind x f = (case x of None \<Rightarrow> None | Some y \<Rightarrow> f y)"
  by (simp split: option.split)

lemma Let_weak: "x = y \<Longrightarrow> Let x f = Let y f"
  by simp

lemma bind_weak: "x = y \<Longrightarrow> Option.bind x f = Option.bind y f"
  by simp

lemma map_option_weak: "x = y \<Longrightarrow> map_option f x = map_option f y"
  by simp

lemmas run_congs = Let_weak bind_weak map_option_weak

lemmas run_defs =
  take_bytes_def mem_read_def vec_resize_def overwrite_def write_u8_def write_u16_def write_u32_def
  write_data_def read_u8_def read_u16_def read_u32_def read_u64_def type_code_def code_type_def
  bits_code_def code_bits_def masked_def getNumberOfBits_def getNumberOfBytes_def set_bits_def get_bits_def
  flag_def chunkType_def mk_smallPacket_def sp_isAcknowledge_def sp_isReliable_def sp_isFront_def
  sp_packetSizeBits_def mk_beginOfPacket_def bp_isReliable_def bp_isFront_def bp_packetSizeBits_def
  mk_pieceOfPacket_def pp_isReliable_def pp_isFront_def pp_offsetBits_def pp_pieceSizeBits_def
  mk_repeatInfo_def ri_repeatOffsetBits_def ri_repeatSizeBits_def write_by_bits_def read_by_bits_def
  notify_received_def RxPacket_init_def needToSendRepeatInfo_def RxStream_init_def advance_front_def
  updateFrontPacketId_def isReceivedBefore_def new_packet_def push_packet_def emplace_def get_packet_def
  rx_next_def pop_front_rx_def rx_verdict_def rx_report_def rx_remove_def TxPacket_init_def
  TxStream_init_def PriorityMeta_init_def TxStreams_init_def at_index_def findPacketIdx_def
  notify_delivered_def pop_front_tx_def tx_stream_at_def put_tx_stream_def open_tx_stream_def
  priority_of_char_def run_setTxStreamPriority_def run_send_def RxStreams_init_def rx_streams_next_def
  rx_stream_at_def put_rx_stream_def Connection_init_def setTxStreamPriority_ts_def send_ts_def
  disconnect_tx_def disconnect_rx_def chunk_header_def repeat_chunk_def meta_chunk_def writeMetaChunk_def
  rtt2_def skip_packet_def share_def choose_priority_def set_packet_def small_packet_bytes_def
  sent_small_def write_small_def write_begin_def sent_piece_def write_piece_def write_selected_def
  data_chunk_def writeDataChunk_def writeChunk_def with_tx_packet_def read_acknowledge_def
  read_repeatInfo_def open_rx_stream_def push_ack_def set_rx_packet_def rtt200_def rx_chunk_def
  use_small_def use_begin_def piece_taken_def use_piece_def on_tx_def on_rx_def read_smallPacket_def
  read_beginOfPacket_def read_pieceOfPacket_def read_repeatInfo_chunk_def readChunk_def nextDatagram_def
  set_txPacketsCount_def

lemmas run_simps = run_defs run_tables run_command_run txPacketsCount_run loop_numerals bind_case Let_def
  emplace_up.simps processRxFifo.simps find_loop.simps processTxFifo.simps doCommands.simps
  le_encode_numeral le_decode_zeros take_next upt_four word_le_one mask_eq_exp_minus_1

end
