(* ===== verification/Udsp_Stream_Tests.thy ===== *)
theory Udsp_Stream_Tests
  imports Udsp_Evaluate
begin

text \<open>
  The unit tests of the streams, \<open>Impl::testStreams\<close> in \<open>StreamTests.cpp\<close>, as programs over the model: the
  search for identifiers, the receive queue of one stream, and two connections that exchange chunks
  through their buffers, with lost, repeated and expired packets. The tests are run in the logic: every
  assertion of \<open>testStreams\<close> holds of the model. The loop without assertions that closes the function, from line
  759 on, is left out.
\<close>

subsection \<open>Assertions\<close>

text \<open>A test is a partial function: an assertion that fails, or undefined behaviour, is \<open>None\<close>.\<close>

definition ascii :: "char \<Rightarrow> u8" where
  "ascii c = of_char c"

definition require :: "bool \<Rightarrow> unit option" where
  "require P = (if P then Some () else None)"

subsection \<open>The search and the receive queue\<close>

text \<open>The first three blocks of \<open>testStreams\<close>.\<close>

definition test_findPacketIdx :: "unit option" where
  "test_findPacketIdx = do {
     require (findPacketIdx [] 5 = NotFound);
     require (findPacketIdx [0, 1, 2, 3, 4] 5 = NotFound);
     require (findPacketIdx [0, 1, 2, 3, 4] 0 = Found 0);
     require (findPacketIdx [0, 1, 2, 3, 4] 4 = Found 4);
     let fifo = [UINT32_MAX - 1, UINT32_MAX, 0, 1, 2];
     require (findPacketIdx fifo (UINT32_MAX - 2) = NotFound);
     require (findPacketIdx fifo (UINT32_MAX - 1) = Found 0);
     require (findPacketIdx fifo UINT32_MAX = Found 1);
     require (findPacketIdx fifo 0 = Found 2);
     require (findPacketIdx fifo 1 = Found 3);
     require (findPacketIdx fifo 2 = Found 4);
     require (findPacketIdx fifo 3 = NotFound)
   }"

definition get_id :: "tick \<Rightarrow> u32 \<Rightarrow> RxStream \<Rightarrow> RxStream option" where
  "get_id now_us packetId s = (let (i, s) = get_packet now_us packetId s in do {
     require (rp_id (rs_fifo s ! i) = packetId);
     Some s
   })"

definition get_received :: "tick \<Rightarrow> u32 \<Rightarrow> RxStream \<Rightarrow> RxStream option" where
  "get_received now_us packetId s = (let (i, s) = get_packet now_us packetId s in do {
     require (rp_id (rs_fifo s ! i) = packetId);
     Some (set_rx_packet i ((rs_fifo s ! i)\<lparr>rp_isReceived := True\<rparr>) s)
   })"

definition test_rx_order :: "RxStream option" where
  "test_rx_order = do {
     let s = updateFrontPacketId True 0 RxStream_init;
     require (rs_frontPacketId s = 0);
     require (isReceivedBefore UINT32_MAX s);
     require (\<not> isReceivedBefore 0 s);
     require (\<not> isReceivedBefore 1 s);
     s \<leftarrow> get_id 0 0 s;
     let s = updateFrontPacketId False 1 s;
     require (rs_frontPacketId s = 0);
     require (isReceivedBefore UINT32_MAX s);
     require (\<not> isReceivedBefore 0 s);
     require (\<not> isReceivedBefore 1 s);
     s \<leftarrow> get_id 0 1 s;
     require (map rp_id (rs_fifo s) = [0, 1]);
     let s = updateFrontPacketId False 3 s;
     require (\<not> isReceivedBefore 3 s);
     s \<leftarrow> get_id 0 3 s;
     require (map rp_id (rs_fifo s) = [0, 1, 2, 3]);
     let s = updateFrontPacketId False 2 s;
     require (\<not> isReceivedBefore 2 s);
     s \<leftarrow> get_id 0 2 s;
     require (map rp_id (rs_fifo s) = [0, 1, 2, 3]);
     Some s
   }"

definition test_rx_timeouts :: "RxStream option" where
  "test_rx_timeouts = do {
     let s = RxStream_init\<lparr>rs_isReliable := True\<rparr>;
     let s = updateFrontPacketId False 1 s;
     require (rs_frontPacketId s = 0);
     require (isReceivedBefore UINT32_MAX s);
     require (\<not> isReceivedBefore 0 s);
     require (\<not> isReceivedBefore 1 s);
     s \<leftarrow> get_received 0 1 s;
     require (map rp_id (rs_fifo s) = [0, 1]);
     let s = fst (processRxFifo None 0 s);
     require (map rp_id (rs_fifo s) = [0, 1]);
     let s = updateFrontPacketId False 3 s;
     require (rs_frontPacketId s = 0);
     require (\<not> isReceivedBefore 3 s);
     s \<leftarrow> get_received 0 3 s;
     require (map rp_id (rs_fifo s) = [0, 1, 2, 3]);
     let s = fst (processRxFifo None 0 s);
     require (rs_frontPacketId s = 0);
     require (length (rs_fifo s) = 4);
     let s = updateFrontPacketId True 1 s;
     require (rs_frontPacketId s = 1);
     require (isReceivedBefore UINT32_MAX s);
     require (isReceivedBefore 0 s);
     require (\<not> isReceivedBefore 1 s);
     s \<leftarrow> get_id 0 1 s;
     require (length (rs_fifo s) = 4);
     require (rp_id (rs_fifo s ! 1) = 1);
     let s = fst (processRxFifo None 0 s);
     require (rs_frontPacketId s = 2);
     require (map rp_id (rs_fifo s) = [2, 3]);
     let s = updateFrontPacketId False 3 s;
     require (rs_frontPacketId s = 2);
     require (isReceivedBefore 1 s);
     require (\<not> isReceivedBefore 2 s);
     require (\<not> isReceivedBefore 3 s);
     s \<leftarrow> get_id 0 3 s;
     require (map rp_id (rs_fifo s) = [2, 3]);
     let s = fst (processRxFifo None 0 s);
     require (rs_frontPacketId s = 2);
     require (map rp_id (rs_fifo s) = [2, 3]);
     let s = updateFrontPacketId True 3 s;
     require (rs_frontPacketId s = 3);
     require (isReceivedBefore 2 s);
     require (\<not> isReceivedBefore 3 s);
     s \<leftarrow> get_id 0 3 s;
     let s = fst (processRxFifo None 0 s);
     require (rs_frontPacketId s = 4);
     require (rs_fifo s = []);
     Some s
   }"

subsection \<open>Two connections\<close>

text \<open>The variables of the second part. A callback reads and changes \<open>count\<close> and \<open>result\<close>; an assertion
  in it that fails is \<open>None\<close>.\<close>

type_synonym callback = "event \<Rightarrow> u32 \<times> u8 \<Rightarrow> (u32 \<times> u8) option"

record Test =
  e_a :: Connection
  e_b :: Connection
  e_now_us :: tick
  e_threshold_B :: u32
  e_offset_B :: nat
  e_written_B :: nat
  e_readed_B :: nat
  e_result :: u8
  e_count :: u32
  e_onDelivered :: callback
  e_onReceived :: callback

definition Test_init :: Test where
  "Test_init = (let c = Connection_init\<lparr>c_traffic := Traffic_init\<lparr>t_RTT_us := 2000\<rparr>, c_txBuffer := replicate 128 0\<rparr> in
     \<lparr>e_a = c, e_b = c, e_now_us = 1000000, e_threshold_B = 0x100000, e_offset_B = 0, e_written_B = 0,
      e_readed_B = 0, e_result = 0, e_count = 0, e_onDelivered = (\<lambda>_. Some), e_onReceived = (\<lambda>_. Some)\<rparr>)"

type_synonym test = "Test \<Rightarrow> Test option"

primrec steps :: "test list \<Rightarrow> test" where
  "steps [] s = Some s"
| "steps (f # fs) s = do { s \<leftarrow> f s; steps fs s }"

primrec repeat_test :: "nat \<Rightarrow> test \<Rightarrow> test" where
  "repeat_test 0 f s = Some s"
| "repeat_test (Suc n) f s = do { s \<leftarrow> f s; repeat_test n f s }"

definition check :: "(Test \<Rightarrow> bool) \<Rightarrow> test" where
  "check P s = (if P s then Some s else None)"

definition set_count :: "u32 \<Rightarrow> test" where "set_count n s = Some (s\<lparr>e_count := n\<rparr>)"
definition set_result :: "u8 \<Rightarrow> test" where "set_result r s = Some (s\<lparr>e_result := r\<rparr>)"
definition set_threshold :: "u32 \<Rightarrow> test" where "set_threshold n s = Some (s\<lparr>e_threshold_B := n\<rparr>)"
definition from_start :: test where "from_start s = Some (s\<lparr>e_offset_B := 0\<rparr>)"
definition wait_us :: "tick \<Rightarrow> test" where "wait_us t s = Some (s\<lparr>e_now_us := e_now_us s + t\<rparr>)"

definition count_is :: "u32 \<Rightarrow> test" where "count_is n = check (\<lambda>s. e_count s = n)"
definition result_is :: "u8 \<Rightarrow> test" where "result_is r = check (\<lambda>s. e_result s = r)"

text \<open>The callbacks of one operation, in order.\<close>

primrec call_back :: "event list \<Rightarrow> test" where
  "call_back [] s = Some s"
| "call_back (e # evs) s = do {
     (count, result) \<leftarrow> (case e of
         Delivered _ _ _ _ _ \<Rightarrow> e_onDelivered s e (e_count s, e_result s)
       | Received _ _ _ _ _ _ \<Rightarrow> e_onReceived s e (e_count s, e_result s));
     call_back evs (s\<lparr>e_count := count, e_result := result\<rparr>)
   }"

definition write_into :: "tick \<Rightarrow> nat \<Rightarrow> Connection \<Rightarrow> (nat \<times> Connection \<times> event list) option" where
  "write_into now_us offset_B c = do {
     require (offset_B \<le> length (c_txBuffer c));
     (w, bs, c, evs) \<leftarrow> writeChunk now_us (of_nat (length (c_txBuffer c) - offset_B)) c;
     Some (w, c\<lparr>c_txBuffer := overwrite offset_B bs (c_txBuffer c)\<rparr>, evs)
   }"

definition a_writeChunk :: test where
  "a_writeChunk s = do {
     (w, c, evs) \<leftarrow> write_into (e_now_us s) (e_offset_B s) (e_a s);
     call_back evs (s\<lparr>e_a := c, e_written_B := w\<rparr>)
   }"

definition b_writeChunk :: test where
  "b_writeChunk s = do {
     (w, c, evs) \<leftarrow> write_into (e_now_us s) (e_offset_B s) (e_b s);
     call_back evs (s\<lparr>e_b := c, e_written_B := w\<rparr>)
   }"

definition read_from :: "tick \<Rightarrow> u32 \<Rightarrow> bytes \<Rightarrow> nat \<Rightarrow> Connection \<Rightarrow> (nat \<times> Connection \<times> event list) option" where
  "read_from now_us threshold_B buf offset_B c = do {
     require (offset_B \<le> length buf);
     readChunk now_us threshold_B (drop offset_B buf) (of_nat (length buf - offset_B)) c
   }"

definition a_readChunk :: test where
  "a_readChunk s = do {
     (n, c, evs) \<leftarrow> read_from (e_now_us s) (e_threshold_B s) (c_txBuffer (e_b s)) (e_offset_B s) (e_a s);
     call_back evs (s\<lparr>e_a := c, e_readed_B := n\<rparr>)
   }"

definition b_readChunk :: test where
  "b_readChunk s = do {
     (n, c, evs) \<leftarrow> read_from (e_now_us s) (e_threshold_B s) (c_txBuffer (e_a s)) (e_offset_B s) (e_b s);
     call_back evs (s\<lparr>e_b := c, e_readed_B := n\<rparr>)
   }"

definition b_reads_empty :: test where
  "b_reads_empty s = do {
     (n, c, evs) \<leftarrow> readChunk (e_now_us s) (e_threshold_B s) (c_txBuffer (e_a s)) 0 (e_b s);
     call_back evs (s\<lparr>e_b := c, e_readed_B := n\<rparr>)
   }"

text \<open>The assertions that follow these calls, and the step to the next chunk.\<close>

definition wrote_some :: test where "wrote_some = check (\<lambda>s. e_written_B s \<noteq> 0)"
definition wrote_nothing :: test where "wrote_nothing = check (\<lambda>s. e_written_B s = 0)"
definition readed :: test where "readed = check (\<lambda>s. e_readed_B s \<noteq> 0)"
definition readed_nothing :: test where "readed_nothing = check (\<lambda>s. e_readed_B s = 0)"
definition after_written :: test where "after_written s = Some (s\<lparr>e_offset_B := e_offset_B s + e_written_B s\<rparr>)"
definition after_readed :: test where "after_readed s = Some (s\<lparr>e_offset_B := e_offset_B s + e_readed_B s\<rparr>)"

definition a_nextDatagram :: test where "a_nextDatagram s = Some (s\<lparr>e_a := nextDatagram (e_a s)\<rparr>)"
definition b_nextDatagram :: test where "b_nextDatagram s = Some (s\<lparr>e_b := nextDatagram (e_b s)\<rparr>)"

definition zero_txBuffer :: "Connection \<Rightarrow> Connection" where
  "zero_txBuffer c = c\<lparr>c_txBuffer := replicate (length (c_txBuffer c)) 0\<rparr>"

definition a_fill :: test where "a_fill s = Some (s\<lparr>e_a := zero_txBuffer (e_a s)\<rparr>)"
definition b_fill :: test where "b_fill s = Some (s\<lparr>e_b := zero_txBuffer (e_b s)\<rparr>)"

definition a_send :: "bytes \<Rightarrow> bool \<Rightarrow> u8 \<Rightarrow> u32 \<Rightarrow> test" where
  "a_send data copy streamId timeout_ms s = do {
     c \<leftarrow> snd (send_ts 0 (Some data) (of_nat (length data)) copy streamId timeout_ms (e_now_us s) (Some (e_a s)));
     Some (s\<lparr>e_a := c\<rparr>)
   }"

definition a_setPriority :: "u8 \<Rightarrow> char \<Rightarrow> test" where
  "a_setPriority txStreamId priority s = Some (s\<lparr>e_a := setTxStreamPriority_ts txStreamId priority (e_a s)\<rparr>)"

definition a_doCommands :: test where "a_doCommands s = Some (s\<lparr>e_a := doCommands (e_a s)\<rparr>)"

definition a_onDelivered :: "callback \<Rightarrow> test" where
  "a_onDelivered f s = Some (s\<lparr>e_a := (e_a s)\<lparr>c_onDelivered := True\<rparr>, e_onDelivered := f\<rparr>)"

definition b_onReceived :: "callback \<Rightarrow> test" where
  "b_onReceived f s = Some (s\<lparr>e_b := (e_b s)\<lparr>c_onReceived := Some (\<lambda>_ _ _ _ _ _. 0)\<rparr>, e_onReceived := f\<rparr>)"

definition a_onDelivered_null :: test where
  "a_onDelivered_null s = Some (s\<lparr>e_a := (e_a s)\<lparr>c_onDelivered := False\<rparr>\<rparr>)"

definition b_onReceived_null :: test where
  "b_onReceived_null s = Some (s\<lparr>e_b := (e_b s)\<lparr>c_onReceived := None\<rparr>\<rparr>)"

definition a_onDisconnected :: test where
  "a_onDisconnected s = (let (c, evs) = conn_onDisconnected (e_a s) in call_back evs (s\<lparr>e_a := c\<rparr>))"

definition b_onDisconnected :: test where
  "b_onDisconnected s = (let (c, evs) = conn_onDisconnected (e_b s) in call_back evs (s\<lparr>e_b := c\<rparr>))"

subsection \<open>The callbacks\<close>

definition starts_with :: "u8 \<Rightarrow> bytes option \<Rightarrow> bool" where
  "starts_with x data = (case data of Some (y # _) \<Rightarrow> x = y | _ \<Rightarrow> False)"

definition delivered_A :: "char \<Rightarrow> callback" where
  "delivered_A expected e v = (case (e, v) of
     (Delivered ctx data size_B streamId status, count, result) \<Rightarrow> do {
       require (size_B = 1);
       require (starts_with (ascii CHR ''A'') (Some data));
       require (streamId = 3);
       require (status = expected);
       Some (count + 1, result)
     }
   | _ \<Rightarrow> None)"

definition received_A :: callback where
  "received_A e v = (case (e, v) of
     (Received ctx data size_B offset_B streamId status, count, result) \<Rightarrow> do {
       require (if count = 0 then status = CHR ''t''
         else if count = 1 then status = CHR ''s'' \<and> size_B = 1 \<and> offset_B = 0 \<and> starts_with (ascii CHR ''A'') data
         else True);
       Some (count + 1, result)
     }
   | _ \<Rightarrow> None)"

definition received_13 :: callback where
  "received_13 e v = (case (e, v) of
     (Received ctx data size_B offset_B streamId status, count, result) \<Rightarrow> do {
       require (if count = 0 then status = CHR ''s'' \<and> starts_with (ascii CHR ''1'') data
         else if count = 1 then status = CHR ''t''
         else if count = 2 then status = CHR ''s'' \<and> starts_with (ascii CHR ''3'') data
         else False);
       Some (count + 1, result)
     }
   | _ \<Rightarrow> None)"

definition received_digit :: callback where
  "received_digit e v = (case (e, v) of
     (Received ctx (Some (x # _)) size_B offset_B streamId status, count, result) \<Rightarrow> do {
       require (status = CHR ''s'');
       require (size_B = 1);
       require (offset_B = 0);
       Some (count + ucast x, x)
     }
   | _ \<Rightarrow> None)"

definition delivered_digit :: callback where
  "delivered_digit e v = (case (e, v) of
     (Delivered ctx (x # _) size_B streamId status, count, result) \<Rightarrow> do {
       require (status = CHR ''s'');
       require (size_B = 1);
       Some (count + ucast x, result)
     }
   | _ \<Rightarrow> None)"

definition v256 :: bytes where
  "v256 = map of_nat [0 ..< 256]"

definition received_v256 :: callback where
  "received_v256 e v = (case (e, v) of
     (Received ctx (Some data) size_B offset_B streamId status, count, result) \<Rightarrow> do {
       require (status = CHR ''s'');
       require (unat size_B = length v256);
       require (offset_B = 0);
       require (streamId = 3);
       require (take (length v256) data = v256);
       Some (count, ascii CHR ''s'')
     }
   | _ \<Rightarrow> None)"

definition delivered_v256 :: callback where
  "delivered_v256 e v = (case (e, v) of
     (Delivered ctx data size_B streamId status, count, result) \<Rightarrow> do {
       require (unat size_B = length v256);
       require (streamId = 3);
       require (status = CHR ''s'');
       require (take (length v256) data = v256);
       Some (count, ascii CHR ''s'')
     }
   | _ \<Rightarrow> None)"

definition delivered_d :: callback where
  "delivered_d e v = (case (e, v) of
     (Delivered ctx data size_B streamId status, count, result) \<Rightarrow> do {
       require (unat size_B = length v256);
       require (streamId = 3);
       require (status = CHR ''d'');
       Some (count, ascii CHR ''d'')
     }
   | _ \<Rightarrow> None)"

primrec count_bytes :: "bytes \<Rightarrow> u32 \<Rightarrow> u32 option" where
  "count_bytes [] count = Some count"
| "count_bytes (x # xs) count = do {
     require (ucast x = count);
     count_bytes xs (count + 1)
   }"

definition received_piece :: callback where
  "received_piece e v = (case (e, v) of
     (Received ctx data size_B offset_B streamId status, count, result) \<Rightarrow> do {
       require (streamId = 3);
       if status = CHR ''p'' then do {
         require (offset_B = ucast count);
         bs \<leftarrow> data;
         bs \<leftarrow> mem_read bs 0 (unat size_B);
         count \<leftarrow> count_bytes bs count;
         Some (count, ascii CHR ''p'')
       }
       else if status = CHR ''t'' then Some (count, ascii CHR ''t'')
       else if status = CHR ''d'' then Some (count, ascii CHR ''d'')
       else None
     }
   | _ \<Rightarrow> None)"

subsection \<open>The scenarios\<close>

definition test_timed_out :: test where
  "test_timed_out = steps [
     set_count 0, a_setPriority 3 CHR ''R'',
     a_send [ascii CHR ''A''] True 3 5000, a_doCommands, a_onDelivered (delivered_A CHR ''t''),
     wait_us (10 * 1000000),
     a_writeChunk, wrote_nothing, count_is 1,
     set_count 0, a_send [ascii CHR ''A''] True 3 5000, a_doCommands,
     a_writeChunk, wrote_some, a_writeChunk, wrote_nothing,
     b_onReceived received_A,
     b_readChunk, readed, b_reads_empty, readed_nothing, count_is 2]"

definition test_acknowledged :: test where
  "test_acknowledged = steps [
     wait_us 1000000, a_nextDatagram,
     a_writeChunk, wrote_some, a_writeChunk, wrote_nothing,
     b_readChunk, readed, count_is 2,
     b_writeChunk, wrote_some, b_writeChunk, wrote_nothing,
     a_onDelivered (delivered_A CHR ''s''),
     a_readChunk, readed, count_is 3,
     a_writeChunk, wrote_nothing,
     a_readChunk, readed, count_is 3]"

definition test_first_of_three :: test where
  "test_first_of_three = steps [
     wait_us 1000000,
     a_send [ascii CHR ''1''] True 3 5000, a_send [ascii CHR ''2''] True 3 1000, a_send [ascii CHR ''3''] True 3 5000,
     a_doCommands, a_nextDatagram, a_fill, from_start,
     a_writeChunk, wrote_some,
     b_onReceived received_13, set_count 0, from_start,
     b_readChunk, readed, count_is 1, after_readed,
     b_readChunk, readed_nothing]"

definition test_second_times_out :: test where
  "test_second_times_out = steps [
     wait_us (2 * 1000000), a_nextDatagram, a_fill, from_start,
     a_writeChunk, wrote_some, after_written, a_writeChunk, wrote_some, after_written, a_writeChunk, wrote_nothing,
     from_start,
     b_readChunk, readed, result_is 0, after_readed,
     b_readChunk, readed, result_is 0, after_readed,
     b_readChunk, readed_nothing, count_is 1,
     b_nextDatagram, b_fill, from_start,
     b_writeChunk, wrote_some,
     a_onDelivered_null, from_start,
     a_readChunk, readed, count_is 1]"

definition test_third_arrives :: test where
  "test_third_arrives = steps [
     wait_us 1000000, a_nextDatagram, a_fill, from_start,
     a_writeChunk, wrote_some, after_written, a_writeChunk, wrote_nothing,
     from_start,
     b_readChunk, readed, count_is 3,
     a_onDisconnected, b_onDisconnected]"

definition all_digits :: u32 where
  "all_digits = sum_list (map (\<lambda>c. ucast (ascii c)) ''0123456789'')"

definition test_priorities_sent :: test where
  "test_priorities_sent = steps [
     wait_us 1000000,
     a_setPriority 5 CHR ''M'', a_send [ascii CHR ''3''] True 5 5000, a_send [ascii CHR ''6''] True 5 5000,
     a_setPriority 7 CHR ''L'', a_send [ascii CHR ''8''] True 7 5000, a_send [ascii CHR ''9''] True 7 5000,
     a_setPriority 6 CHR ''M'', a_send [ascii CHR ''5''] True 6 5000, a_send [ascii CHR ''7''] True 6 5000,
     a_setPriority 4 CHR ''H'', a_send [ascii CHR ''2''] True 4 5000, a_send [ascii CHR ''4''] True 4 5000,
     a_setPriority 3 CHR ''R'', a_send [ascii CHR ''0''] True 3 5000, a_send [ascii CHR ''1''] True 3 5000,
     a_doCommands, a_nextDatagram, a_fill, from_start,
     repeat_test 10 (steps [a_writeChunk, wrote_some, after_written]),
     a_writeChunk, wrote_nothing]"

definition test_priorities_received :: test where
  "test_priorities_received = steps [
     set_count 0, set_result 0, b_onReceived received_digit, from_start,
     b_readChunk, readed, result_is (ascii CHR ''0''), after_readed,
     b_readChunk, readed, result_is (ascii CHR ''1''), after_readed,
     repeat_test (10 - 2) (steps [b_readChunk, readed, after_readed]),
     b_onReceived_null, b_readChunk, readed_nothing, count_is all_digits]"

definition tx_empty :: "Test \<Rightarrow> bool" where
  "tx_empty s = list_all (\<lambda>(k, stream). ts_fifo stream = [] \<and> ts_fifoShadow stream = []) (txs_map (c_txStreams (e_a s)))"

definition test_priorities_acknowledged :: test where
  "test_priorities_acknowledged = steps [
     a_nextDatagram, b_fill, from_start,
     repeat_test 10 (steps [b_writeChunk, wrote_some, after_written]),
     b_writeChunk, wrote_nothing,
     set_count 0, a_onDelivered delivered_digit, from_start,
     repeat_test 10 (steps [a_readChunk, readed, after_readed]),
     count_is all_digits, a_readChunk, readed_nothing, check tx_empty]"

definition a_writes_next :: test where
  "a_writes_next = steps [a_nextDatagram, a_fill, from_start, a_writeChunk, wrote_some, after_written, a_writeChunk, wrote_nothing]"

definition a_writes_begin :: test where
  "a_writes_begin = steps [from_start, a_writeChunk, wrote_some, after_written, a_writeChunk, wrote_some, after_written,
     a_writeChunk, wrote_nothing]"

definition test_big_sent :: test where
  "test_big_sent = steps [
     wait_us 1000000, a_nextDatagram, a_fill,
     a_setPriority 3 CHR ''R'', a_send v256 False 3 5000, a_doCommands,
     a_writes_begin, a_writes_next, a_writes_next,
     wait_us 1000000, a_nextDatagram, a_fill,
     a_writes_begin, a_writes_next]"

definition test_big_repeat :: test where
  "test_big_repeat = steps [
     from_start, b_readChunk, readed, after_readed, b_readChunk, readed_nothing,
     b_nextDatagram, b_fill, from_start,
     b_writeChunk, wrote_some, after_written, b_writeChunk, wrote_nothing,
     from_start, a_readChunk, readed, after_readed, a_readChunk, readed_nothing]"

definition test_big_again :: test where
  "test_big_again = steps [
     wait_us 1000000, a_nextDatagram, a_fill, a_writes_begin,
     from_start, b_readChunk, readed, after_readed, b_readChunk, readed, after_readed, b_readChunk, readed_nothing,
     b_nextDatagram, from_start, b_writeChunk, wrote_nothing,
     a_writes_next,
     from_start, b_readChunk, readed, after_readed, b_readChunk, readed_nothing,
     b_nextDatagram, from_start, b_writeChunk, wrote_nothing,
     a_writes_next]"

definition test_big_received :: test where
  "test_big_received = steps [
     set_result 0, b_onReceived received_v256, from_start,
     b_readChunk, readed, result_is (ascii CHR ''s''), after_readed, b_readChunk, readed_nothing,
     b_nextDatagram, b_fill, from_start,
     b_writeChunk, wrote_some, after_written, b_writeChunk, wrote_nothing]"

definition test_big_acknowledged :: test where
  "test_big_acknowledged = steps [
     wait_us 1000000, a_nextDatagram, a_fill, a_writes_begin,
     set_result 0, a_onDelivered delivered_v256, from_start,
     a_readChunk, readed, result_is (ascii CHR ''s''), after_readed, a_readChunk, readed_nothing,
     set_result 0, from_start,
     b_readChunk, readed, result_is 0, after_readed,
     b_readChunk, readed, result_is 0, after_readed,
     b_readChunk, readed_nothing, result_is 0,
     b_nextDatagram, from_start, b_writeChunk, wrote_some, from_start, b_writeChunk, wrote_nothing]"

definition test_big_times_out :: test where
  "test_big_times_out = steps [
     wait_us 1000000, a_nextDatagram, a_onDelivered delivered_d,
     a_send v256 False 3 5000, a_doCommands, a_writes_begin,
     set_threshold 0, set_count 0, set_result 0, b_onReceived received_piece, from_start,
     b_readChunk, readed, result_is 0, after_readed,
     b_readChunk, readed, result_is (ascii CHR ''p''), set_result 0, after_readed,
     b_readChunk, readed_nothing, result_is 0,
     wait_us 1000000, b_nextDatagram, from_start, b_writeChunk, wrote_nothing, result_is (ascii CHR ''t'')]"

definition test_big_interrupted :: test where
  "test_big_interrupted = steps [
     a_writes_next,
     set_result 0, from_start,
     b_readChunk, readed, after_readed, b_readChunk, readed_nothing, result_is 0,
     b_nextDatagram, b_fill, from_start, b_writeChunk, wrote_some, after_written, b_writeChunk, wrote_nothing,
     set_result 0, a_onDisconnected, result_is (ascii CHR ''d''),
     set_result 0, b_onDisconnected, result_is 0]"

definition test_small :: test where
  "test_small = steps [test_timed_out, test_acknowledged, test_first_of_three, test_second_times_out, test_third_arrives]"

definition test_priorities :: test where
  "test_priorities = steps [test_priorities_sent, test_priorities_received, test_priorities_acknowledged]"

definition test_big :: test where
  "test_big = steps [test_big_sent, test_big_repeat, test_big_again, test_big_received, test_big_acknowledged,
     test_big_times_out, test_big_interrupted]"

definition testStreams :: "Test option" where
  "testStreams = do {
     test_findPacketIdx;
     test_rx_order;
     test_rx_timeouts;
     s \<leftarrow> test_small Test_init;
     s \<leftarrow> test_priorities s;
     test_big s
   }"

subsection \<open>Running the tests\<close>

lemmas repeat_numeral = repeat_test.simps(2) [where n = "pred_numeral m" for m, folded numeral_eq_Suc]

lemma length_v256: "length v256 = 256"
  by (simp add: v256_def)

lemma v256_not_Nil: "v256 \<noteq> []"
  by (simp add: v256_def)

lemma count_bytes_upt:
  "i + n \<le> 256 \<Longrightarrow> count_bytes (map of_nat [i ..< i + n]) (of_nat i) = Some (of_nat (i + n))"
proof (induction n arbitrary: i)
  case (Suc n)
  have "(ucast (of_nat i :: u8) :: u32) = of_nat i"
    using Suc.prems by (simp add: word_unat_eq_iff unat_ucast_mod unat_of_nat_small)
  then show ?case using Suc.IH [of "Suc i"] Suc.prems by (simp add: upt_rec require_def add.commute)
qed simp

lemma count_v256: "n \<le> 256 \<Longrightarrow> count_bytes (take n v256) 0 = Some (of_nat n)"
  using count_bytes_upt [of 0 n] by (simp add: v256_def take_map min_def)

lemmas test_simps = run_simps
  ascii_def require_def get_id_def get_received_def Test_init_def check_def set_count_def set_result_def
  set_threshold_def from_start_def wait_us_def count_is_def result_is_def write_into_def a_writeChunk_def
  b_writeChunk_def read_from_def a_readChunk_def b_readChunk_def b_reads_empty_def wrote_some_def
  wrote_nothing_def readed_def readed_nothing_def after_written_def after_readed_def a_nextDatagram_def
  b_nextDatagram_def zero_txBuffer_def a_fill_def b_fill_def a_send_def a_setPriority_def a_doCommands_def
  a_onDelivered_def b_onReceived_def a_onDelivered_null_def b_onReceived_null_def a_onDisconnected_def
  b_onDisconnected_def starts_with_def delivered_A_def received_A_def received_13_def received_digit_def
  delivered_digit_def received_v256_def delivered_v256_def delivered_d_def received_piece_def
  test_timed_out_def test_acknowledged_def test_first_of_three_def test_second_times_out_def
  test_third_arrives_def all_digits_def test_priorities_sent_def test_priorities_received_def tx_empty_def
  test_priorities_acknowledged_def a_writes_next_def a_writes_begin_def test_big_sent_def
  test_big_repeat_def test_big_again_def test_big_received_def test_big_acknowledged_def
  test_big_times_out_def test_big_interrupted_def
  length_v256 v256_not_Nil count_v256 repeat_numeral

lemma findPacketIdx_tested: "test_findPacketIdx = Some ()"
  by (simp add: test_findPacketIdx_def test_simps cong: run_congs)

lemma rx_order_tested: "test_rx_order \<noteq> None"
  by (simp add: test_rx_order_def test_simps cong: run_congs)

lemma rx_timeouts_tested: "test_rx_timeouts \<noteq> None"
  by (simp add: test_rx_timeouts_def test_simps cong: run_congs)

text \<open>The states between the parts: all streams are closed after the first one, and idle after the second.\<close>

definition no_meta :: PriorityMeta where
  "no_meta = \<lparr>pm_vec = [], pm_vecIdx = 0, pm_countSent_B = 0\<rparr>"

definition tester :: "u32 \<Rightarrow> bytes \<Rightarrow> Connection" where
  "tester n buf = Connection_init\<lparr>c_cnt := Counters_init\<lparr>n_txPacketsCount := n\<rparr>,
     c_traffic := Traffic_init\<lparr>t_RTT_us := 2000\<rparr>, c_txBuffer := buf\<rparr>"

definition after_small :: Test where
  "after_small =
     \<lparr>e_a = (tester 4 ([48, 3, 4, 0, 0, 0, 1, 51] @ replicate 120 0))\<lparr>c_txStreams :=
        \<lparr>txs_map = [], txs_vec = table (no_meta\<lparr>pm_vec := [3]\<rparr>, no_meta, no_meta, no_meta, no_meta),
         txs_isStreamsChanged = True\<rparr>\<rparr>,
      e_b = (tester 1 ([24, 3, 2, 0, 0, 0] @ replicate 122 0))\<lparr>c_txStreams :=
        \<lparr>txs_map = [], txs_vec = table (no_meta, no_meta, no_meta, no_meta, no_meta), txs_isStreamsChanged = True\<rparr>,
        c_onReceived := Some (\<lambda>_ _ _ _ _ _. 0)\<rparr>,
      e_now_us = 16000000, e_threshold_B = 0x100000, e_offset_B = 0, e_written_B = 0, e_readed_B = 8,
      e_result = 0, e_count = 3, e_onDelivered = delivered_A CHR ''s'', e_onReceived = received_13\<rparr>"

definition idle_tx :: "u8 \<Rightarrow> Priority \<Rightarrow> u8 \<times> TxStream" where
  "idle_tx k p = (k, TxStream_init\<lparr>ts_fifoReturnTime_us := 17004000, ts_nextPacketId := 2, ts_id := k,
     ts_priority := p, ts_isNew := False\<rparr>)"

definition idle_rx :: "u8 \<Rightarrow> u8 \<times> RxStream" where
  "idle_rx k = (k, RxStream_init\<lparr>rs_packetIdx := UINT64_MAX - 2, rs_frontPacketId := 2, rs_debugPacketId := 1,
     rs_id := k, rs_isNew := False\<rparr>)"

definition packet_bytes :: "u8 \<Rightarrow> u8 \<Rightarrow> char \<Rightarrow> bytes" where
  "packet_bytes k n c = [if n = 0 then 48 else 16, k, n, 0, 0, 0, 1, ascii c]"

definition ack_bytes :: "u8 \<Rightarrow> u8 \<Rightarrow> bytes" where
  "ack_bytes k n = [24, k, n, 0, 0, 0]"

definition after_priorities :: Test where
  "after_priorities =
     \<lparr>e_a = (tester 6 (packet_bytes 3 0 CHR ''0'' @ packet_bytes 3 1 CHR ''1'' @ packet_bytes 4 0 CHR ''2''
          @ packet_bytes 5 0 CHR ''3'' @ packet_bytes 4 1 CHR ''4'' @ packet_bytes 6 0 CHR ''5''
          @ packet_bytes 5 1 CHR ''6'' @ packet_bytes 6 1 CHR ''7'' @ packet_bytes 7 0 CHR ''8''
          @ packet_bytes 7 1 CHR ''9'' @ replicate 48 0))\<lparr>c_onDelivered := True, c_txStreams :=
        \<lparr>txs_map = [idle_tx 5 Medium, idle_tx 7 Low, idle_tx 6 Medium, idle_tx 4 High, idle_tx 3 Realtime],
         txs_vec = table (no_meta\<lparr>pm_vec := [3], pm_countSent_B := 16\<rparr>, no_meta\<lparr>pm_vec := [4], pm_countSent_B := 16\<rparr>,
           no_meta\<lparr>pm_vec := [5, 6], pm_countSent_B := 32\<rparr>, no_meta\<lparr>pm_vec := [7], pm_countSent_B := 16\<rparr>, no_meta),
         txs_isStreamsChanged = False\<rparr>\<rparr>,
      e_b = (tester 1 (ack_bytes 3 0 @ ack_bytes 3 1 @ ack_bytes 4 0 @ ack_bytes 5 0 @ ack_bytes 4 1 @ ack_bytes 6 0
          @ ack_bytes 5 1 @ ack_bytes 6 1 @ ack_bytes 7 0 @ ack_bytes 7 1 @ replicate 68 0))\<lparr>c_txStreams :=
        \<lparr>txs_map = [], txs_vec = table (no_meta, no_meta, no_meta, no_meta, no_meta), txs_isStreamsChanged = False\<rparr>,
        c_rxStreams := \<lparr>rxs_acks = [], rxs_map = map idle_rx [3, 4, 5, 6, 7], rxs_streamIt = 4,
         rxs_isStreamsChanged = False\<rparr>\<rparr>,
      e_now_us = 17000000, e_threshold_B = 0x100000, e_offset_B = 60, e_written_B = 0, e_readed_B = 0,
      e_result = ascii CHR ''9'', e_count = 525, e_onDelivered = delivered_digit, e_onReceived = received_digit\<rparr>"

lemmas state_simps = after_small_def tester_def no_meta_def after_priorities_def idle_tx_def idle_rx_def
  packet_bytes_def ack_bytes_def

lemma small_tested: "test_small Test_init = Some after_small"
  by (simp add: test_small_def test_simps state_simps cong: run_congs)

lemma priorities_tested: "test_priorities after_small = Some after_priorities"
  by (simp add: test_priorities_def test_simps state_simps cong: run_congs)

lemma big_tested: "test_big after_priorities \<noteq> None"
  by (simp add: test_big_def test_simps state_simps cong: run_congs)

text \<open>Every assertion of \<open>testStreams\<close>, all of which stand before line 759, holds of the model, those in its callbacks
  included, and no step up to there leaves a buffer or a queue: packets that expire before they are sent, that
  arrive twice or out of order, ten packets of four priorities in one buffer, a packet of three pieces with
  losses, repeat requests, a receiver that gives up in the middle, and a disconnection. The loop of a thousand
  rounds that follows asserts nothing and is not part of \<open>testStreams\<close> here.\<close>

lemma testStreams_passes: "testStreams \<noteq> None"
proof -
  obtain x y z where some: "test_rx_order = Some x" "test_rx_timeouts = Some y" "test_big after_priorities = Some z"
    using rx_order_tested rx_timeouts_tested big_tested by blast
  show ?thesis unfolding testStreams_def some findPacketIdx_tested by (simp add: small_tested priorities_tested some)
qed

end
