(* ===== verification/Spec2Isabelle.thy ===== *)
theory Spec2Isabelle
  imports Udsp_System Udsp_Demo Udsp_Stream_Tests
begin

text \<open>
  A verification of UDSP, a datagram protocol over UDP with several streams per connection, reliable
  and unreliable packets of any size, priorities, pacing and congestion control. The sources are under
  \<open>src/UdspSocket\<close>. An application queues packets with \<open>send\<close>; a worker thread, \<open>Impl::process\<close>,
  receives datagrams (\<open>onUdpReceived\<close>), runs the queued commands and the timers (\<open>process_ts\<close>) and
  sends (\<open>processConnection\<close>). A datagram is a header and a sequence of chunks: small packets, begins
  and pieces of large ones, acknowledgements and repeat requests.

  \<^bold>\<open>Theories, in the order of the code.\<close>
  \<^item> \<open>Udsp_Prelude\<close>: machine types, little-endian byte lists, vectors, consecutive identifiers,
    collections of lemmas. \<open>Udsp_Fifo\<close>: the locale of the loop that drains a queue, interpreted on
    \<open>processRxFifo\<close> and \<open>processTxFifo\<close>.
  \<^item> \<open>Udsp_Wire\<close> (\<open>Stream.cpp\<close>, \<open>Impl.hpp\<close>): readers and writers of integers, the bit fields of
    \<open>ChunkId\<close>, \<open>PacketHeader\<close>; locales of encoders and decoders. Every encoder is read back, and
    \<open>getNumberOfBits\<close> picks the least sufficient width.
  \<^item> \<open>Udsp_Rx_Stream\<close>, \<open>Udsp_Tx_Stream\<close> (\<open>Impl.hpp\<close>, \<open>Stream.cpp\<close>, \<open>Connection.cpp\<close>): the queues of the two
    directions. Delivery in order and exactly once, the window of old identifiers, the search over
    identifiers that wrap around, the well-formedness \<open>tx_ok\<close>, \<open>rx_ok\<close> and their preservation.
  \<^item> \<open>Udsp_Smooth\<close>, \<open>Udsp_Connection\<close> (\<open>Impl.hpp\<close>, \<open>Connection.cpp\<close>): smoothing of the round-trip time in
    single precision, the record of a connection, its command queue, \<open>onDisconnected\<close>.
  \<^item> \<open>Udsp_Write\<close>, \<open>Udsp_Read\<close> (\<open>Stream.cpp\<close>): \<open>writeMetaChunk\<close>, the scheduler \<open>writeDataChunk\<close>, \<open>readChunk\<close>;
    locales of chunk writers and of the handlers of received packets. Writing is free of undefined behaviour
    while the queued packets are safe to send, \<open>txs_safe\<close>: their offsets lie within their data, and they are
    reliable or too large for a datagram. Only a repeat request of the peer can move an offset out of
    the data, and a small unreliable packet is undefined behaviour. The transmit queues refine an abstract queue.
  \<^item> \<open>Udsp_Datagram\<close> (\<open>Connection.cpp\<close>): \<open>writePacket\<close>, probes, goodbyes, the loop over the chunks.
    \<open>Udsp_Exchange\<close>: both ends together, from the sender's queue to the receiver's application and back.
  \<^item> \<open>Udsp_Reassembly\<close>: both ends together for a large packet, cut into pieces, packed into any datagrams
    and put together again; and the corruption after a lost piece.
  \<^item> \<open>Udsp_Reordering\<close>: a stream of small packets over a network that loses, repeats and reorders datagrams:
    delivery in order and exactly once while gaps close in time, and the loss of a packet that is late.
  \<^item> \<open>Udsp_Control\<close> (\<open>Connection.cpp\<close>): path MTU search, pacing, statistics, round-trip time, loss and the
    send limit, for one connection. The search finds the path MTU, a round ends, the limit stays
    between its bounds.
  \<^item> \<open>Udsp_Address\<close>, \<open>Udsp_Udp_Socket\<close> (\<open>UdpSocket.cpp\<close>): addresses with their class invariant; the class \<open>UDPSocket\<close> in the state monad
    over a log of system calls, for an arbitrary operating system. Locales of the relations that all
    operations keep, interpreted on the accounts of descriptors and on the datagrams sent.
  \<^item> \<open>Udsp_Socket\<close> (\<open>Impl.cpp\<close>, \<open>Connection.cpp\<close>): the socket: connecting, listening, stopping, the timers, the
    loop of the worker thread, \<open>onUdpReceived\<close>.
  \<^item> \<open>Udsp_Keep\<close>, \<open>Udsp_Lifecycle\<close>: the invariants of connections and of the socket under arbitrary
    datagrams, the step relation \<open>sock_step\<close> with its sequences \<open>sock_run\<close>, and the callbacks.
  \<^item> \<open>Udsp_System\<close>: the socket with its \<open>udpSocket\<close> over the operating system, a refinement of \<open>sock_step\<close>:
    every datagram is a system call, every descriptor is closed, a round reads all that has arrived.
  \<^item> \<open>Udsp_Evaluate\<close>: equations and congruences with which \<open>simp\<close> runs the model on concrete data.
    \<open>Udsp_Stream_Tests\<close> (\<open>StreamTests.cpp\<close>): the repository's own tests as programs over the model, with
    a proof that none of their assertions fails.
  \<^item> \<open>Udsp_Demo\<close> (\<open>src/tests\<close>): the demo client, a generator of numbered packets and a machine of steps, and the
    check of the numbers in the demo server. The client's rounds end, and the two ends together raise no
    false alarm over a network that reorders.
  The properties of the whole socket follow below.

  \<^bold>\<open>Conventions.\<close> An unsigned integer is a word of its width, so that wrap-around is as in the code;
  a tick is an \<open>int\<close>, with \<open>INT64_MAX\<close> as the mark for never. A class is a record, a \<open>deque\<close> a list, an
  \<open>unordered_map\<close> an association list in its iteration order, a reference to an element its index or
  key. Memory that a pointer refers to is the list of its bytes. \<open>None\<close> stands for undefined behaviour:
  a read or write outside an object, a division by zero, a conversion out of range. Callbacks into the
  application and sent datagrams are lists of events and effects, in order. Clock readings, random
  identifiers and the answers of the operating system are arguments. Asserts do nothing, as in a
  release build.

  \<^bold>\<open>Loops.\<close> All loops but three are total functions with a measure, without fuel. The pacing loop \<open>pace\<close>
  is a \<open>partial_function\<close>, since its byte count may wrap around; \<open>processConnection_returns\<close> shows
  that it ends when the rounds of the worker are at most a quarter of a second apart. The loop over
  \<open>recvfrom\<close> is one too, since datagrams may keep coming; \<open>udsp_round_complete\<close> shows that it ends
  when finitely many have arrived. The third, \<open>gen_process\<close> of the demo client, would not end for packets
  of size zero; \<open>demo_client_returns\<close> shows that it ends in every state of the client.

  \<^bold>\<open>Not modelled.\<close> Threads and the mutex, beyond that whole operations exclude one another; the code
  under \<open>UDSP_TRACE_LEVEL\<close>; the Windows and IPv6 branches; the closing loop of
  \<open>StreamTests.cpp\<close>, which asserts nothing and runs two connections for a thousand rounds; of the demo
  programs under \<open>src/tests\<close> the discovery over plain UDP, the recording to a file, the sleeping, and
  callbacks in the middle of a round of the client.
\<close>

subsection \<open>Examples\<close>

text \<open>A server that listens, a datagram with which a peer opens a connection, and a connection as
  \<open>initConnection\<close> leaves it.\<close>

definition example_server :: Impl where
  "example_server = Impl_init\<lparr>i_onConnected := True, i_onDisconnected := True, i_localPort := 4000, i_isServer := True\<rparr>"

definition example_hello :: "u64 \<Rightarrow> PacketHeader" where
  "example_hello n = \<lparr>h_packetId = PacketId_PMTUProbe, h_packetNumber = 0, h_connectionId = n, h_PMTUProbeSize_B = 0,
     h_packetsLoss_prc100 = 0, h_RTTDelay_us = 0, h_RTTRequest = 0, h_RTTResponse = 1\<rparr>"

definition example_conn :: "u64 \<Rightarrow> Connection" where
  "example_conn n = initConnection 7 8 (Connection_init\<lparr>c_connectionId := n\<rparr>)"

definition example_closing :: "tick \<Rightarrow> Impl" where
  "example_closing t = Impl_init\<lparr>i_onConnected := True, i_onDisconnected := True,
     i_connections := [(0, (example_conn 0)\<lparr>c_nextEraseTick_us := t\<rparr>)]\<rparr>"

definition example_client :: "tick \<Rightarrow> Impl" where
  "example_client lastPacket = Impl_init\<lparr>i_onConnected := True, i_onDisconnected := True,
     i_connections := [(0, (example_conn 5)\<lparr>c_lastPacketTick_us := lastPacket\<rparr>)]\<rparr>"

lemma example_conn_good [simp]: "conn_good (example_conn n)" "life (example_conn n) = (INT64_MAX, INT64_MAX, False, n)"
  using conn_good_new by (simp_all add: example_conn_def) (simp add: life_def Connection_init_def)

lemma example_listen:
  "impl_listen True True 4000 (setOnConnected True (setOnDisconnected True Impl_init)) = (True, example_server, [])"
  by (simp add: impl_listen_def setOnConnected_def setOnDisconnected_def example_server_def Impl_init_def)

lemma example_server_simps [simp]:
  "i_isRunning example_server" "i_isServer example_server" "i_onConnected example_server" "i_onDisconnected example_server"
  "i_connections example_server = []"
  by (simp_all add: example_server_def Impl_init_def)

lemma example_server_inv [simp]: "sock_inv example_server"
  by (simp add: sock_inv_def conns_inv_def example_server_def Impl_init_def)

lemma example_receive:
  assumes "r_RTTRequest (c_rtt c) \<noteq> 1"
  shows "\<exists>c'. receive_datagram clock now on th key (example_hello n) data size_B c
    = Some (c', if c_lastPacketTick_us c = INT64_MAX \<and> on then [OnConnected key] else [])"
  using assms
  by (auto simp: receive_datagram_def receive_header_def rtt_measure_def mark_connected_def example_hello_def Let_def)

lemma example_conn_rtt: "r_RTTRequest (c_rtt (example_conn n)) = 0"
  by (simp add: example_conn_def initConnection_def partialReset_def Rtt_init_def)

lemma example_hello_read: "read_header (header_bytes (example_hello n)) = Some (example_hello n, [])"
  using read_header_bytes [of "example_hello n" "[]"] by simp

lemma example_accept:
  "\<exists>c. onUdpReceived clock now (header_bytes (example_hello n)) 26 7 8 example_server
     = Some (example_server\<lparr>i_connections := [(n, c)]\<rparr>, [OnConnected n])"
proof -
  obtain c where "receive_datagram clock now True 0x100000 n (example_hello n) (header_bytes (example_hello n)) 26 (example_conn n)
      = Some (c, [OnConnected n])"
    using example_receive [of "example_conn n" clock now True] example_conn_rtt example_conn_good(2) [of n] by (fastforce simp: life_def)
  then show ?thesis
    by (intro exI [of _ c])
      (simp add: onUdpReceived_def example_hello_read receive_selected_def select_connection_def serverConnection_def
        example_conn_def put_connection_def,
       simp add: example_hello_def example_server_def Impl_init_def Connection_init_def receive_selected_def
         select_connection_def serverConnection_def put_connection_def)
qed

lemma example_write: "\<exists>c1 evs. writePacket now False True (example_conn n) = Some (True, c1, evs)"
proof -
  let ?c = "example_conn n"
  have "c_txStreams ?c = TxStreams_init" "c_rxStreams ?c = RxStreams_init" "unat (pm_PMTU_B (c_pmtu ?c)) = 1172"
    by (simp_all add: example_conn_def initConnection_def partialReset_def Connection_init_def)
  moreover from this have "conn_inv 1172 ?c"
    by (simp add: conn_inv_def rxs_ok_init txs_ok_init txs_safe_def) (simp add: TxStreams_init_def sent_total_def PriorityMeta_init_def)
  ultimately have "\<exists>sent c' evs. writePacket now False True ?c = Some (sent, c', evs)"
    using writePacket_within [of ?c 0 now False True] by auto
  then show ?thesis by (auto simp: writePacket_def Let_def split: if_splits Option.bind_splits)
qed

lemma example_client_receive:
  assumes "\<not> i_isServer i" "i_connections i = [(0, c)]" "i_onConnected i" "n \<noteq> 0" "r_RTTRequest (c_rtt c) \<noteq> 1"
    "c_lastPacketTick_us c = INT64_MAX"
  shows "\<exists>c'. onUdpReceived clock now (header_bytes (example_hello n)) 26 7 8 i
    = Some (i\<lparr>i_connections := [(0, c')]\<rparr>, [OnConnected 0])"
proof -
  obtain c' where c': "receive_datagram clock now True (i_rxPacketBufferSizeThreshold_B i) 0 (example_hello n)
      (header_bytes (example_hello n)) 26 c = Some (c', [OnConnected 0])"
    using example_receive [OF assms(5), of clock now True] assms(6) by fastforce
  have h: "h_packetId (example_hello n) = PacketId_PMTUProbe" "h_connectionId (example_hello n) = n"
    by (simp_all add: example_hello_def)
  show ?thesis
    using assms c' h
    by (intro exI [of _ c']) (simp add: onUdpReceived_def example_hello_read receive_selected_def select_connection_def clientConnection_def
        put_connection_def)
qed

subsection \<open>The socket\<close>

text \<open>
  C4. Whatever the peers send and in whatever order the application and the worker thread call, a
  socket keeps its invariant. In every state that steps lead to from a new socket, the keys of the
  connections are distinct; every connection has well-formed streams, a path MTU from 1172 to 65535,
  valid queued commands and a reported loss of at most one hundred per cent; and on a server a
  connected entry has its key as identifier and is not about to be erased, while every other entry
  waits to be erased as long as the worker runs.
\<close>

theorem socket_invariant:
  assumes "sock_run P (setOnConnected a (setOnDisconnected b Impl_init)) outs i"
  shows "sock_inv i"
  using sock_run_inv [OF assms] sock_inv_new by simp

theorem socket_invariant_witness:
  "\<exists>c. onUdpReceived 9 9 (header_bytes (example_hello 5)) 26 7 8 example_server
     = Some (example_server\<lparr>i_connections := [(5, c)]\<rparr>, [OnConnected 5])
   \<and> sock_inv (example_server\<lparr>i_connections := [(5, c)]\<rparr>)"
proof -
  obtain c where c: "onUdpReceived 9 9 (header_bytes (example_hello 5)) 26 7 8 example_server
     = Some (example_server\<lparr>i_connections := [(5, c)]\<rparr>, [OnConnected 5])"
    using example_accept by blast
  have "sock_run (\<lambda>_. True) (setOnConnected True (setOnDisconnected True Impl_init)) [] example_server"
    using sock_run_one [OF _ step_listen [OF example_listen]] by simp
  then have "sock_run (\<lambda>_. True) (setOnConnected True (setOnDisconnected True Impl_init)) ([] @ [OnConnected 5])
      (example_server\<lparr>i_connections := [(5, c)]\<rparr>)"
    by (rule run_step [OF _ step_receive [OF _ _ c]]) (simp_all add: clock_ok_def)
  with c show ?thesis using socket_invariant by blast
qed

text \<open>
  C5. A server tells the application about each connection in turn. As long as the socket is a server
  with both callbacks set, over any steps and whatever the peers send, the calls of \<open>onConnected\<close> and
  \<open>onDisconnected\<close> for a connection alternate: a connection is reported as lost only after it was
  reported as made and not again before it is made anew, and what was reported last is whether it is
  connected now.
\<close>

theorem server_callbacks_alternate:
  assumes "sock_inv i" "i_onConnected i" "i_onDisconnected i" "sock_run i_isServer i outs i'"
  shows "flips (up i key) (calls key outs) (up i' key)"
  using server_calls [OF assms(4,1,2,3)] by simp

theorem server_callbacks_alternate_witness:
  "\<exists>i' outs. sock_run i_isServer example_server ([OnConnected 5] @ outs) i'
    \<and> flips (up example_server 5) (calls 5 ([OnConnected 5] @ outs)) (up i' 5)"
proof -
  obtain c where c: "onUdpReceived 9 9 (header_bytes (example_hello 5)) 26 7 8 example_server
     = Some (example_server\<lparr>i_connections := [(5, c)]\<rparr>, [OnConnected 5])"
    using example_accept by blast
  let ?i = "example_server\<lparr>i_connections := [(5, c)]\<rparr>"
  have "sock_run i_isServer example_server [OnConnected 5] ?i"
    using sock_run_one [OF _ step_receive [OF _ _ c]] by (simp add: clock_ok_def)
  moreover have "i_isServer (fst (impl_stop ?i))" by (simp add: impl_stop_def)
  ultimately have "sock_run i_isServer example_server ([OnConnected 5] @ snd (impl_stop ?i)) (fst (impl_stop ?i))"
    using run_step step_stop by (metis prod.collapse)
  moreover from this have "flips (up example_server 5) (calls 5 ([OnConnected 5] @ snd (impl_stop ?i))) (up (fst (impl_stop ?i)) 5)"
    by (rule server_callbacks_alternate [OF example_server_inv example_server_simps(3,4)])
  ultimately show ?thesis by blast
qed

text \<open>
  C22. \<open>stop\<close> closes the socket. It ends the worker, leaves no connection connected, sends one datagram
  to the peer of each connection that was connected and to nobody else, in the order of the map, and
  calls \<open>onDisconnected\<close> exactly once for each of them and for no other.
\<close>

theorem stop_disconnects_all:
  assumes "sock_inv i" "impl_stop i = (i', outs)" "i_onDisconnected i"
  shows "\<not> i_isRunning i' \<and> \<not> up i' key \<and> calls key outs = (if up i key then [False] else [])
    \<and> peers outs = map (\<lambda>(k, c). (c_port c, c_IPv4 c)) (filter (\<lambda>(k, c). conn_isConnected c) (i_connections i))"
proof -
  have "peers (snd (stop_connection on k c)) = (if conn_isConnected c then [(c_port c, c_IPv4 c)] else [])" for on k c
    by (simp add: stop_connection_def writeDisconnect_def case_prod_beta Let_def)
  then have "peers (concat (map (\<lambda>(k, c). snd (stop_connection on k c)) cs))
      = map (\<lambda>(k, c). (c_port c, c_IPv4 c)) (filter (\<lambda>(k, c). conn_isConnected c) cs)" for on cs
    by (induction cs) auto
  with stop_calls [OF assms] assms(2) show ?thesis by (auto simp: impl_stop_def)
qed

theorem stop_disconnects_all_witness:
  "\<exists>c i' outs. impl_stop (example_server\<lparr>i_connections := [(5, c)]\<rparr>) = (i', outs) \<and> calls 5 outs = [False]"
proof -
  let ?c = "(example_conn 5)\<lparr>c_lastPacketTick_us := 9\<rparr>"
  let ?i = "example_server\<lparr>i_connections := [(5, ?c)]\<rparr>"
  have "sock_inv ?i" using example_conn_good(2) [of 5]
    by (simp add: sock_inv_def conns_inv_def entry_ok_def life_def)
  moreover obtain i' outs where "impl_stop ?i = (i', outs)" by fastforce
  moreover have "up ?i 5" by (simp add: up_def last_packet_def)
  ultimately show ?thesis using stop_disconnects_all [of ?i i' outs 5] by auto
qed

text \<open>
  C23. A goodbye reaches a server. \<open>writeDisconnect\<close> writes nothing but the packet type over the buffer
  of the datagram written last, and that is enough: received by a socket that has an entry under the
  sender's identifier, it closes that entry. The callbacks for every packet that is still on its way
  are called, then \<open>onDisconnected\<close> with the reason closed; the streams are dropped, and the entry is
  erased two seconds later.
\<close>

theorem goodbye_closes_server:
  assumes w: "writePacket now test force c = Some (True, c1, evs)"
    and d: "map_of (i_connections i) (c_connectionId c) = Some d" "c_nextEraseTick_us d = INT64_MAX"
  shows "\<exists>d'. onUdpReceived clock now' (c_txBuffer (writeDisconnect c1)) 26 port IPv4 i
      = Some (put_connection (c_connectionId c) d' i,
          map App (snd (conn_onDisconnected d))
            @ notify_disconnected (i_onDisconnected i) (c_connectionId c) CHR ''c'')
    \<and> \<not> conn_isConnected d' \<and> c_nextEraseTick_us d' = now' + 2000000
    \<and> txs_map (c_txStreams d') = [] \<and> rxs_map (c_rxStreams d') = []"
proof -
  define e where "e = (partialReset d)\<lparr>c_nextEraseTick_us := now' + 2000000, c_lastPacketTick_us := INT64_MAX\<rparr>"
  have "snd (conn_onDisconnected e) = snd (conn_onDisconnected d)"
    by (simp add: conn_onDisconnected_def e_def) (auto simp: partialReset_def)
  then show ?thesis
    unfolding receive_goodbye [OF w]
    using d by (intro exI [of _ "fst (conn_onDisconnected e)"])
      (auto simp: receive_disconnect_def e_def [symmetric] case_prod_beta conn_isConnected_def,
       simp_all add: conn_onDisconnected_def e_def)
qed

theorem goodbye_closes_server_witness:
  "\<exists>c1 evs d'. writePacket 3 False True (example_conn 5) = Some (True, c1, evs)
    \<and> onUdpReceived 9 9 (c_txBuffer (writeDisconnect c1)) 26 7 8 (example_server\<lparr>i_connections := [(5, example_conn 5)]\<rparr>)
      = Some (put_connection 5 d' (example_server\<lparr>i_connections := [(5, example_conn 5)]\<rparr>),
          map App (snd (conn_onDisconnected (example_conn 5))) @ [OnDisconnected 5 CHR ''c''])"
proof -
  obtain c1 evs where w: "writePacket 3 False True (example_conn 5) = Some (True, c1, evs)" using example_write by blast
  have "c_connectionId (example_conn 5) = 5" "c_nextEraseTick_us (example_conn 5) = INT64_MAX"
    using example_conn_good(2) [of 5] by (simp_all add: life_def)
  then show ?thesis
    using goodbye_closes_server [OF w, of "example_server\<lparr>i_connections := [(5, example_conn 5)]\<rparr>" "example_conn 5" 9 9 7 8] w
    by (auto simp: notify_disconnected_def)
qed

text \<open>
  C38. A client does not hear a goodbye. It keeps its only connection under the key 0, and a goodbye is
  looked up by the identifier in its header, which is random: so the one that a server sends to it
  changes nothing, and the client learns that the connection is gone only from the silence that
  follows.
\<close>

theorem client_ignores_goodbye:
  assumes w: "writePacket now test force c = Some (True, c1, evs)"
    and i: "\<not> i_isServer i" "i_connections i = [(0, d)]" "c_connectionId c \<noteq> 0"
  shows "onUdpReceived clock now' (c_txBuffer (writeDisconnect c1)) 26 port IPv4 i = Some (i, [])"
  unfolding receive_goodbye [OF w] using i by (simp add: receive_disconnect_def)

theorem client_ignores_goodbye_witness:
  "\<exists>c1 evs. writePacket 3 False True (example_conn 5) = Some (True, c1, evs)
    \<and> onUdpReceived 9 9 (c_txBuffer (writeDisconnect c1)) 26 7 8 (Impl_init\<lparr>i_connections := [(0, example_conn 5)]\<rparr>)
      = Some (Impl_init\<lparr>i_connections := [(0, example_conn 5)]\<rparr>, [])"
proof -
  obtain c1 evs where w: "writePacket 3 False True (example_conn 5) = Some (True, c1, evs)" using example_write by blast
  have "c_connectionId (example_conn 5) \<noteq> 0" using example_conn_good(2) [of 5] by (simp add: life_def)
  then show ?thesis
    using client_ignores_goodbye [OF w, of "Impl_init\<lparr>i_connections := [(0, example_conn 5)]\<rparr>" "example_conn 5" 9 9 7 8] w
    by (simp add: Impl_init_def)
qed

text \<open>
  C37. A client can be told twice in a row that it is connected. A datagram that arrives in the two
  seconds after a timeout is taken, since the guard for connections about to be erased looks under the
  identifier and not under the key 0; the connection is reported as made, the timer then resets it
  without a report, and the next datagram makes it be reported as made again.
\<close>

theorem client_connects_twice:
  assumes i: "\<not> i_isServer i" "i_isRunning i" "i_connections i = [(0, c)]" "sock_inv i" "i_onConnected i"
    and c: "c_lastPacketTick_us c = INT64_MAX" "c_nextEraseTick_us c = t" "t \<noteq> INT64_MAX" "\<not> c_isDisconnectRequested c"
    and h: "read_header data = Some (h, rest)" "h_connectionId h \<noteq> 0" "sizeof_PacketHeader \<le> unat size_B"
      "h_packetId h = PacketId_TypeA \<or> h_packetId h = PacketId_PMTUProbe"
    and clocks: "clock_ok t1" "clock_ok t2" "t \<le> t2"
    and run: "onUdpReceived clock1 t1 data size_B port IPv4 i = Some (i1, outs1)" "process_ts t2 i1 = (i2, outs2)"
      "onUdpReceived clock3 t3 data size_B port IPv4 i2 = Some (i3, outs3)"
  shows "calls 0 (outs1 @ outs2 @ outs3) = [True, True]"
proof -
  have h': "h_packetId h \<noteq> PacketId_Disconnect" using h(4) by auto
  note first = receive_client [OF i(1,3,4,5) h(1,2) h' h(4,3) c(1) run(1)]
  then obtain c1 where c1: "i1 = i\<lparr>i_connections := [(0, c1)]\<rparr>" "life c1 = (t1, t, False, c_connectionId c)"
    using c by auto
  have inv: "sock_inv i1" using receive_inv [OF i(4,2) clocks(1) run(1)] .
  have run1: "i_isRunning i1" using i(2) by (simp add: c1(1))
  have "sock_inv i2" using timers_inv [OF inv run1 clocks(2) run(2)] .
  moreover have "outs2 = [] \<and> (\<exists>c2. i2 = i\<lparr>i_connections := [(0, c2)]\<rparr> \<and> c_lastPacketTick_us c2 = INT64_MAX)"
    using run(2) c1 i(1) c clocks(3) doCommands_life [of c1]
    by (auto simp: process_ts_one c1(1) process_ts_connection_def Let_def life_def)
  ultimately have "outs2 = []" "calls 0 outs3 = [True]"
    using receive_client(1) [OF _ _ _ _ h(1,2) h' h(4,3) _ run(3)] i by auto
  with first(1) show ?thesis by simp
qed

theorem client_connects_twice_witness:
  "\<exists>i1 outs1 i2 outs2 i3 outs3.
     onUdpReceived 10 10 (header_bytes (example_hello 5)) 26 7 8 (example_closing 100) = Some (i1, outs1)
   \<and> process_ts 100 i1 = (i2, outs2) \<and> onUdpReceived 200 200 (header_bytes (example_hello 5)) 26 7 8 i2 = Some (i3, outs3)
   \<and> calls 0 (outs1 @ outs2 @ outs3) = [True, True]"
proof -
  let ?c = "(example_conn 0)\<lparr>c_nextEraseTick_us := 100\<rparr>" and ?i = "example_closing 100"
  have i: "\<not> i_isServer ?i" "i_isRunning ?i" "i_connections ?i = [(0, ?c)]" "i_onConnected ?i"
    by (simp_all add: example_closing_def Impl_init_def)
  have c: "c_lastPacketTick_us ?c = INT64_MAX" "\<not> c_isDisconnectRequested ?c" "conn_good ?c" "r_RTTRequest (c_rtt ?c) \<noteq> 1"
    using example_conn_good(2) [of 0] example_conn_rtt [of 0] by (simp_all add: life_def)
  have inv: "sock_inv ?i" using c i by (simp add: sock_inv_def conns_inv_def)
  obtain c1 where r1: "onUdpReceived 10 10 (header_bytes (example_hello 5)) 26 7 8 ?i
      = Some (?i\<lparr>i_connections := [(0, c1)]\<rparr>, [OnConnected 0])"
    using example_client_receive [OF i(1,3,4) _ c(4,1)] by fastforce
  obtain c' where c': "?i\<lparr>i_connections := [(0, c1)]\<rparr> = ?i\<lparr>i_connections := [(0, c')]\<rparr>" "life c' = (10, 100, False, 0)"
    using receive_client(2) [OF i(1,3) inv i(4) example_hello_read _ _ _ _ c(1) r1] example_conn_good(2) [of 0]
    by (auto simp: example_hello_def life_def)
  have "life c1 = (10, 100, False, 0)" using arg_cong [OF c'(1), of i_connections] c'(2) by simp
  then obtain i2 outs2 c2 where r2: "process_ts 100 (?i\<lparr>i_connections := [(0, c1)]\<rparr>) = (i2, outs2)"
      "i2 = ?i\<lparr>i_connections := [(0, c2)]\<rparr>" "c_lastPacketTick_us c2 = INT64_MAX" "r_RTTRequest (c_rtt c2) = 0"
    using i(1) doCommands_life [of c1]
    by (auto simp: process_ts_one process_ts_connection_def life_def partialReset_def Rtt_init_def Let_def)
  obtain i3 outs3 where r3: "onUdpReceived 200 200 (header_bytes (example_hello 5)) 26 7 8 i2 = Some (i3, outs3)"
    using example_client_receive [of i2 c2 5] r2 i by fastforce
  have "calls 0 ([OnConnected 0] @ outs2 @ outs3) = [True, True]"
    using client_connects_twice [OF i(1,2,3) inv i(4) c(1) _ _ c(2) example_hello_read _ _ _ _ _ _ r1 r2(1) r3]
    by (simp add: example_hello_def clock_ok_def)
  with r1 r2(1) r3 show ?thesis by blast
qed

text \<open>A client whose connection timed out tries again without an identifier. The timeout is reported
  once and sets the identifier to 0; two seconds later the connection is made ready again, but no new
  identifier is drawn, so every datagram that it writes from then on carries the identifier 0. A
  server keeps all such clients under one entry.\<close>

lemma client_reconnects_anonymously:
  assumes i: "\<not> i_isServer i" "i_connections i = [(0, c)]" "i_onDisconnected i"
    and c: "c_nextEraseTick_us c = INT64_MAX" "\<not> c_isDisconnectRequested c" "c_lastPacketTick_us c \<le> now - 4000000"
    and clocks: "now < INT64_MAX - 2000000" "now + 2000000 \<le> now'"
    and run: "process_ts now i = (i1, outs)" "process_ts now' i1 = (i2, outs')"
  shows "calls 0 (outs @ outs') = [False]
    \<and> (\<exists>c'. i_connections i2 = [(0, c')] \<and> life c' = (INT64_MAX, INT64_MAX, False, 0)
      \<and> (\<forall>clock test force c1 evs. writePacket clock test force c' = Some (True, c1, evs) \<longrightarrow>
            (\<exists>h rest. read_header (c_txBuffer c1) = Some (h, rest) \<and> h_connectionId h = 0)))"
proof -
  let ?d = "(doCommands c)\<lparr>c_nextEraseTick_us := now + 2000000, c_lastPacketTick_us := INT64_MAX\<rparr>"
  let ?c1 = "fst (conn_onDisconnected ?d)"
  have l: "life (doCommands c) = life c" by (rule doCommands_life)
  have first: "i1 = i\<lparr>i_connections := [(0, ?c1)]\<rparr>" "calls 0 outs = [False]"
    using run(1) i c l by (auto simp: process_ts_one process_ts_connection_def Let_def life_def case_prod_beta)
  have l1: "life ?c1 = (INT64_MAX, now + 2000000, False, 0)"
    using l c by (simp add: conn_onDisconnected_def life_def)
  define c2 where "c2 = (partialReset (doCommands ?c1))\<lparr>c_nextEraseTick_us := INT64_MAX, c_lastPacketTick_us := INT64_MAX\<rparr>"
  have second: "i_connections i2 = [(0, c2)]" "outs' = []"
    using run(2) i(1) l1 clocks doCommands_life [of ?c1]
    by (auto simp: first(1) process_ts_one process_ts_connection_def Let_def life_def c2_def)
  have l2: "life c2 = (INT64_MAX, INT64_MAX, False, 0)"
    using l1 doCommands_life [of ?c1] by (simp add: c2_def life_def) (simp add: partialReset_def)
  have "\<exists>h rest. read_header (c_txBuffer c1) = Some (h, rest) \<and> h_connectionId h = 0"
    if "writePacket clock test force c2 = Some (True, c1, evs)" for clock test force c1 evs
    using writePacket_header [OF that] l2 read_header_bytes by (fastforce simp: life_def)
  with first second l2 show ?thesis by auto
qed

text \<open>
  C21. A server gets rid of a silent peer. When nothing was received on a connection for four seconds,
  the next run of the timers reports it as lost, and a run two seconds or more later removes it from
  the map, whatever datagrams arrive in between, also under its identifier.
\<close>

theorem silent_peer_dropped:
  assumes i: "sock_inv i" "i_isServer i" "i_isRunning i" "i_onDisconnected i"
    and c: "map_of (i_connections i) key = Some c" "c_lastPacketTick_us c \<le> now - 4000000"
    and clocks: "clock_ok now" "\<forall>d \<in> set ds. clock_ok (snd (fst d))" "now + 2000000 \<le> now'"
    and run: "process_ts now i = (i1, outs1)" "receive_all ds i1 = Some (i2, outs2)" "process_ts now' i2 = (i3, outs3)"
  shows "calls key outs1 = [False] \<and> map_of (i_connections i3) key = None"
proof -
  have dist: "distinct (map fst (i_connections j))" if "sock_inv j" for j using that by (simp add: sock_inv_def conns_inv_def)
  have e: "entry_ok True key (life c)"
    using conns_inv_lookup [OF i(1) [unfolded sock_inv_def] c(1)] i(2,3) by simp
  have "c_lastPacketTick_us c \<noteq> INT64_MAX" using c(2) clocks(1) by (simp add: clock_ok_def)
  then have l: "life (doCommands c) = (c_lastPacketTick_us c, INT64_MAX, False, key)"
    using e doCommands_life [of c] by (simp add: entry_ok_def life_def)
  define c1 where "c1 = fst (conn_onDisconnected
    ((doCommands c)\<lparr>c_nextEraseTick_us := now + 2000000, c_lastPacketTick_us := INT64_MAX\<rparr>))"
  have "fst (process_ts_connection now True True key c) = Some c1"
      "calls key (snd (process_ts_connection now True True key c)) = [False]"
    using l c(2) by (auto simp: process_ts_connection_def life_def Let_def case_prod_beta c1_def)
  then have first: "map_of (i_connections i1) key = Some c1" "calls key outs1 = [False]"
    using process_ts_lookup [OF dist [OF i(1)] run(1), of key] timers_told [OF dist [OF i(1)] run(1), of key] c(1) i
    by simp_all
  have l1: "life c1 = (INT64_MAX, now + 2000000, False, 0)" using l by (simp add: conn_onDisconnected_def life_def c1_def)
  have m1: "same_mode i i1" using timers_mode [of i now] run(1) by simp
  have m2: "map_of (i_connections i2) key = Some c1" "same_mode i1 i2"
    using receive_all_closing [OF run(2) _ first(1)] m1 i(2) l1 clocks(1) by (auto simp: same_mode_def life_def clock_ok_def)
  have "sock_run (same_mode i) i1 outs2 i2" using receive_all_run [OF run(2) i(3) m1 clocks(2)] .
  then have "sock_inv i2" using sock_run_inv timers_inv [OF i(1,3) clocks(1) run(1)] by blast
  moreover have "i_isServer i2" using m1 m2(2) i(2) by (simp add: same_mode_def)
  ultimately have "map_of (i_connections i3) key = None"
    using process_ts_lookup [OF dist run(3), of key] m2(1) l1 doCommands_life [of c1] clocks(1,3)
    by (auto simp: process_ts_connection_def life_def clock_ok_def Let_def)
  with first show ?thesis by simp
qed

theorem silent_peer_dropped_witness:
  "\<exists>i1 outs1 i2 outs2. process_ts 5000000 (example_server\<lparr>i_connections := [(5, (example_conn 5)\<lparr>c_lastPacketTick_us := 1\<rparr>)]\<rparr>)
      = (i1, outs1) \<and> process_ts 7000000 i1 = (i2, outs2) \<and> calls 5 outs1 = [False] \<and> map_of (i_connections i2) 5 = None"
proof -
  let ?c = "(example_conn 5)\<lparr>c_lastPacketTick_us := 1\<rparr>"
  let ?i = "example_server\<lparr>i_connections := [(5, ?c)]\<rparr>"
  have i: "sock_inv ?i" using example_conn_good(2) [of 5] by (simp add: sock_inv_def conns_inv_def entry_ok_def life_def)
  obtain i1 outs1 i2 outs2 where r: "process_ts 5000000 ?i = (i1, outs1)" "process_ts 7000000 i1 = (i2, outs2)" by fastforce
  moreover have "receive_all [((6000000, 6000000), [], 0, 7, 8)] i1 = Some (i1, [])" by (simp add: onUdpReceived_def)
  ultimately have "calls 5 outs1 = [False] \<and> map_of (i_connections i2) 5 = None"
    using silent_peer_dropped [OF i, of 5 ?c 5000000 "[((6000000, 6000000), [], 0, 7, 8)]" 7000000 i1 outs1 i1 "[]" i2 outs2]
    by (simp add: clock_ok_def)
  with r show ?thesis by blast
qed

end
